theory Spec2Isabelle
  imports Main "HOL-Library.Tree"
begin

section \<open>Node indices, sentinels and the slot arena\<close>

type_synonym NodeIndex = nat

text \<open>
  Modelled from the spec: the header \<^verbatim>\<open>fixed_red_black_tree.hpp\<close> is not part of the
  sources at hand; \<^verbatim>\<open>fixed_map.hpp\<close> only names \<^verbatim>\<open>NULL_INDEX\<close>, compares it with
  indices and replaces it by \<^verbatim>\<open>CAPACITY\<close>. The spec calls it a reserved numeric index
  ("no node / absent subtree", a "numeric magic value"). It is taken here as the largest
  value of the index type \<^verbatim>\<open>std::size_t\<close> (64 bit).
\<close>
definition NULL_INDEX :: NodeIndex where
  "NULL_INDEX = 18446744073709551615"

datatype Color = RED | BLACK

text \<open>
  Modelled from the spec: a node is "key, value, parent index, left-child index,
  right-child index, a color bit"; its identity is its slot index.
\<close>
record ('k, 'v) Node =
  node_key :: 'k
  node_value :: 'v
  parent_index :: NodeIndex
  left_index :: NodeIndex
  right_index :: NodeIndex
  node_color :: Color

text \<open>
  Modelled from the spec: the tree "owns the slot arena (capacity N), a root index, and a
  strict-weak-order comparator". The arena is a fixed array of N slots; a slot holding
  \<open>None\<close> is free, a slot holding \<open>Some n\<close> is occupied. The declared capacity is the
  length of the array.
\<close>
record ('k, 'v) FixedRedBlackTree =
  comparator :: "'k \<Rightarrow> 'k \<Rightarrow> bool"
  slots :: "('k, 'v) Node option list"
  root_index :: NodeIndex

text \<open>Modelled from the spec: result of \<^verbatim>\<open>locate_with_parent\<close>, "(index, would_be_parent)"
  together with the side on which a new node would attach.\<close>
record NodeIndexAndParentIndex =
  np_i :: NodeIndex
  np_parent :: NodeIndex
  np_is_left_child :: bool

datatype error = CapacityExceeded

definition CAPACITY :: "('k, 'v) FixedRedBlackTree \<Rightarrow> nat" where
  "CAPACITY t = length (slots t)"

definition node_at :: "('k, 'v) FixedRedBlackTree \<Rightarrow> NodeIndex \<Rightarrow> ('k, 'v) Node option" where
  "node_at t i = (if i < length (slots t) then slots t ! i else None)"

text \<open>Modelled from the spec: "a node exists iff its slot is marked occupied".\<close>
definition contains_at :: "('k, 'v) FixedRedBlackTree \<Rightarrow> NodeIndex \<Rightarrow> bool" where
  "contains_at t i = (node_at t i \<noteq> None)"

definition left_of :: "('k, 'v) FixedRedBlackTree \<Rightarrow> NodeIndex \<Rightarrow> NodeIndex" where
  "left_of t i = (case node_at t i of None \<Rightarrow> NULL_INDEX | Some n \<Rightarrow> left_index n)"

definition right_of :: "('k, 'v) FixedRedBlackTree \<Rightarrow> NodeIndex \<Rightarrow> NodeIndex" where
  "right_of t i = (case node_at t i of None \<Rightarrow> NULL_INDEX | Some n \<Rightarrow> right_index n)"

definition parent_of :: "('k, 'v) FixedRedBlackTree \<Rightarrow> NodeIndex \<Rightarrow> NodeIndex" where
  "parent_of t i = (case node_at t i of None \<Rightarrow> NULL_INDEX | Some n \<Rightarrow> parent_index n)"

definition color_of :: "('k, 'v) FixedRedBlackTree \<Rightarrow> NodeIndex \<Rightarrow> Color" where
  "color_of t i = (case node_at t i of None \<Rightarrow> BLACK | Some n \<Rightarrow> node_color n)"

definition update_node ::
  "('k, 'v) FixedRedBlackTree \<Rightarrow> NodeIndex \<Rightarrow> (('k, 'v) Node \<Rightarrow> ('k, 'v) Node)
    \<Rightarrow> ('k, 'v) FixedRedBlackTree" where
  "update_node t i f =
     (case node_at t i of
        None \<Rightarrow> t
      | Some n \<Rightarrow> t\<lparr>slots := (slots t)[i := Some (f n)]\<rparr>)"

definition set_left :: "('k, 'v) FixedRedBlackTree \<Rightarrow> NodeIndex \<Rightarrow> NodeIndex \<Rightarrow> ('k, 'v) FixedRedBlackTree" where
  "set_left t i c = update_node t i (\<lambda>n. n\<lparr>left_index := c\<rparr>)"

definition set_right :: "('k, 'v) FixedRedBlackTree \<Rightarrow> NodeIndex \<Rightarrow> NodeIndex \<Rightarrow> ('k, 'v) FixedRedBlackTree" where
  "set_right t i c = update_node t i (\<lambda>n. n\<lparr>right_index := c\<rparr>)"

definition set_parent :: "('k, 'v) FixedRedBlackTree \<Rightarrow> NodeIndex \<Rightarrow> NodeIndex \<Rightarrow> ('k, 'v) FixedRedBlackTree" where
  "set_parent t i p = update_node t i (\<lambda>n. n\<lparr>parent_index := p\<rparr>)"

definition set_color :: "('k, 'v) FixedRedBlackTree \<Rightarrow> NodeIndex \<Rightarrow> Color \<Rightarrow> ('k, 'v) FixedRedBlackTree" where
  "set_color t i c = update_node t i (\<lambda>n. n\<lparr>node_color := c\<rparr>)"

definition set_entry :: "('k, 'v) FixedRedBlackTree \<Rightarrow> NodeIndex \<Rightarrow> 'k \<Rightarrow> 'v \<Rightarrow> ('k, 'v) FixedRedBlackTree" where
  "set_entry t i k v = update_node t i (\<lambda>n. n\<lparr>node_key := k, node_value := v\<rparr>)"

definition set_value :: "('k, 'v) FixedRedBlackTree \<Rightarrow> NodeIndex \<Rightarrow> 'v \<Rightarrow> ('k, 'v) FixedRedBlackTree" where
  "set_value t i v = update_node t i (\<lambda>n. n\<lparr>node_value := v\<rparr>)"

subsection \<open>Slot arena\<close>

text \<open>
  Modelled from the spec (4.1): \<^verbatim>\<open>allocate()\<close> "returns a free slot index and marks it
  occupied, or signals capacity-exceeded when none remain"; \<^verbatim>\<open>release(index)\<close> returns the
  index to the free pool. The spec gives no order of reuse; the lowest free index is taken.
\<close>
definition free_index :: "('k, 'v) FixedRedBlackTree \<Rightarrow> NodeIndex option" where
  "free_index t = List.find (\<lambda>i. slots t ! i = None) [0..<length (slots t)]"

definition emplace_at ::
  "('k, 'v) FixedRedBlackTree \<Rightarrow> NodeIndex \<Rightarrow> ('k, 'v) Node \<Rightarrow> ('k, 'v) FixedRedBlackTree" where
  "emplace_at t i n = t\<lparr>slots := (slots t)[i := Some n]\<rparr>"

definition release :: "('k, 'v) FixedRedBlackTree \<Rightarrow> NodeIndex \<Rightarrow> ('k, 'v) FixedRedBlackTree" where
  "release t i = t\<lparr>slots := (slots t)[i := None]\<rparr>"

definition tree_size :: "('k, 'v) FixedRedBlackTree \<Rightarrow> nat" where
  "tree_size t = length (filter (\<lambda>s. s \<noteq> None) (slots t))"

definition tree_empty :: "('k, 'v) FixedRedBlackTree \<Rightarrow> bool" where
  "tree_empty t = (tree_size t = 0)"

definition tree_full :: "('k, 'v) FixedRedBlackTree \<Rightarrow> bool" where
  "tree_full t = (tree_size t = CAPACITY t)"

definition new_tree :: "nat \<Rightarrow> ('k \<Rightarrow> 'k \<Rightarrow> bool) \<Rightarrow> ('k, 'v) FixedRedBlackTree" where
  "new_tree cap cmp = \<lparr>comparator = cmp, slots = replicate cap None, root_index = NULL_INDEX\<rparr>"

text \<open>Modelled from the spec: \<^verbatim>\<open>clear\<close> "empties container, releases all slots".\<close>
definition tree_clear :: "('k, 'v) FixedRedBlackTree \<Rightarrow> ('k, 'v) FixedRedBlackTree" where
  "tree_clear t = t\<lparr>slots := replicate (length (slots t)) None, root_index := NULL_INDEX\<rparr>"

section \<open>Tree engine\<close>

subsection \<open>Descent\<close>

text \<open>
  Modelled from the spec (4.2): \<^verbatim>\<open>locate(key)\<close>, "descend from root comparing against the
  comparator", and \<^verbatim>\<open>locate_with_parent(key)\<close>, "same descent, also returning where a new
  node would attach". The names are those \<^verbatim>\<open>fixed_map.hpp\<close> calls.
\<close>
partial_function (option) index_of_node_with_parent_loop ::
  "('k, 'v) FixedRedBlackTree \<Rightarrow> 'k \<Rightarrow> NodeIndex \<Rightarrow> NodeIndex \<Rightarrow> bool
    \<Rightarrow> NodeIndexAndParentIndex option" where
  "index_of_node_with_parent_loop t k i p is_left =
     (case node_at t i of
        None \<Rightarrow> Some \<lparr>np_i = NULL_INDEX, np_parent = p, np_is_left_child = is_left\<rparr>
      | Some n \<Rightarrow>
          if comparator t k (node_key n) then
            index_of_node_with_parent_loop t k (left_index n) i True
          else if comparator t (node_key n) k then
            index_of_node_with_parent_loop t k (right_index n) i False
          else Some \<lparr>np_i = i, np_parent = p, np_is_left_child = is_left\<rparr>)"

declare index_of_node_with_parent_loop.simps [code]

definition index_of_node_with_parent ::
  "('k, 'v) FixedRedBlackTree \<Rightarrow> 'k \<Rightarrow> NodeIndexAndParentIndex option" where
  "index_of_node_with_parent t k =
     index_of_node_with_parent_loop t k (root_index t) NULL_INDEX True"

definition index_of_node_or_null :: "('k, 'v) FixedRedBlackTree \<Rightarrow> 'k \<Rightarrow> NodeIndex option" where
  "index_of_node_or_null t k = map_option np_i (index_of_node_with_parent t k)"

definition contains_node :: "('k, 'v) FixedRedBlackTree \<Rightarrow> 'k \<Rightarrow> bool option" where
  "contains_node t k = map_option (contains_at t) (index_of_node_or_null t k)"

subsection \<open>Order navigation\<close>

text \<open>Modelled from the spec (4.2): \<^verbatim>\<open>min() / max()\<close>, "leftmost / rightmost descent
  from root".\<close>
partial_function (option) leftmost ::
  "('k, 'v) FixedRedBlackTree \<Rightarrow> NodeIndex \<Rightarrow> NodeIndex option" where
  "leftmost t i = (if left_of t i = NULL_INDEX then Some i else leftmost t (left_of t i))"

declare leftmost.simps [code]

partial_function (option) rightmost ::
  "('k, 'v) FixedRedBlackTree \<Rightarrow> NodeIndex \<Rightarrow> NodeIndex option" where
  "rightmost t i = (if right_of t i = NULL_INDEX then Some i else rightmost t (right_of t i))"

declare rightmost.simps [code]

definition index_of_min_at :: "('k, 'v) FixedRedBlackTree \<Rightarrow> NodeIndex option" where
  "index_of_min_at t =
     (if root_index t = NULL_INDEX then Some NULL_INDEX else leftmost t (root_index t))"

definition index_of_max_at :: "('k, 'v) FixedRedBlackTree \<Rightarrow> NodeIndex option" where
  "index_of_max_at t =
     (if root_index t = NULL_INDEX then Some NULL_INDEX else rightmost t (root_index t))"

text \<open>
  Modelled from the spec (4.2): \<^verbatim>\<open>successor(index) / predecessor(index)\<close>, "descend into
  the right/left subtree if present, else walk up through ancestors until crossing from a
  left-child to its parent (successor) or right-child to its parent (predecessor)". An index
  without a node has neither subtree nor ancestors, and the walk ends at the null index.
\<close>
partial_function (option) climb_from_right ::
  "('k, 'v) FixedRedBlackTree \<Rightarrow> NodeIndex \<Rightarrow> NodeIndex \<Rightarrow> NodeIndex option" where
  "climb_from_right t ch p =
     (if p \<noteq> NULL_INDEX \<and> ch = right_of t p then climb_from_right t p (parent_of t p)
      else Some p)"

declare climb_from_right.simps [code]

partial_function (option) climb_from_left ::
  "('k, 'v) FixedRedBlackTree \<Rightarrow> NodeIndex \<Rightarrow> NodeIndex \<Rightarrow> NodeIndex option" where
  "climb_from_left t ch p =
     (if p \<noteq> NULL_INDEX \<and> ch = left_of t p then climb_from_left t p (parent_of t p)
      else Some p)"

declare climb_from_left.simps [code]

definition index_of_successor_at ::
  "('k, 'v) FixedRedBlackTree \<Rightarrow> NodeIndex \<Rightarrow> NodeIndex option" where
  "index_of_successor_at t i =
     (if \<not> contains_at t i then Some NULL_INDEX
      else if right_of t i \<noteq> NULL_INDEX then leftmost t (right_of t i)
      else climb_from_right t i (parent_of t i))"

definition index_of_predecessor_at ::
  "('k, 'v) FixedRedBlackTree \<Rightarrow> NodeIndex \<Rightarrow> NodeIndex option" where
  "index_of_predecessor_at t i =
     (if \<not> contains_at t i then Some NULL_INDEX
      else if left_of t i \<noteq> NULL_INDEX then rightmost t (left_of t i)
      else climb_from_left t i (parent_of t i))"

subsection \<open>Rotations\<close>

definition rotate_left :: "('k, 'v) FixedRedBlackTree \<Rightarrow> NodeIndex \<Rightarrow> ('k, 'v) FixedRedBlackTree" where
  "rotate_left t p =
     (let r = right_of t p in
      if contains_at t p \<and> contains_at t r then
        (let t1 = set_right t p (left_of t r);
             t2 = set_parent t1 (left_of t r) p;
             t3 = set_parent t2 r (parent_of t p);
             t4 = (if parent_of t p = NULL_INDEX then t3\<lparr>root_index := r\<rparr>
                   else if left_of t (parent_of t p) = p then set_left t3 (parent_of t p) r
                   else set_right t3 (parent_of t p) r);
             t5 = set_left t4 r p
         in set_parent t5 p r)
      else t)"

definition rotate_right :: "('k, 'v) FixedRedBlackTree \<Rightarrow> NodeIndex \<Rightarrow> ('k, 'v) FixedRedBlackTree" where
  "rotate_right t p =
     (let l = left_of t p in
      if contains_at t p \<and> contains_at t l then
        (let t1 = set_left t p (right_of t l);
             t2 = set_parent t1 (right_of t l) p;
             t3 = set_parent t2 l (parent_of t p);
             t4 = (if parent_of t p = NULL_INDEX then t3\<lparr>root_index := l\<rparr>
                   else if right_of t (parent_of t p) = p then set_right t3 (parent_of t p) l
                   else set_left t3 (parent_of t p) l);
             t5 = set_right t4 l p
         in set_parent t5 p l)
      else t)"

subsection \<open>Insertion\<close>

text \<open>
  Modelled from the spec (4.2), \<^verbatim>\<open>insert_new\<close>: "restore invariants bottom-up: while the
  new node's parent is red, either recolor (parent, uncle, grandparent) when the uncle is red,
  or perform one or two rotations when the uncle is black, terminating by coloring the root
  black".
\<close>
partial_function (option) fix_after_insertion_loop ::
  "('k, 'v) FixedRedBlackTree \<Rightarrow> NodeIndex \<Rightarrow> ('k, 'v) FixedRedBlackTree option" where
  "fix_after_insertion_loop t x =
     (if x \<noteq> NULL_INDEX \<and> x \<noteq> root_index t \<and> color_of t (parent_of t x) = RED then
        (let p = parent_of t x; g = parent_of t p in
         if p = left_of t g then
           (let y = right_of t g in
            if color_of t y = RED then
              fix_after_insertion_loop
                (set_color (set_color (set_color t p BLACK) y BLACK) g RED) g
            else
              (let x1 = (if x = right_of t p then p else x);
                   t1 = (if x = right_of t p then rotate_left t p else t);
                   p1 = parent_of t1 x1;
                   g1 = parent_of t1 p1
               in fix_after_insertion_loop
                    (rotate_right (set_color (set_color t1 p1 BLACK) g1 RED) g1) x1))
         else
           (let y = left_of t g in
            if color_of t y = RED then
              fix_after_insertion_loop
                (set_color (set_color (set_color t p BLACK) y BLACK) g RED) g
            else
              (let x1 = (if x = left_of t p then p else x);
                   t1 = (if x = left_of t p then rotate_right t p else t);
                   p1 = parent_of t1 x1;
                   g1 = parent_of t1 p1
               in fix_after_insertion_loop
                    (rotate_left (set_color (set_color t1 p1 BLACK) g1 RED) g1) x1)))
      else Some t)"

declare fix_after_insertion_loop.simps [code]

definition fix_after_insertion ::
  "('k, 'v) FixedRedBlackTree \<Rightarrow> NodeIndex \<Rightarrow> ('k, 'v) FixedRedBlackTree option" where
  "fix_after_insertion t x =
     map_option (\<lambda>t'. set_color t' (root_index t') BLACK)
       (fix_after_insertion_loop (set_color t x RED) x)"

text \<open>
  Modelled from the spec (4.2), \<^verbatim>\<open>insert_new(parent_info, key, value)\<close>: "allocate a slot,
  link it as the left or right child per the descent outcome, color it RED, then restore
  invariants". \<^verbatim>\<open>fixed_map.hpp\<close> reads \<^verbatim>\<open>np.i\<close> after the call to position the returned
  iterator, so the call stores the allocated index there; the updated record is returned
  with the tree.
\<close>
definition insert_new_at ::
  "('k, 'v) FixedRedBlackTree \<Rightarrow> NodeIndexAndParentIndex \<Rightarrow> 'k \<Rightarrow> 'v
    \<Rightarrow> (error + ('k, 'v) FixedRedBlackTree \<times> NodeIndexAndParentIndex) option" where
  "insert_new_at t np k v =
     (case free_index t of
        None \<Rightarrow> Some (Inl CapacityExceeded)
      | Some n \<Rightarrow>
          (let t1 = emplace_at t n
                      \<lparr>node_key = k, node_value = v, parent_index = np_parent np,
                       left_index = NULL_INDEX, right_index = NULL_INDEX, node_color = RED\<rparr>;
               t2 = (if np_parent np = NULL_INDEX then t1\<lparr>root_index := n\<rparr>
                     else if np_is_left_child np then set_left t1 (np_parent np) n
                     else set_right t1 (np_parent np) n)
           in map_option (\<lambda>t'. Inr (t', np\<lparr>np_i := n\<rparr>)) (fix_after_insertion t2 n)))"

subsection \<open>Deletion\<close>

text \<open>
  Modelled from the spec (4.2): the double-black fix-up "walking upward: recolor or rotate
  based on sibling color and sibling's children's colors (four canonical cases), terminating
  at the root or at a red node absorbed into black".
\<close>
partial_function (option) fix_after_deletion_loop ::
  "('k, 'v) FixedRedBlackTree \<Rightarrow> NodeIndex \<Rightarrow> (('k, 'v) FixedRedBlackTree \<times> NodeIndex) option" where
  "fix_after_deletion_loop t x =
     (if x \<noteq> root_index t \<and> color_of t x = BLACK then
        (if x = left_of t (parent_of t x) then
           (let sib0 = right_of t (parent_of t x);
                t1 = (if color_of t sib0 = RED
                      then rotate_left (set_color (set_color t sib0 BLACK) (parent_of t x) RED)
                             (parent_of t x)
                      else t);
                sib = right_of t1 (parent_of t1 x)
            in if color_of t1 (left_of t1 sib) = BLACK \<and> color_of t1 (right_of t1 sib) = BLACK
               then fix_after_deletion_loop (set_color t1 sib RED) (parent_of t1 x)
               else
                 (let t2 = (if color_of t1 (right_of t1 sib) = BLACK
                            then rotate_right
                                   (set_color (set_color t1 (left_of t1 sib) BLACK) sib RED) sib
                            else t1);
                      sib2 = right_of t2 (parent_of t2 x);
                      t3 = set_color t2 sib2 (color_of t2 (parent_of t2 x));
                      t4 = set_color t3 (parent_of t3 x) BLACK;
                      t5 = set_color t4 (right_of t4 sib2) BLACK;
                      t6 = rotate_left t5 (parent_of t5 x)
                  in fix_after_deletion_loop t6 (root_index t6)))
         else
           (let sib0 = left_of t (parent_of t x);
                t1 = (if color_of t sib0 = RED
                      then rotate_right (set_color (set_color t sib0 BLACK) (parent_of t x) RED)
                             (parent_of t x)
                      else t);
                sib = left_of t1 (parent_of t1 x)
            in if color_of t1 (right_of t1 sib) = BLACK \<and> color_of t1 (left_of t1 sib) = BLACK
               then fix_after_deletion_loop (set_color t1 sib RED) (parent_of t1 x)
               else
                 (let t2 = (if color_of t1 (left_of t1 sib) = BLACK
                            then rotate_left
                                   (set_color (set_color t1 (right_of t1 sib) BLACK) sib RED) sib
                            else t1);
                      sib2 = left_of t2 (parent_of t2 x);
                      t3 = set_color t2 sib2 (color_of t2 (parent_of t2 x));
                      t4 = set_color t3 (parent_of t3 x) BLACK;
                      t5 = set_color t4 (left_of t4 sib2) BLACK;
                      t6 = rotate_right t5 (parent_of t5 x)
                  in fix_after_deletion_loop t6 (root_index t6))))
      else Some (t, x))"

declare fix_after_deletion_loop.simps [code]

definition fix_after_deletion ::
  "('k, 'v) FixedRedBlackTree \<Rightarrow> NodeIndex \<Rightarrow> ('k, 'v) FixedRedBlackTree option" where
  "fix_after_deletion t x =
     map_option (\<lambda>(t', x'). set_color t' x' BLACK) (fix_after_deletion_loop t x)"

text \<open>Splicing out a node with at most one child (second half of \<^verbatim>\<open>delete_at\<close>).\<close>
definition splice_out ::
  "('k, 'v) FixedRedBlackTree \<Rightarrow> NodeIndex \<Rightarrow> ('k, 'v) FixedRedBlackTree option" where
  "splice_out t p =
     (let replacement = (if left_of t p \<noteq> NULL_INDEX then left_of t p else right_of t p) in
      if replacement \<noteq> NULL_INDEX then
        (let t1 = set_parent t replacement (parent_of t p);
             t2 = (if parent_of t p = NULL_INDEX then t1\<lparr>root_index := replacement\<rparr>
                   else if p = left_of t (parent_of t p) then set_left t1 (parent_of t p) replacement
                   else set_right t1 (parent_of t p) replacement);
             was_black = (color_of t p = BLACK);
             t3 = release t2 p
         in if was_black then fix_after_deletion t3 replacement else Some t3)
      else if parent_of t p = NULL_INDEX then
        Some ((release t p)\<lparr>root_index := NULL_INDEX\<rparr>)
      else
        (case (if color_of t p = BLACK then fix_after_deletion t p else Some t) of
           None \<Rightarrow> None
         | Some t1 \<Rightarrow>
             (let t2 = (if parent_of t1 p \<noteq> NULL_INDEX then
                          (if p = left_of t1 (parent_of t1 p)
                           then set_left t1 (parent_of t1 p) NULL_INDEX
                           else if p = right_of t1 (parent_of t1 p)
                           then set_right t1 (parent_of t1 p) NULL_INDEX
                           else t1)
                        else t1)
              in Some (release t2 p))))"

text \<open>
  Modelled from the spec (4.2), \<^verbatim>\<open>delete_at(index) \<rightarrow> successor_index\<close>: "if the target has
  two children, copy the in-order successor's key/value into it, then delete the successor
  (which has \<le>1 child); otherwise splice the target out directly. [...] Release the vacated
  slot afterward. Returns the index that should replace an iterator previously pointing at
  the deleted entry."
\<close>
definition delete_at_and_return_successor ::
  "('k, 'v) FixedRedBlackTree \<Rightarrow> NodeIndex \<Rightarrow> (('k, 'v) FixedRedBlackTree \<times> NodeIndex) option" where
  "delete_at_and_return_successor t i =
     (case index_of_successor_at t i of
        None \<Rightarrow> None
      | Some s \<Rightarrow>
          if left_of t i \<noteq> NULL_INDEX \<and> right_of t i \<noteq> NULL_INDEX then
            (case node_at t s of
               None \<Rightarrow> None
             | Some sn \<Rightarrow>
                 map_option (\<lambda>t'. (t', i))
                   (splice_out (set_entry t i (node_key sn) (node_value sn)) s))
          else map_option (\<lambda>t'. (t', s)) (splice_out t i))"

text \<open>Modelled from the spec (4.2, 6): \<^verbatim>\<open>delete_node(key)\<close>, "count removed (0 or 1)".\<close>
definition delete_node ::
  "('k, 'v) FixedRedBlackTree \<Rightarrow> 'k \<Rightarrow> (('k, 'v) FixedRedBlackTree \<times> nat) option" where
  "delete_node t k =
     (case index_of_node_or_null t k of
        None \<Rightarrow> None
      | Some i \<Rightarrow>
          if \<not> contains_at t i then Some (t, 0)
          else map_option (\<lambda>(t', s). (t', 1)) (delete_at_and_return_successor t i))"

text \<open>
  Modelled from the spec (4.2), \<^verbatim>\<open>delete_range(from, to) \<rightarrow> successor_index\<close>: "repeated
  single deletions starting at \<open>from\<close> up to (excluding) \<open>to\<close>; indices must be re-resolved
  after each deletion". The end of the range is remembered by its key and looked up again
  after every deletion.
\<close>
partial_function (option) delete_range_loop ::
  "('k, 'v) FixedRedBlackTree \<Rightarrow> NodeIndex \<Rightarrow> 'k option
    \<Rightarrow> (('k, 'v) FixedRedBlackTree \<times> NodeIndex) option" where
  "delete_range_loop t from to_key =
     (case (case to_key of None \<Rightarrow> Some NULL_INDEX | Some k \<Rightarrow> index_of_node_or_null t k) of
        None \<Rightarrow> None
      | Some to \<Rightarrow>
          if from = to \<or> \<not> contains_at t from then Some (t, to)
          else
            (case delete_at_and_return_successor t from of
               None \<Rightarrow> None
             | Some (t', s) \<Rightarrow> delete_range_loop t' s to_key))"

declare delete_range_loop.simps [code]

definition delete_range_and_return_successor ::
  "('k, 'v) FixedRedBlackTree \<Rightarrow> NodeIndex \<Rightarrow> NodeIndex
    \<Rightarrow> (('k, 'v) FixedRedBlackTree \<times> NodeIndex) option" where
  "delete_range_and_return_successor t from to =
     delete_range_loop t from (map_option node_key (node_at t to))"

section \<open>Collaborators of the map\<close>

text \<open>A call site, \<^verbatim>\<open>std::experimental::source_location\<close>.\<close>
record source_location =
  file_name :: string
  line :: nat

text \<open>
  What a call of an out-of-range policy does (\<^verbatim>\<open>FixedMapChecking\<close>): it either ends the
  process, with the diagnostics it has written about the access (key, size, call site) if
  any, or it returns to the caller.
\<close>
datatype 'k policy_effect =
  ProcessAborted "('k \<times> nat \<times> source_location) option"
  | PolicyReturned

type_synonym 'k CheckingType = "'k \<Rightarrow> nat \<Rightarrow> source_location \<Rightarrow> 'k policy_effect"

text \<open>\<^verbatim>\<open>AbortChecking::out_of_range\<close>: all three parameters are unnamed and unused; the body
  is \<^verbatim>\<open>std::abort()\<close>.\<close>
definition AbortChecking_out_of_range :: "'k CheckingType" where
  "AbortChecking_out_of_range k sz loc = ProcessAborted None"

text \<open>
  Modelled from the spec: \<^verbatim>\<open>preconditions::test\<close> (\<^verbatim>\<open>preconditions.hpp\<close>, "a basic
  precondition-checking helper", not part of the sources at hand) tells whether the
  precondition it is given is violated.
\<close>
definition preconditions_test :: "bool \<Rightarrow> bool" where
  "preconditions_test condition = (\<not> condition)"

section \<open>FixedMap\<close>

type_synonym addr = nat

text \<open>The map owns one tree, the member \<^verbatim>\<open>tree_\<close>.\<close>
record ('k, 'v) FixedMap =
  map_tree :: "('k, 'v) FixedRedBlackTree"

text \<open>
  \<^verbatim>\<open>PairProvider\<close> (members \<^verbatim>\<open>tree_\<close>, \<^verbatim>\<open>current_index_\<close>, \<^verbatim>\<open>storage_\<close>): a pointer to the tree (\<open>None\<close> is \<^verbatim>\<open>nullptr\<close>), the current index and the
  cached entry view. The view holds pointers to the key and value of a slot; slots never
  move, so it is modelled by the slot index (\<open>None\<close> for the view of two null pointers).
  The functions that follow a provider's pointer take the tree it points to as an argument.
\<close>
record PairProvider =
  provider_tree :: "addr option"
  current_index :: NodeIndex
  storage :: "NodeIndex option"

definition update_storage :: "('k, 'v) FixedRedBlackTree \<Rightarrow> PairProvider \<Rightarrow> PairProvider" where
  "update_storage t p =
     (if current_index p < CAPACITY t \<and> contains_at t (current_index p)
      then p\<lparr>storage := Some (current_index p)\<rparr>
      else p)"

definition PairProvider_ctor ::
  "addr option \<Rightarrow> ('k, 'v) FixedRedBlackTree \<Rightarrow> NodeIndex \<Rightarrow> PairProvider" where
  "PairProvider_ctor tree t start =
     (let p = \<lparr>provider_tree = tree, current_index = start, storage = None\<rparr>
      in if tree \<noteq> None then update_storage t p else p)"

definition replace_null_index_with_capacity_for_end_iterator :: "nat \<Rightarrow> NodeIndex \<Rightarrow> NodeIndex" where
  "replace_null_index_with_capacity_for_end_iterator capacity i =
     (if i = NULL_INDEX then capacity else i)"

definition advance :: "('k, 'v) FixedRedBlackTree \<Rightarrow> PairProvider \<Rightarrow> PairProvider option" where
  "advance t p =
     (if current_index p = NULL_INDEX then
        map_option (\<lambda>i. update_storage t (p\<lparr>current_index := i\<rparr>)) (index_of_min_at t)
      else
        map_option
          (\<lambda>i. update_storage t
                 (p\<lparr>current_index :=
                      replace_null_index_with_capacity_for_end_iterator (CAPACITY t) i\<rparr>))
          (index_of_successor_at t (current_index p)))"

definition recede :: "('k, 'v) FixedRedBlackTree \<Rightarrow> PairProvider \<Rightarrow> PairProvider option" where
  "recede t p =
     (if current_index p = CAPACITY t then
        map_option (\<lambda>i. update_storage t (p\<lparr>current_index := i\<rparr>)) (index_of_max_at t)
      else
        map_option (\<lambda>i. update_storage t (p\<lparr>current_index := i\<rparr>))
          (index_of_predecessor_at t (current_index p)))"

text \<open>\<^verbatim>\<open>PairProvider::get\<close>: the cached view, read through its pointers.\<close>
definition get :: "('k, 'v) FixedRedBlackTree \<Rightarrow> PairProvider \<Rightarrow> ('k \<times> 'v) option" where
  "get t p =
     (case storage p of
        None \<Rightarrow> None
      | Some i \<Rightarrow> map_option (\<lambda>n. (node_key n, node_value n)) (node_at t i))"

definition provider_equal :: "PairProvider \<Rightarrow> PairProvider \<Rightarrow> bool" where
  "provider_equal a b =
     (provider_tree a = provider_tree b \<and> current_index a = current_index b)"

subsection \<open>Iterator adapter\<close>

datatype IteratorDirection = FORWARD | REVERSE

text \<open>
  Modelled from the spec: \<^verbatim>\<open>BidirectionalIterator\<close> (\<^verbatim>\<open>bidirectional_iterator.hpp\<close>, not part
  of the sources at hand) is the "generic cursor turning a current position + advance/recede
  provider into standard forward/reverse bidirectional iterators". A forward iterator keeps
  the provider it is given; a reverse iterator steps its provider back once when it is built,
  so that \<^verbatim>\<open>rbegin()\<close>, built from \<^verbatim>\<open>CAPACITY\<close>, stands on the last entry and \<^verbatim>\<open>rend()\<close>,
  built from the index of the minimum, stands on the null index ("the rend sentinel is the
  null index"). Incrementing moves the provider forward for a forward iterator and backward
  for a reverse one.
\<close>
record Iterator =
  direction :: IteratorDirection
  reference_provider :: PairProvider

definition forward_iterator :: "PairProvider \<Rightarrow> Iterator" where
  "forward_iterator p = \<lparr>direction = FORWARD, reference_provider = p\<rparr>"

definition reverse_iterator :: "('k, 'v) FixedRedBlackTree \<Rightarrow> PairProvider \<Rightarrow> Iterator option" where
  "reverse_iterator t p =
     map_option (\<lambda>p'. \<lparr>direction = REVERSE, reference_provider = p'\<rparr>) (recede t p)"

definition increment :: "('k, 'v) FixedRedBlackTree \<Rightarrow> Iterator \<Rightarrow> Iterator option" where
  "increment t it =
     map_option (\<lambda>p. it\<lparr>reference_provider := p\<rparr>)
       (case direction it of
          FORWARD \<Rightarrow> advance t (reference_provider it)
        | REVERSE \<Rightarrow> recede t (reference_provider it))"

definition decrement :: "('k, 'v) FixedRedBlackTree \<Rightarrow> Iterator \<Rightarrow> Iterator option" where
  "decrement t it =
     map_option (\<lambda>p. it\<lparr>reference_provider := p\<rparr>)
       (case direction it of
          FORWARD \<Rightarrow> recede t (reference_provider it)
        | REVERSE \<Rightarrow> advance t (reference_provider it))"

definition dereference :: "('k, 'v) FixedRedBlackTree \<Rightarrow> Iterator \<Rightarrow> ('k \<times> 'v) option" where
  "dereference t it = get t (reference_provider it)"

definition iterator_equal :: "Iterator \<Rightarrow> Iterator \<Rightarrow> bool" where
  "iterator_equal a b = provider_equal (reference_provider a) (reference_provider b)"

subsection \<open>Map operations\<close>

text \<open>Every operation that builds an iterator stores the address of the map's tree in it;
  that address is the argument \<open>this\<close>.\<close>

definition max_size :: "('k, 'v) FixedMap \<Rightarrow> nat" where
  "max_size m = CAPACITY (map_tree m)"

text \<open>
  Modelled from the spec: the map "owns exactly one tree by value", the tree "owns the slot
  arena", a "fixed backing array" of as many slots as the declared capacity, and a node
  holds "key, value, parent index, left-child index, right-child index, a color bit". The
  size of an object in bytes is a value of \<^verbatim>\<open>std::size_t\<close>, so a map of a declared capacity
  exists only when the bytes of its slots can be counted in \<^verbatim>\<open>std::size_t\<close>; a slot has at
  least the bytes of its three indices (8 each). The constructor gives no map for a
  capacity that cannot be instantiated.
\<close>
definition SIZE_MAX :: nat where
  "SIZE_MAX = 18446744073709551615"

definition min_slot_bytes :: nat where
  "min_slot_bytes = 3 * 8"

definition instantiable :: "nat \<Rightarrow> bool" where
  "instantiable capacity = (capacity * min_slot_bytes \<le> SIZE_MAX)"

definition new_map :: "nat \<Rightarrow> ('k \<Rightarrow> 'k \<Rightarrow> bool) \<Rightarrow> ('k, 'v) FixedMap option" where
  "new_map capacity cmp =
     (if instantiable capacity then Some \<lparr>map_tree = new_tree capacity cmp\<rparr> else None)"

definition create_iterator :: "addr \<Rightarrow> ('k, 'v) FixedMap \<Rightarrow> NodeIndex \<Rightarrow> Iterator" where
  "create_iterator this m start_index =
     (let i = replace_null_index_with_capacity_for_end_iterator (max_size m) start_index
      in forward_iterator (PairProvider_ctor (Some this) (map_tree m) i))"

definition create_reverse_iterator ::
  "addr \<Rightarrow> ('k, 'v) FixedMap \<Rightarrow> NodeIndex \<Rightarrow> Iterator option" where
  "create_reverse_iterator this m start_index =
     reverse_iterator (map_tree m) (PairProvider_ctor (Some this) (map_tree m) start_index)"

datatype ('k, 'v) at_result =
  Reference 'v
  | Aborted "('k \<times> nat \<times> source_location) option"
  | OutOfBoundsRead

definition size_fm :: "('k, 'v) FixedMap \<Rightarrow> nat" where
  "size_fm m = tree_size (map_tree m)"

definition empty_fm :: "('k, 'v) FixedMap \<Rightarrow> bool" where
  "empty_fm m = tree_empty (map_tree m)"

definition full :: "('k, 'v) FixedMap \<Rightarrow> bool" where
  "full m = tree_full (map_tree m)"

definition clear :: "('k, 'v) FixedMap \<Rightarrow> ('k, 'v) FixedMap" where
  "clear m = m\<lparr>map_tree := tree_clear (map_tree m)\<rparr>"

text \<open>
  \<^verbatim>\<open>at\<close>: the result is paired with the list of calls made to the out-of-range policy, each
  with its three arguments. When the policy returns, the source goes on to read the node at
  the null index.
\<close>
definition at ::
  "'k CheckingType \<Rightarrow> ('k, 'v) FixedMap \<Rightarrow> 'k \<Rightarrow> source_location
    \<Rightarrow> (('k \<times> nat \<times> source_location) list \<times> ('k, 'v) at_result) option" where
  "at out_of_range m k loc =
     (case index_of_node_or_null (map_tree m) k of
        None \<Rightarrow> None
      | Some i \<Rightarrow>
          if preconditions_test (contains_at (map_tree m) i) then
            (case out_of_range k (size_fm m) loc of
               ProcessAborted d \<Rightarrow> Some ([(k, size_fm m, loc)], Aborted d)
             | PolicyReturned \<Rightarrow>
                 Some ([(k, size_fm m, loc)],
                       (case node_at (map_tree m) i of
                          None \<Rightarrow> OutOfBoundsRead
                        | Some n \<Rightarrow> Reference (node_value n))))
          else
            Some ([],
                  (case node_at (map_tree m) i of
                     None \<Rightarrow> OutOfBoundsRead
                   | Some n \<Rightarrow> Reference (node_value n))))"

definition cbegin :: "addr \<Rightarrow> ('k, 'v) FixedMap \<Rightarrow> Iterator option" where
  "cbegin this m = map_option (create_iterator this m) (index_of_min_at (map_tree m))"

definition cend :: "addr \<Rightarrow> ('k, 'v) FixedMap \<Rightarrow> Iterator" where
  "cend this m = create_iterator this m (max_size m)"

definition begin_it :: "addr \<Rightarrow> ('k, 'v) FixedMap \<Rightarrow> Iterator option" where
  "begin_it this m = map_option (create_iterator this m) (index_of_min_at (map_tree m))"

definition end_it :: "addr \<Rightarrow> ('k, 'v) FixedMap \<Rightarrow> Iterator" where
  "end_it this m = create_iterator this m (max_size m)"

definition rbegin :: "addr \<Rightarrow> ('k, 'v) FixedMap \<Rightarrow> Iterator option" where
  "rbegin this m = create_reverse_iterator this m (max_size m)"

definition rend :: "addr \<Rightarrow> ('k, 'v) FixedMap \<Rightarrow> Iterator option" where
  "rend this m =
     (case index_of_min_at (map_tree m) of
        None \<Rightarrow> None
      | Some i \<Rightarrow> create_reverse_iterator this m i)"

text \<open>The mutators return the map after the call next to the value the source returns.\<close>

definition insert_fm ::
  "addr \<Rightarrow> ('k, 'v) FixedMap \<Rightarrow> 'k \<times> 'v
    \<Rightarrow> (error + ('k, 'v) FixedMap \<times> Iterator \<times> bool) option" where
  "insert_fm this m entry =
     (case index_of_node_with_parent (map_tree m) (fst entry) of
        None \<Rightarrow> None
      | Some np \<Rightarrow>
          if contains_at (map_tree m) (np_i np) then
            Some (Inr (m, create_iterator this m (np_i np), False))
          else
            (case insert_new_at (map_tree m) np (fst entry) (snd entry) of
               None \<Rightarrow> None
             | Some (Inl e) \<Rightarrow> Some (Inl e)
             | Some (Inr (t', np')) \<Rightarrow>
                 Some (Inr (m\<lparr>map_tree := t'\<rparr>,
                            create_iterator this (m\<lparr>map_tree := t'\<rparr>) (np_i np'), True))))"

fun insert_range ::
  "addr \<Rightarrow> ('k, 'v) FixedMap \<Rightarrow> ('k \<times> 'v) list \<Rightarrow> (error + ('k, 'v) FixedMap) option" where
  "insert_range this m [] = Some (Inr m)"
| "insert_range this m (entry # rest) =
     (case insert_fm this m entry of
        None \<Rightarrow> None
      | Some (Inl e) \<Rightarrow> Some (Inl e)
      | Some (Inr (m', _)) \<Rightarrow> insert_range this m' rest)"

definition insert_or_assign ::
  "addr \<Rightarrow> ('k, 'v) FixedMap \<Rightarrow> 'k \<Rightarrow> 'v
    \<Rightarrow> (error + ('k, 'v) FixedMap \<times> Iterator \<times> bool) option" where
  "insert_or_assign this m k obj =
     (case index_of_node_with_parent (map_tree m) k of
        None \<Rightarrow> None
      | Some np \<Rightarrow>
          if contains_at (map_tree m) (np_i np) then
            (let m' = m\<lparr>map_tree := set_value (map_tree m) (np_i np) obj\<rparr>
             in Some (Inr (m', create_iterator this m' (np_i np), False)))
          else
            (case insert_new_at (map_tree m) np k obj of
               None \<Rightarrow> None
             | Some (Inl e) \<Rightarrow> Some (Inl e)
             | Some (Inr (t', np')) \<Rightarrow>
                 Some (Inr (m\<lparr>map_tree := t'\<rparr>,
                            create_iterator this (m\<lparr>map_tree := t'\<rparr>) (np_i np'), True))))"

definition try_emplace ::
  "addr \<Rightarrow> ('k, 'v) FixedMap \<Rightarrow> 'k \<Rightarrow> 'v
    \<Rightarrow> (error + ('k, 'v) FixedMap \<times> Iterator \<times> bool) option" where
  "try_emplace this m k args =
     (case index_of_node_with_parent (map_tree m) k of
        None \<Rightarrow> None
      | Some np \<Rightarrow>
          if contains_at (map_tree m) (np_i np) then
            Some (Inr (m, create_iterator this m (np_i np), False))
          else
            (case insert_new_at (map_tree m) np k args of
               None \<Rightarrow> None
             | Some (Inl e) \<Rightarrow> Some (Inl e)
             | Some (Inr (t', np')) \<Rightarrow>
                 Some (Inr (m\<lparr>map_tree := t'\<rparr>,
                            create_iterator this (m\<lparr>map_tree := t'\<rparr>) (np_i np'), True))))"

definition emplace ::
  "addr \<Rightarrow> ('k, 'v) FixedMap \<Rightarrow> 'k \<times> 'v
    \<Rightarrow> (error + ('k, 'v) FixedMap \<times> Iterator \<times> bool) option" where
  "emplace this m as_pair = try_emplace this m (fst as_pair) (snd as_pair)"

text \<open>\<^verbatim>\<open>erase(const K&)\<close>.\<close>
definition erase :: "('k, 'v) FixedMap \<Rightarrow> 'k \<Rightarrow> (('k, 'v) FixedMap \<times> nat) option" where
  "erase m k = map_option (\<lambda>(t', n). (m\<lparr>map_tree := t'\<rparr>, n)) (delete_node (map_tree m) k)"

text \<open>\<^verbatim>\<open>erase(iterator pos)\<close>; a failing \<^verbatim>\<open>assert\<close> is the result \<open>None\<close> in place of an
  iterator. The key \<^verbatim>\<open>pos->first()\<close> is read through the pointers of the iterator, in the
  tree \<open>pos_tree\<close> the iterator points into, which is the tree of this map only for an
  iterator of this map.\<close>
definition erase_pos ::
  "addr \<Rightarrow> ('k, 'v) FixedMap \<Rightarrow> ('k, 'v) FixedRedBlackTree \<Rightarrow> Iterator
    \<Rightarrow> (('k, 'v) FixedMap \<times> Iterator option) option" where
  "erase_pos this m pos_tree pos =
     (if iterator_equal pos (end_it this m) then Some (m, None)
      else
        (case dereference pos_tree pos of
           None \<Rightarrow> Some (m, None)
         | Some entry \<Rightarrow>
             (case index_of_node_or_null (map_tree m) (fst entry) of
                None \<Rightarrow> None
              | Some i \<Rightarrow>
                  if \<not> contains_at (map_tree m) i then Some (m, None)
                  else
                    map_option
                      (\<lambda>(t', s). (m\<lparr>map_tree := t'\<rparr>,
                                  Some (create_iterator this (m\<lparr>map_tree := t'\<rparr>) s)))
                      (delete_at_and_return_successor (map_tree m) i))))"

definition find_fm :: "addr \<Rightarrow> ('k, 'v) FixedMap \<Rightarrow> 'k \<Rightarrow> Iterator option" where
  "find_fm this m k =
     (case index_of_node_or_null (map_tree m) k of
        None \<Rightarrow> None
      | Some i \<Rightarrow>
          if \<not> contains_at (map_tree m) i then Some (end_it this m)
          else Some (create_iterator this m i))"

definition contains :: "('k, 'v) FixedMap \<Rightarrow> 'k \<Rightarrow> bool option" where
  "contains m k = contains_node (map_tree m) k"

definition count_fm :: "('k, 'v) FixedMap \<Rightarrow> 'k \<Rightarrow> nat option" where
  "count_fm m k = map_option (\<lambda>b. if b then 1 else 0) (contains m k)"

section \<open>Shape of the tree and the red-black invariants\<close>

text \<open>
  The shape of the tree below index \<open>i\<close>, as a binary tree of slot indices, read off the child
  links. The first argument bounds the depth of the unfolding; the capacity suffices for every
  tree whose links are consistent (lemma \<open>tree_of_repr\<close> below).
\<close>
fun tree_of :: "nat \<Rightarrow> ('k, 'v) FixedRedBlackTree \<Rightarrow> NodeIndex \<Rightarrow> NodeIndex tree" where
  "tree_of 0 t i = Leaf"
| "tree_of (Suc n) t i =
     (case node_at t i of
        None \<Rightarrow> Leaf
      | Some nd \<Rightarrow> Node (tree_of n t (left_index nd)) i (tree_of n t (right_index nd)))"

text \<open>\<open>repr t p i T\<close>: the links of \<open>t\<close> below index \<open>i\<close>, whose parent is \<open>p\<close>, form exactly
  the tree \<open>T\<close>, every node of it in an occupied slot.\<close>
fun repr :: "('k, 'v) FixedRedBlackTree \<Rightarrow> NodeIndex \<Rightarrow> NodeIndex \<Rightarrow> NodeIndex tree \<Rightarrow> bool" where
  "repr t p i Leaf = (i = NULL_INDEX)"
| "repr t p i (Node l j r) =
     (i = j \<and> j \<noteq> NULL_INDEX \<and> contains_at t j \<and> parent_of t j = p
      \<and> repr t j (left_of t j) l \<and> repr t j (right_of t j) r)"

definition shape :: "('k, 'v) FixedRedBlackTree \<Rightarrow> NodeIndex tree" where
  "shape t = tree_of (CAPACITY t) t (root_index t)"

definition key_of :: "('k, 'v) FixedRedBlackTree \<Rightarrow> NodeIndex \<Rightarrow> 'k" where
  "key_of t i = node_key (the (node_at t i))"

definition value_of :: "('k, 'v) FixedRedBlackTree \<Rightarrow> NodeIndex \<Rightarrow> 'v" where
  "value_of t i = node_value (the (node_at t i))"

text \<open>The occupied slots are exactly the nodes reachable from the root, each once, and the
  null index is no slot.\<close>
definition well_linked :: "('k, 'v) FixedRedBlackTree \<Rightarrow> bool" where
  "well_linked t =
     (CAPACITY t < NULL_INDEX
      \<and> repr t NULL_INDEX (root_index t) (shape t)
      \<and> distinct (inorder (shape t))
      \<and> list_all (\<lambda>i. contains_at t i \<longrightarrow> i \<in> set (inorder (shape t))) [0..<CAPACITY t])"

text \<open>(a) binary-search-tree order consistent with the comparator.\<close>
definition bst_order :: "('k, 'v) FixedRedBlackTree \<Rightarrow> bool" where
  "bst_order t = sorted_wrt (comparator t) (map (key_of t) (inorder (shape t)))"

text \<open>(b) the root is black.\<close>
definition root_black :: "('k, 'v) FixedRedBlackTree \<Rightarrow> bool" where
  "root_black t = (color_of t (root_index t) = BLACK)"

text \<open>(c) no red node has a red child.\<close>
definition no_red_red :: "('k, 'v) FixedRedBlackTree \<Rightarrow> bool" where
  "no_red_red t =
     list_all (\<lambda>i. color_of t i = RED \<longrightarrow>
                 color_of t (left_of t i) = BLACK \<and> color_of t (right_of t i) = BLACK)
       (inorder (shape t))"

text \<open>(d) every root-to-null path has the same number of black nodes.\<close>
fun black_height :: "('k, 'v) FixedRedBlackTree \<Rightarrow> NodeIndex tree \<Rightarrow> nat" where
  "black_height t Leaf = 0"
| "black_height t (Node l i r) =
     black_height t l + (if color_of t i = BLACK then 1 else 0)"

fun equal_black_paths :: "('k, 'v) FixedRedBlackTree \<Rightarrow> NodeIndex tree \<Rightarrow> bool" where
  "equal_black_paths t Leaf = True"
| "equal_black_paths t (Node l i r) =
     (black_height t l = black_height t r \<and> equal_black_paths t l \<and> equal_black_paths t r)"

definition red_black_invariants :: "('k, 'v) FixedRedBlackTree \<Rightarrow> bool" where
  "red_black_invariants t =
     (well_linked t \<and> bst_order t \<and> root_black t \<and> no_red_red t
      \<and> equal_black_paths t (shape t))"

section \<open>Reading and writing slots\<close>

lemma node_at_update_node:
  "node_at (update_node t i f) j = (if j = i then map_option f (node_at t i) else node_at t j)"
  by (auto simp: node_at_def update_node_def split: option.splits)

lemma root_index_update_node [simp]: "root_index (update_node t i f) = root_index t"
  by (simp add: update_node_def split: option.splits)

lemma comparator_update_node [simp]: "comparator (update_node t i f) = comparator t"
  by (simp add: update_node_def split: option.splits)

lemma CAPACITY_update_node [simp]: "CAPACITY (update_node t i f) = CAPACITY t"
  by (simp add: update_node_def CAPACITY_def split: option.splits)

lemma node_at_root_update [simp]: "node_at (t\<lparr>root_index := r\<rparr>) j = node_at t j"
  by (simp add: node_at_def)

lemma CAPACITY_root_update [simp]: "CAPACITY (t\<lparr>root_index := r\<rparr>) = CAPACITY t"
  by (simp add: CAPACITY_def)

lemmas setter_defs = set_left_def set_right_def set_parent_def set_color_def set_entry_def set_value_def
lemmas getter_defs = contains_at_def left_of_def right_of_def parent_of_def color_of_def key_of_def value_of_def

lemma root_index_setters [simp]:
  "root_index (set_left t i c) = root_index t"
  "root_index (set_right t i c) = root_index t"
  "root_index (set_parent t i c) = root_index t"
  "root_index (set_color t i col) = root_index t"
  "root_index (set_entry t i k v) = root_index t"
  "root_index (set_value t i v) = root_index t"
  by (simp_all add: setter_defs)

lemma comparator_setters [simp]:
  "comparator (set_left t i c) = comparator t"
  "comparator (set_right t i c) = comparator t"
  "comparator (set_parent t i c) = comparator t"
  "comparator (set_color t i col) = comparator t"
  "comparator (set_entry t i k v) = comparator t"
  "comparator (set_value t i v) = comparator t"
  by (simp_all add: setter_defs)

lemma CAPACITY_setters [simp]:
  "CAPACITY (set_left t i c) = CAPACITY t"
  "CAPACITY (set_right t i c) = CAPACITY t"
  "CAPACITY (set_parent t i c) = CAPACITY t"
  "CAPACITY (set_color t i col) = CAPACITY t"
  "CAPACITY (set_entry t i k v) = CAPACITY t"
  "CAPACITY (set_value t i v) = CAPACITY t"
  by (simp_all add: setter_defs)

lemma getters_root_update [simp]:
  "contains_at (t\<lparr>root_index := r\<rparr>) j = contains_at t j"
  "left_of (t\<lparr>root_index := r\<rparr>) j = left_of t j"
  "right_of (t\<lparr>root_index := r\<rparr>) j = right_of t j"
  "parent_of (t\<lparr>root_index := r\<rparr>) j = parent_of t j"
  "color_of (t\<lparr>root_index := r\<rparr>) j = color_of t j"
  "key_of (t\<lparr>root_index := r\<rparr>) j = key_of t j"
  "value_of (t\<lparr>root_index := r\<rparr>) j = value_of t j"
  by (simp_all add: getter_defs)

lemma contains_at_setters [simp]:
  "contains_at (set_left t i c) j = contains_at t j"
  "contains_at (set_right t i c) j = contains_at t j"
  "contains_at (set_parent t i c) j = contains_at t j"
  "contains_at (set_color t i col) j = contains_at t j"
  "contains_at (set_entry t i k v) j = contains_at t j"
  "contains_at (set_value t i v) j = contains_at t j"
  by (auto simp: setter_defs contains_at_def node_at_update_node)

lemma left_of_setters [simp]:
  "left_of (set_left t i c) j = (if j = i \<and> contains_at t i then c else left_of t j)"
  "left_of (set_right t i c) j = left_of t j"
  "left_of (set_parent t i c) j = left_of t j"
  "left_of (set_color t i col) j = left_of t j"
  "left_of (set_entry t i k v) j = left_of t j"
  "left_of (set_value t i v) j = left_of t j"
  by (auto simp: setter_defs getter_defs node_at_update_node split: option.splits)

lemma right_of_setters [simp]:
  "right_of (set_left t i c) j = right_of t j"
  "right_of (set_right t i c) j = (if j = i \<and> contains_at t i then c else right_of t j)"
  "right_of (set_parent t i c) j = right_of t j"
  "right_of (set_color t i col) j = right_of t j"
  "right_of (set_entry t i k v) j = right_of t j"
  "right_of (set_value t i v) j = right_of t j"
  by (auto simp: setter_defs getter_defs node_at_update_node split: option.splits)

lemma parent_of_setters [simp]:
  "parent_of (set_left t i c) j = parent_of t j"
  "parent_of (set_right t i c) j = parent_of t j"
  "parent_of (set_parent t i c) j = (if j = i \<and> contains_at t i then c else parent_of t j)"
  "parent_of (set_color t i col) j = parent_of t j"
  "parent_of (set_entry t i k v) j = parent_of t j"
  "parent_of (set_value t i v) j = parent_of t j"
  by (auto simp: setter_defs getter_defs node_at_update_node split: option.splits)

lemma color_of_setters [simp]:
  "color_of (set_left t i c) j = color_of t j"
  "color_of (set_right t i c) j = color_of t j"
  "color_of (set_parent t i c) j = color_of t j"
  "color_of (set_color t i col) j = (if j = i \<and> contains_at t i then col else color_of t j)"
  "color_of (set_entry t i k v) j = color_of t j"
  "color_of (set_value t i v) j = color_of t j"
  by (auto simp: setter_defs getter_defs node_at_update_node split: option.splits)

lemma key_of_setters [simp]:
  "key_of (set_left t i c) j = key_of t j"
  "key_of (set_right t i c) j = key_of t j"
  "key_of (set_parent t i c) j = key_of t j"
  "key_of (set_color t i col) j = key_of t j"
  "key_of (set_entry t i k v) j = (if j = i \<and> contains_at t i then k else key_of t j)"
  "key_of (set_value t i v) j = key_of t j"
  by (cases "node_at t i"; auto simp: setter_defs getter_defs node_at_update_node)+

lemma value_of_setters [simp]:
  "value_of (set_left t i c) j = value_of t j"
  "value_of (set_right t i c) j = value_of t j"
  "value_of (set_parent t i c) j = value_of t j"
  "value_of (set_color t i col) j = value_of t j"
  "value_of (set_entry t i k v) j = (if j = i \<and> contains_at t i then v else value_of t j)"
  "value_of (set_value t i v) j = (if j = i \<and> contains_at t i then v else value_of t j)"
  by (cases "node_at t i"; auto simp: setter_defs getter_defs node_at_update_node)+

lemma getters_absent [simp]:
  "\<not> contains_at t i \<Longrightarrow> left_of t i = NULL_INDEX"
  "\<not> contains_at t i \<Longrightarrow> right_of t i = NULL_INDEX"
  "\<not> contains_at t i \<Longrightarrow> parent_of t i = NULL_INDEX"
  "\<not> contains_at t i \<Longrightarrow> color_of t i = BLACK"
  by (simp_all add: getter_defs)

lemma Color_not_RED [simp]: "(c \<noteq> RED) = (c = BLACK)"
  by (cases c) auto

lemma Color_not_BLACK [simp]: "(c \<noteq> BLACK) = (c = RED)"
  by (cases c) auto

lemma red_contains: "color_of t i = RED \<Longrightarrow> contains_at t i"
  by (auto simp: getter_defs split: option.splits)

lemma tree_size_update_node [simp]: "tree_size (update_node t i f) = tree_size t"
proof (cases "node_at t i")
  case None
  then show ?thesis by (simp add: update_node_def)
next
  case (Some n)
  then have i: "i < length (slots t)" "slots t ! i = Some n"
    by (auto simp: node_at_def split: if_splits)
  have "map (\<lambda>s. s \<noteq> None) ((slots t)[i := Some (f n)]) = map (\<lambda>s. s \<noteq> None) (slots t)"
    using i by (auto simp: list_eq_iff_nth_eq nth_list_update)
  then have "length (filter id (map (\<lambda>s. s \<noteq> None) ((slots t)[i := Some (f n)])))
           = length (filter id (map (\<lambda>s. s \<noteq> None) (slots t)))"
    by simp
  then show ?thesis
    using Some by (simp add: update_node_def tree_size_def filter_map comp_def)
qed

lemma tree_size_setters [simp]:
  "tree_size (set_left t i c) = tree_size t"
  "tree_size (set_right t i c) = tree_size t"
  "tree_size (set_parent t i c) = tree_size t"
  "tree_size (set_color t i col) = tree_size t"
  "tree_size (set_entry t i k v) = tree_size t"
  "tree_size (set_value t i v) = tree_size t"
  by (simp_all add: setter_defs)

lemma tree_size_root_update [simp]: "tree_size (t\<lparr>root_index := r\<rparr>) = tree_size t"
  by (simp add: tree_size_def)

text \<open>The number of occupied slots, as the cardinality of the set of occupied indices.\<close>
lemma length_filter_card: "length (filter P xs) = card {i. i < length xs \<and> P (xs ! i)}"
proof (induction xs rule: rev_induct)
  case Nil
  then show ?case by simp
next
  case (snoc x xs)
  have eq: "{i. i < Suc (length xs) \<and> P ((xs @ [x]) ! i)}
            = {i. i < length xs \<and> P (xs ! i)} \<union> (if P x then {length xs} else {})"
    by (auto simp: nth_append less_Suc_eq)
  show ?case using snoc by (simp add: eq)
qed

lemma tree_size_card: "tree_size t = card {i. contains_at t i}"
proof -
  have "{i. contains_at t i} = {i. i < length (slots t) \<and> slots t ! i \<noteq> None}"
    by (auto simp: contains_at_def node_at_def)
  then show ?thesis by (simp add: tree_size_def length_filter_card)
qed

lemma finite_contains: "finite {i. contains_at t i}"
proof -
  have "{i. contains_at t i} \<subseteq> {..<length (slots t)}"
    by (auto simp: contains_at_def node_at_def split: if_splits)
  then show ?thesis by (rule finite_subset) simp
qed

lemma contains_at_less: "contains_at t i \<Longrightarrow> i < CAPACITY t"
  by (auto simp: contains_at_def node_at_def CAPACITY_def split: if_splits)

section \<open>Shapes: subtrees, replacement, frames\<close>

fun root_idx :: "NodeIndex tree \<Rightarrow> NodeIndex" where
  "root_idx Leaf = NULL_INDEX"
| "root_idx (Node l j r) = j"

text \<open>The subtree rooted at index \<open>x\<close>, and the tree with that subtree replaced.\<close>
fun subtree_at :: "NodeIndex \<Rightarrow> NodeIndex tree \<Rightarrow> NodeIndex tree" where
  "subtree_at x Leaf = Leaf"
| "subtree_at x (Node l j r) =
     (if j = x then Node l j r else if x \<in> set_tree l then subtree_at x l else subtree_at x r)"

fun replace_at :: "NodeIndex \<Rightarrow> NodeIndex tree \<Rightarrow> NodeIndex tree \<Rightarrow> NodeIndex tree" where
  "replace_at x S Leaf = Leaf"
| "replace_at x S (Node l j r) =
     (if j = x then S else Node (replace_at x S l) j (replace_at x S r))"

definition linked :: "('k, 'v) FixedRedBlackTree \<Rightarrow> NodeIndex tree \<Rightarrow> bool" where
  "linked t T =
     (repr t NULL_INDEX (root_index t) T \<and> distinct (inorder T)
      \<and> set_tree T = {i. contains_at t i})"

lemma repr_root: "repr t p i T \<Longrightarrow> i = root_idx T"
  by (cases T) auto

lemma repr_contains: "repr t p i T \<Longrightarrow> j \<in> set_tree T \<Longrightarrow> contains_at t j \<and> j \<noteq> NULL_INDEX"
  by (induction T arbitrary: p i) auto

lemma repr_Leaf_iff: "repr t p i T \<Longrightarrow> (T = Leaf) = (i = NULL_INDEX)"
  by (cases T) auto

lemma repr_children_closed:
  "repr t p i T \<Longrightarrow> j \<in> set_tree T \<Longrightarrow>
     (left_of t j = NULL_INDEX \<or> left_of t j \<in> set_tree T)
     \<and> (right_of t j = NULL_INDEX \<or> right_of t j \<in> set_tree T)"
proof (induction T arbitrary: p i)
  case Leaf
  then show ?case by simp
next
  case (Node l a r)
  have l: "repr t a (left_of t a) l" and r: "repr t a (right_of t a) r"
    using Node.prems(1) by auto
  consider "j = a" | "j \<in> set_tree l" | "j \<in> set_tree r"
    using Node.prems(2) by auto
  then show ?case
  proof cases
    case 1
    have "left_of t a = NULL_INDEX \<or> left_of t a \<in> set_tree l"
      using l by (cases l) auto
    moreover have "right_of t a = NULL_INDEX \<or> right_of t a \<in> set_tree r"
      using r by (cases r) auto
    ultimately show ?thesis using 1 by auto
  next
    case 2
    then show ?thesis using Node.IH(1)[OF l] by auto
  next
    case 3
    then show ?thesis using Node.IH(2)[OF r] by auto
  qed
qed

lemma repr_frame:
  assumes "repr t p i T" and "distinct (inorder T)"
    and "\<And>j. j \<in> set_tree T \<Longrightarrow>
           contains_at t' j \<and> left_of t' j = left_of t j \<and> right_of t' j = right_of t j"
    and "\<And>j. j \<in> set_tree T \<Longrightarrow> j \<noteq> i \<Longrightarrow> parent_of t' j = parent_of t j"
    and "i \<noteq> NULL_INDEX \<Longrightarrow> parent_of t' i = p'"
  shows "repr t' p' i T"
  using assms
proof (induction T arbitrary: p i p')
  case Leaf
  then show ?case by simp
next
  case (Node l a r)
  have ia: "i = a" and a: "a \<noteq> NULL_INDEX" "contains_at t a"
    and l: "repr t a (left_of t a) l" and r: "repr t a (right_of t a) r"
    using Node.prems(1) by auto
  have d: "distinct (inorder l)" "distinct (inorder r)" "a \<notin> set_tree l" "a \<notin> set_tree r"
    using Node.prems(2) by auto
  have a': "contains_at t' a" "left_of t' a = left_of t a" "right_of t' a = right_of t a"
    using Node.prems(3)[of a] by auto
  have "repr t' a (left_of t a) l"
  proof (rule Node.IH(1)[OF l d(1)])
    fix j assume "j \<in> set_tree l"
    then show "contains_at t' j \<and> left_of t' j = left_of t j \<and> right_of t' j = right_of t j"
      using Node.prems(3)[of j] by simp
  next
    fix j assume "j \<in> set_tree l" "j \<noteq> left_of t a"
    then show "parent_of t' j = parent_of t j"
      using Node.prems(4)[of j] d ia by auto
  next
    assume n: "left_of t a \<noteq> NULL_INDEX"
    then obtain l1 l2 where "l = Node l1 (left_of t a) l2"
      using l by (cases l) auto
    then have m: "left_of t a \<in> set_tree l" "parent_of t (left_of t a) = a"
      using l by auto
    then have "left_of t a \<noteq> i" using d ia by auto
    then show "parent_of t' (left_of t a) = a"
      using Node.prems(4)[of "left_of t a"] m by simp
  qed
  moreover have "repr t' a (right_of t a) r"
  proof (rule Node.IH(2)[OF r d(2)])
    fix j assume "j \<in> set_tree r"
    then show "contains_at t' j \<and> left_of t' j = left_of t j \<and> right_of t' j = right_of t j"
      using Node.prems(3)[of j] by simp
  next
    fix j assume "j \<in> set_tree r" "j \<noteq> right_of t a"
    then show "parent_of t' j = parent_of t j"
      using Node.prems(4)[of j] d ia by auto
  next
    assume n: "right_of t a \<noteq> NULL_INDEX"
    then obtain r1 r2 where "r = Node r1 (right_of t a) r2"
      using r by (cases r) auto
    then have m: "right_of t a \<in> set_tree r" "parent_of t (right_of t a) = a"
      using r by auto
    then have "right_of t a \<noteq> i" using d ia by auto
    then show "parent_of t' (right_of t a) = a"
      using Node.prems(4)[of "right_of t a"] m by simp
  qed
  ultimately show ?case
    using ia a a' Node.prems(5) by simp
qed

lemma repr_unique: "repr t p i T \<Longrightarrow> repr t p' i T' \<Longrightarrow> T = T'"
proof (induction T arbitrary: p p' i T')
  case Leaf
  then show ?case by (cases T') auto
next
  case (Node l a r)
  then show ?case by (cases T') auto
qed

lemma tree_of_repr:
  "repr t p i T \<Longrightarrow> \<not> contains_at t NULL_INDEX \<Longrightarrow> height T \<le> n \<Longrightarrow> tree_of n t i = T"
proof (induction n arbitrary: p i T)
  case 0
  then show ?case by (cases T) auto
next
  case (Suc n)
  show ?case
  proof (cases T)
    case Leaf
    then have "node_at t i = None"
      using Suc.prems by (simp add: contains_at_def)
    then show ?thesis using Leaf by simp
  next
    case (Node l a r)
    then have ia: "i = a" and c: "contains_at t a"
      and l: "repr t a (left_of t a) l" and r: "repr t a (right_of t a) r"
      using Suc.prems by auto
    obtain nd where nd: "node_at t a = Some nd"
      using c by (auto simp: contains_at_def)
    have "tree_of n t (left_index nd) = l"
      using Suc.IH[OF l[unfolded left_of_def nd, simplified] Suc.prems(2)] Suc.prems(3) Node by simp
    moreover have "tree_of n t (right_index nd) = r"
      using Suc.IH[OF r[unfolded right_of_def nd, simplified] Suc.prems(2)] Suc.prems(3) Node by simp
    ultimately show ?thesis using Node ia nd by simp
  qed
qed

subsection \<open>Subtrees\<close>

lemma subtree_at_notin [simp]: "x \<notin> set_tree T \<Longrightarrow> subtree_at x T = Leaf"
  by (induction T) auto

lemma replace_at_notin [simp]: "x \<notin> set_tree T \<Longrightarrow> replace_at x S T = T"
  by (induction T) auto

lemma subtree_at_in: "x \<in> set_tree T \<Longrightarrow> \<exists>l r. subtree_at x T = Node l x r"
  by (induction T) auto

lemma set_subtree_at: "set_tree (subtree_at x T) \<subseteq> set_tree T"
  by (induction T) auto

lemma repr_subtree_at:
  "repr t p i T \<Longrightarrow> x \<in> set_tree T \<Longrightarrow> repr t (parent_of t x) x (subtree_at x T)"
  by (induction T arbitrary: p i) auto

lemma distinct_subtree_at: "distinct (inorder T) \<Longrightarrow> distinct (inorder (subtree_at x T))"
  by (induction T) auto

lemma inorder_replace_at:
  "x \<in> set_tree T \<Longrightarrow> distinct (inorder T) \<Longrightarrow>
     \<exists>pre post. inorder T = pre @ inorder (subtree_at x T) @ post
        \<and> (\<forall>S. inorder (replace_at x S T) = pre @ inorder S @ post)"
proof (induction T)
  case Leaf
  then show ?case by simp
next
  case (Node l a r)
  show ?case
  proof (cases "a = x")
    case True
    then have "inorder (Node l a r) = [] @ inorder (subtree_at x (Node l a r)) @ []
        \<and> (\<forall>S. inorder (replace_at x S (Node l a r)) = [] @ inorder S @ [])"
      by simp
    then show ?thesis by blast
  next
    case False
    show ?thesis
    proof (cases "x \<in> set_tree l")
      case True
      then have "x \<notin> set_tree r" using Node.prems(2) by auto
      from Node.IH(1)[OF True] Node.prems(2) obtain pre post where
        pp: "inorder l = pre @ inorder (subtree_at x l) @ post"
            "\<forall>S. inorder (replace_at x S l) = pre @ inorder S @ post"
        by auto
      have "inorder (Node l a r) = pre @ inorder (subtree_at x (Node l a r)) @ (post @ a # inorder r)
        \<and> (\<forall>S. inorder (replace_at x S (Node l a r)) = pre @ inorder S @ (post @ a # inorder r))"
        using pp False True \<open>x \<notin> set_tree r\<close> by simp
      then show ?thesis by blast
    next
      case xl: False
      then have xr: "x \<in> set_tree r" using Node.prems(1) False by auto
      from Node.IH(2)[OF xr] Node.prems(2) obtain pre post where
        pp: "inorder r = pre @ inorder (subtree_at x r) @ post"
            "\<forall>S. inorder (replace_at x S r) = pre @ inorder S @ post"
        by auto
      have "inorder (Node l a r) = (inorder l @ a # pre) @ inorder (subtree_at x (Node l a r)) @ post
        \<and> (\<forall>S. inorder (replace_at x S (Node l a r)) = (inorder l @ a # pre) @ inorder S @ post)"
        using pp False xl by simp
      then show ?thesis by blast
    qed
  qed
qed

lemma set_replace_at:
  "x \<in> set_tree T \<Longrightarrow> distinct (inorder T) \<Longrightarrow>
     set_tree (replace_at x S T) = (set_tree T - set_tree (subtree_at x T)) \<union> set_tree S"
proof -
  assume a: "x \<in> set_tree T" "distinct (inorder T)"
  from inorder_replace_at[OF a] obtain pre post where
    pp: "inorder T = pre @ inorder (subtree_at x T) @ post"
        "\<forall>S. inorder (replace_at x S T) = pre @ inorder S @ post"
    by auto
  have "set (inorder (replace_at x S T)) = set pre \<union> set (inorder S) \<union> set post"
    using pp(2) by auto
  moreover have "distinct (pre @ inorder (subtree_at x T) @ post)"
    using pp(1) a(2) by simp
  then have "set (pre @ inorder (subtree_at x T) @ post) - set (inorder (subtree_at x T))
      = set pre \<union> set post"
    by auto
  then have "set (inorder T) - set (inorder (subtree_at x T)) = set pre \<union> set post"
    using pp(1) by simp
  ultimately show ?thesis by auto
qed

text \<open>Replacing the subtree at \<open>x\<close>: the new subtree is linked below the old parent of \<open>x\<close>,
  and outside the old subtree only the child link to \<open>x\<close> has changed.\<close>
lemma repr_replace_at:
  assumes "repr t p i T" and "distinct (inorder T)" and "x \<in> set_tree T"
    and "repr t' (parent_of t x) r' S"
    and "\<And>j. j \<in> set_tree T \<Longrightarrow> j \<notin> set_tree (subtree_at x T) \<Longrightarrow>
           contains_at t' j \<and> parent_of t' j = parent_of t j
           \<and> left_of t' j = (if left_of t j = x then r' else left_of t j)
           \<and> right_of t' j = (if right_of t j = x then r' else right_of t j)"
  shows "repr t' p (if i = x then r' else i) (replace_at x S T)"
  using assms
proof (induction T arbitrary: p i)
  case Leaf
  then show ?case by simp
next
  case (Node l a r)
  have ia: "i = a" and a: "a \<noteq> NULL_INDEX" "contains_at t a" "parent_of t a = p"
    and l: "repr t a (left_of t a) l" and r: "repr t a (right_of t a) r"
    using Node.prems(1) by auto
  have d: "distinct (inorder l)" "distinct (inorder r)" "a \<notin> set_tree l" "a \<notin> set_tree r"
    "set_tree l \<inter> set_tree r = {}"
    using Node.prems(2) by auto
  have xn: "x \<noteq> NULL_INDEX"
    using repr_contains[OF Node.prems(1) Node.prems(3)] by simp
  show ?case
  proof (cases "a = x")
    case True
    then show ?thesis using Node.prems(4) ia a by simp
  next
    case False
    have anot: "a \<notin> set_tree (subtree_at x (Node l a r))"
      using False d set_subtree_at[of x l] set_subtree_at[of x r] by auto
    have a': "contains_at t' a" "parent_of t' a = p"
      "left_of t' a = (if left_of t a = x then r' else left_of t a)"
      "right_of t' a = (if right_of t a = x then r' else right_of t a)"
      using Node.prems(5)[of a] anot a by auto
    have frame: "repr t' a (root_idx U) U"
      if U: "repr t a (root_idx U) U" "distinct (inorder U)" "set_tree U \<subseteq> set_tree (Node l a r)"
        "x \<notin> set_tree U" "set_tree U \<inter> set_tree (subtree_at x (Node l a r)) = {}" for U
    proof (rule repr_frame[OF U(1) U(2)])
      fix j assume j: "j \<in> set_tree U"
      then have "j \<in> set_tree (Node l a r)" "j \<notin> set_tree (subtree_at x (Node l a r))"
        using U by auto
      from Node.prems(5)[OF this] repr_children_closed[OF U(1) j] U(4) xn
      show "contains_at t' j \<and> left_of t' j = left_of t j \<and> right_of t' j = right_of t j"
        by auto
    next
      fix j assume j: "j \<in> set_tree U" "j \<noteq> root_idx U"
      then have "j \<in> set_tree (Node l a r)" "j \<notin> set_tree (subtree_at x (Node l a r))"
        using U by auto
      from Node.prems(5)[OF this] show "parent_of t' j = parent_of t j" by simp
    next
      assume "root_idx U \<noteq> NULL_INDEX"
      then obtain u1 u2 where "U = Node u1 (root_idx U) u2" by (cases U) auto
      then have j: "root_idx U \<in> set_tree U" "parent_of t (root_idx U) = a"
        using U(1) by (metis tree.set_intros(2), metis repr.simps(2))
      then have "root_idx U \<in> set_tree (Node l a r)"
        "root_idx U \<notin> set_tree (subtree_at x (Node l a r))"
        using U by auto
      from Node.prems(5)[OF this] j show "parent_of t' (root_idx U) = a" by simp
    qed
    show ?thesis
    proof (cases "x \<in> set_tree l")
      case True
      then have xr: "x \<notin> set_tree r" using d by auto
      have sub: "subtree_at x (Node l a r) = subtree_at x l"
        using False True by simp
      have "repr t' a (if left_of t a = x then r' else left_of t a) (replace_at x S l)"
      proof (rule Node.IH(1)[OF l d(1) True Node.prems(4)])
        fix j assume "j \<in> set_tree l" "j \<notin> set_tree (subtree_at x l)"
        then show "contains_at t' j \<and> parent_of t' j = parent_of t j
           \<and> left_of t' j = (if left_of t j = x then r' else left_of t j)
           \<and> right_of t' j = (if right_of t j = x then r' else right_of t j)"
          using Node.prems(5)[of j] sub by simp
      qed
      moreover have "repr t' a (right_of t a) r"
      proof -
        have rr: "right_of t a = root_idx r" using repr_root[OF r] .
        have "set_tree r \<inter> set_tree (subtree_at x l) = {}"
          using d set_subtree_at[of x l] by auto
        then show ?thesis
          using frame[of r] r rr d xr sub by auto
      qed
      moreover have "right_of t a \<noteq> x"
        using repr_root[OF r] xr xn by (cases r) auto
      ultimately show ?thesis
        using False ia a a' xr by simp
    next
      case xl: False
      then have xr: "x \<in> set_tree r" using Node.prems(3) False by auto
      have sub: "subtree_at x (Node l a r) = subtree_at x r"
        using False xl by simp
      have "repr t' a (if right_of t a = x then r' else right_of t a) (replace_at x S r)"
      proof (rule Node.IH(2)[OF r d(2) xr Node.prems(4)])
        fix j assume "j \<in> set_tree r" "j \<notin> set_tree (subtree_at x r)"
        then show "contains_at t' j \<and> parent_of t' j = parent_of t j
           \<and> left_of t' j = (if left_of t j = x then r' else left_of t j)
           \<and> right_of t' j = (if right_of t j = x then r' else right_of t j)"
          using Node.prems(5)[of j] sub by simp
      qed
      moreover have "repr t' a (left_of t a) l"
      proof -
        have ll: "left_of t a = root_idx l" using repr_root[OF l] .
        have "set_tree l \<inter> set_tree (subtree_at x r) = {}"
          using d set_subtree_at[of x r] by auto
        then show ?thesis
          using frame[of l] l ll d xl sub by auto
      qed
      moreover have "left_of t a \<noteq> x"
        using repr_root[OF l] xl xn by (cases l) auto
      ultimately show ?thesis
        using False ia a a' xl by simp
    qed
  qed
qed

subsection \<open>Local facts of a linked tree\<close>

lemma subtree_at_children:
  "repr t p r T \<Longrightarrow> distinct (inorder T) \<Longrightarrow> i \<in> set_tree T \<Longrightarrow>
     subtree_at i T = Node (subtree_at (left_of t i) T) i (subtree_at (right_of t i) T)"
proof (induction T arbitrary: p r)
  case Leaf
  then show ?case by simp
next
  case (Node l a rr)
  have a: "a \<noteq> NULL_INDEX" "contains_at t a"
    and l: "repr t a (left_of t a) l" and r: "repr t a (right_of t a) rr"
    using Node.prems(1) by auto
  have d: "distinct (inorder l)" "distinct (inorder rr)" "a \<notin> set_tree l" "a \<notin> set_tree rr"
    "set_tree l \<inter> set_tree rr = {}"
    using Node.prems(2) by auto
  have nl: "NULL_INDEX \<notin> set_tree l" using repr_contains[OF l] by blast
  have nr: "NULL_INDEX \<notin> set_tree rr" using repr_contains[OF r] by blast
  show ?case
  proof (cases "i = a")
    case True
    have "subtree_at (left_of t a) (Node l a rr) = l"
    proof (cases l)
      case Leaf
      then show ?thesis using l nl nr a by simp
    next
      case (Node l1 b l2)
      then have "left_of t a = b" using l by simp
      then show ?thesis using Node d by auto
    qed
    moreover have "subtree_at (right_of t a) (Node l a rr) = rr"
    proof (cases rr)
      case Leaf
      then show ?thesis using r nl nr a by simp
    next
      case (Node r1 b r2)
      then have "right_of t a = b" using r by simp
      then show ?thesis using Node d by auto
    qed
    ultimately show ?thesis using True by simp
  next
    case False
    show ?thesis
    proof (cases "i \<in> set_tree l")
      case True
      have cc: "(left_of t i = NULL_INDEX \<or> left_of t i \<in> set_tree l)"
        "(right_of t i = NULL_INDEX \<or> right_of t i \<in> set_tree l)"
        using repr_children_closed[OF l True] by auto
      have "subtree_at (left_of t i) (Node l a rr) = subtree_at (left_of t i) l"
        using cc(1) d nl nr a by auto
      moreover have "subtree_at (right_of t i) (Node l a rr) = subtree_at (right_of t i) l"
        using cc(2) d nl nr a by auto
      ultimately show ?thesis
        using Node.IH(1)[OF l d(1) True] False True by simp
    next
      case il: False
      then have ir: "i \<in> set_tree rr" using Node.prems(3) False by auto
      have cc: "(left_of t i = NULL_INDEX \<or> left_of t i \<in> set_tree rr)"
        "(right_of t i = NULL_INDEX \<or> right_of t i \<in> set_tree rr)"
        using repr_children_closed[OF r ir] by auto
      have "subtree_at (left_of t i) (Node l a rr) = subtree_at (left_of t i) rr"
        using cc(1) d nl nr a by auto
      moreover have "subtree_at (right_of t i) (Node l a rr) = subtree_at (right_of t i) rr"
        using cc(2) d nl nr a by auto
      ultimately show ?thesis
        using Node.IH(2)[OF r d(2) ir] False il by simp
    qed
  qed
qed

lemma repr_parent:
  "repr t p r T \<Longrightarrow> distinct (inorder T) \<Longrightarrow> i \<in> set_tree T \<Longrightarrow> i \<noteq> r \<Longrightarrow>
     parent_of t i \<in> set_tree T
     \<and> (left_of t (parent_of t i) = i \<or> right_of t (parent_of t i) = i)"
proof (induction T arbitrary: p r)
  case Leaf
  then show ?case by simp
next
  case (Node l a rr)
  have ra: "r = a" and l: "repr t a (left_of t a) l" and r: "repr t a (right_of t a) rr"
    using Node.prems(1) by auto
  have d: "distinct (inorder l)" "distinct (inorder rr)"
    using Node.prems(2) by auto
  consider "i \<in> set_tree l" | "i \<in> set_tree rr"
    using Node.prems(3,4) ra by auto
  then show ?case
  proof cases
    case 1
    show ?thesis
    proof (cases "i = left_of t a")
      case True
      then obtain l1 l2 where "l = Node l1 i l2" using l 1 by (cases l) auto
      then have "parent_of t i = a" using l by simp
      then show ?thesis using True by simp
    next
      case False
      then show ?thesis using Node.IH(1)[OF l d(1) 1] by auto
    qed
  next
    case 2
    show ?thesis
    proof (cases "i = right_of t a")
      case True
      then obtain r1 r2 where "rr = Node r1 i r2" using r 2 by (cases rr) auto
      then have "parent_of t i = a" using r by simp
      then show ?thesis using True by simp
    next
      case False
      then show ?thesis using Node.IH(2)[OF r d(2) 2] by auto
    qed
  qed
qed

lemma linked_root: "linked t T \<Longrightarrow> root_index t = root_idx T"
  by (auto simp: linked_def dest: repr_root)

lemma linked_null: "linked t T \<Longrightarrow> \<not> contains_at t NULL_INDEX"
  by (auto simp: linked_def dest: repr_contains)

lemma linked_subtree:
  assumes "linked t T" "contains_at t i"
  shows "subtree_at i T = Node (subtree_at (left_of t i) T) i (subtree_at (right_of t i) T)"
    and "repr t (parent_of t i) i (subtree_at i T)"
    and "distinct (inorder (subtree_at i T))"
  using assms subtree_at_children[of t NULL_INDEX "root_index t" T i]
    repr_subtree_at[of t NULL_INDEX "root_index t" T i] distinct_subtree_at[of T i]
  by (auto simp: linked_def)

lemma subtree_at_Leaf_iff: "subtree_at c T = Leaf \<longleftrightarrow> c \<notin> set_tree T"
  using subtree_at_in[of c T] by (cases "c \<in> set_tree T") auto

text \<open>What the links around an occupied slot look like.\<close>
lemma linked_children:
  assumes "linked t T" "contains_at t i"
  shows "left_of t i = NULL_INDEX \<or>
         (contains_at t (left_of t i) \<and> parent_of t (left_of t i) = i)"
    and "right_of t i = NULL_INDEX \<or>
         (contains_at t (right_of t i) \<and> parent_of t (right_of t i) = i)"
    and "left_of t i \<noteq> i" and "right_of t i \<noteq> i"
    and "left_of t i = right_of t i \<longrightarrow> left_of t i = NULL_INDEX"
    and "i \<noteq> NULL_INDEX"
proof -
  define L where "L = subtree_at (left_of t i) T"
  define R where "R = subtree_at (right_of t i) T"
  have S: "subtree_at i T = Node L i R"
    using linked_subtree(1)[OF assms] by (simp add: L_def R_def)
  have "repr t (parent_of t i) i (Node L i R)" "distinct (inorder (Node L i R))"
    using linked_subtree(2,3)[OF assms] S by simp_all
  then have rl: "repr t i (left_of t i) L" and rr: "repr t i (right_of t i) R"
    and d: "i \<notin> set_tree L" "i \<notin> set_tree R" "set_tree L \<inter> set_tree R = {}"
    and n: "i \<noteq> NULL_INDEX"
    by auto
  show "left_of t i = NULL_INDEX \<or>
         (contains_at t (left_of t i) \<and> parent_of t (left_of t i) = i)"
    using rl by (cases L) auto
  show "right_of t i = NULL_INDEX \<or>
         (contains_at t (right_of t i) \<and> parent_of t (right_of t i) = i)"
    using rr by (cases R) auto
  show "left_of t i \<noteq> i"
    using rl d n by (cases L) auto
  show "right_of t i \<noteq> i"
    using rr d n by (cases R) auto
  show "left_of t i = right_of t i \<longrightarrow> left_of t i = NULL_INDEX"
    using rl rr d by (cases L; cases R) auto
  show "i \<noteq> NULL_INDEX" by (rule n)
qed

lemma linked_parent:
  assumes "linked t T" "contains_at t i"
  shows "i = root_index t \<longrightarrow> parent_of t i = NULL_INDEX"
    and "i \<noteq> root_index t \<longrightarrow> contains_at t (parent_of t i)
           \<and> (left_of t (parent_of t i) = i \<or> right_of t (parent_of t i) = i)"
    and "parent_of t i \<noteq> i"
proof -
  have r: "repr t NULL_INDEX (root_index t) T" and d: "distinct (inorder T)"
    and s: "set_tree T = {i. contains_at t i}"
    using assms(1) by (auto simp: linked_def)
  have iT: "i \<in> set_tree T" using s assms(2) by simp
  show 1: "i = root_index t \<longrightarrow> parent_of t i = NULL_INDEX"
    using r iT by (cases T) auto
  show 2: "i \<noteq> root_index t \<longrightarrow> contains_at t (parent_of t i)
           \<and> (left_of t (parent_of t i) = i \<or> right_of t (parent_of t i) = i)"
    using repr_parent[OF r d iT] s by auto
  show "parent_of t i \<noteq> i"
  proof (cases "i = root_index t")
    case True
    then show ?thesis using 1 linked_children(6)[OF assms] by simp
  next
    case False
    then have c: "contains_at t (parent_of t i)"
      and "left_of t (parent_of t i) = i \<or> right_of t (parent_of t i) = i"
      using 2 by auto
    then show ?thesis
      using linked_children(3,4)[OF assms(1) c] by auto
  qed
qed

text \<open>The subtree below a child is smaller than the subtree below its parent.\<close>
lemma linked_size_parent:
  assumes "linked t T" "contains_at t i" "i \<noteq> root_index t"
  shows "size (subtree_at i T) < size (subtree_at (parent_of t i) T)"
proof -
  have c: "contains_at t (parent_of t i)"
    and ch: "left_of t (parent_of t i) = i \<or> right_of t (parent_of t i) = i"
    using linked_parent(2)[OF assms(1,2)] assms(3) by auto
  show ?thesis
    using linked_subtree(1)[OF assms(1) c] ch by auto
qed

subsection \<open>The computed shape\<close>

lemma linked_size: "linked t T \<Longrightarrow> size T = tree_size t"
proof -
  assume l: "linked t T"
  have "distinct (inorder T)" using l by (simp add: linked_def)
  then have "card (set (inorder T)) = length (inorder T)" by (rule distinct_card)
  moreover have "set (inorder T) = {i. contains_at t i}"
    using l by (simp add: linked_def)
  ultimately show ?thesis by (simp add: tree_size_card)
qed

lemma tree_size_le_CAPACITY: "tree_size t \<le> CAPACITY t"
  by (simp add: tree_size_def CAPACITY_def)

lemma linked_shape: "linked t T \<Longrightarrow> shape t = T"
proof -
  assume l: "linked t T"
  have "height T \<le> size T" by (rule height_le_size_tree)
  then have "height T \<le> CAPACITY t"
    using linked_size[OF l] tree_size_le_CAPACITY[of t] by simp
  then show ?thesis
    using l tree_of_repr[of t NULL_INDEX "root_index t" T "CAPACITY t"] linked_null[OF l]
    by (simp add: shape_def linked_def)
qed

lemma well_linked_iff: "well_linked t \<longleftrightarrow> CAPACITY t < NULL_INDEX \<and> linked t (shape t)"
proof -
  have "set_tree (shape t) = {i. contains_at t i}"
    if r: "repr t NULL_INDEX (root_index t) (shape t)"
      and c: "list_all (\<lambda>i. contains_at t i \<longrightarrow> i \<in> set (inorder (shape t))) [0..<CAPACITY t]"
  proof
    show "set_tree (shape t) \<subseteq> {i. contains_at t i}"
      using repr_contains[OF r] by auto
    show "{i. contains_at t i} \<subseteq> set_tree (shape t)"
      using c contains_at_less[of t] by (auto simp: list_all_iff)
  qed
  then show ?thesis
    by (auto simp: well_linked_def linked_def list_all_iff)
qed

lemma well_linkedI: "linked t T \<Longrightarrow> CAPACITY t < NULL_INDEX \<Longrightarrow> well_linked t"
  using linked_shape[of t T] by (simp add: well_linked_iff)

subsection \<open>The comparator\<close>

text \<open>The contract of the comparator: a strict weak order.\<close>
definition strict_weak_order :: "('k \<Rightarrow> 'k \<Rightarrow> bool) \<Rightarrow> bool" where
  "strict_weak_order lt =
     ((\<forall>x. \<not> lt x x)
      \<and> (\<forall>x y z. lt x y \<and> lt y z \<longrightarrow> lt x z)
      \<and> (\<forall>x y z. \<not> lt x y \<and> \<not> lt y x \<and> \<not> lt y z \<and> \<not> lt z y
            \<longrightarrow> \<not> lt x z \<and> \<not> lt z x))"

text \<open>Two keys are equivalent when neither is ordered before the other.\<close>
definition equivalent :: "('k \<Rightarrow> 'k \<Rightarrow> bool) \<Rightarrow> 'k \<Rightarrow> 'k \<Rightarrow> bool" where
  "equivalent lt a b = (\<not> lt a b \<and> \<not> lt b a)"

lemma swo_irrefl: "strict_weak_order lt \<Longrightarrow> \<not> lt x x"
  by (auto simp: strict_weak_order_def)

lemma swo_trans: "strict_weak_order lt \<Longrightarrow> lt x y \<Longrightarrow> lt y z \<Longrightarrow> lt x z"
  unfolding strict_weak_order_def by blast

lemma swo_asym: "strict_weak_order lt \<Longrightarrow> lt x y \<Longrightarrow> \<not> lt y x"
  using swo_trans[of lt x y x] swo_irrefl[of lt x] by blast

lemma swo_less_equiv:
  assumes "strict_weak_order lt" "lt x y" "equivalent lt y z"
  shows "lt x z"
proof (rule ccontr)
  assume n: "\<not> lt x z"
  have "\<not> lt z x"
  proof
    assume "lt z x"
    then have "lt z y" using assms(1,2) swo_trans by metis
    then show False using assms(3) by (simp add: equivalent_def)
  qed
  with n have "equivalent lt x z" by (simp add: equivalent_def)
  then have "\<not> lt x y"
    using assms(1,3) unfolding strict_weak_order_def equivalent_def by blast
  then show False using assms(2) by simp
qed

lemma swo_equiv_less:
  assumes "strict_weak_order lt" "equivalent lt x y" "lt y z"
  shows "lt x z"
proof (rule ccontr)
  assume n: "\<not> lt x z"
  have "\<not> lt z x"
  proof
    assume "lt z x"
    then have "lt y x" using assms(1,3) swo_trans by metis
    then show False using assms(2) by (simp add: equivalent_def)
  qed
  with n have "equivalent lt z x" by (simp add: equivalent_def)
  then have "\<not> lt y z"
    using assms(1,2) unfolding strict_weak_order_def equivalent_def by blast
  then show False using assms(3) by simp
qed

subsection \<open>Descent\<close>

text \<open>The descent, on the shape.\<close>
fun descend ::
  "('k \<Rightarrow> 'k \<Rightarrow> bool) \<Rightarrow> (NodeIndex \<Rightarrow> 'k) \<Rightarrow> 'k \<Rightarrow> NodeIndex tree \<Rightarrow> NodeIndex \<Rightarrow> bool
    \<Rightarrow> NodeIndexAndParentIndex" where
  "descend lt kf k Leaf p s = \<lparr>np_i = NULL_INDEX, np_parent = p, np_is_left_child = s\<rparr>"
| "descend lt kf k (Node l j r) p s =
     (if lt k (kf j) then descend lt kf k l j True
      else if lt (kf j) k then descend lt kf k r j False
      else \<lparr>np_i = j, np_parent = p, np_is_left_child = s\<rparr>)"

lemma descent_refines:
  "repr t p i T \<Longrightarrow> \<not> contains_at t NULL_INDEX \<Longrightarrow>
     index_of_node_with_parent_loop t k i p s
       = Some (descend (comparator t) (key_of t) k T p s)"
proof (induction T arbitrary: p i s)
  case Leaf
  then have "node_at t i = None" by (simp add: contains_at_def)
  then show ?case
    using Leaf by (subst index_of_node_with_parent_loop.simps) simp
next
  case (Node l a r)
  then have ia: "i = a" and c: "contains_at t a"
    and l: "repr t a (left_of t a) l" and r: "repr t a (right_of t a) r"
    by auto
  obtain nd where nd: "node_at t a = Some nd"
    using c by (auto simp: contains_at_def)
  have k: "node_key nd = key_of t a" "left_index nd = left_of t a" "right_index nd = right_of t a"
    using nd by (simp_all add: key_of_def left_of_def right_of_def)
  show ?case
    using Node.IH(1)[OF l Node.prems(2)] Node.IH(2)[OF r Node.prems(2)] ia nd k
    by (subst index_of_node_with_parent_loop.simps) simp
qed

lemma descend_result:
  assumes "strict_weak_order lt" "sorted_wrt lt (map kf (inorder T))"
  shows "(np_i (descend lt kf k T p s) = NULL_INDEX
            \<and> (\<forall>j\<in>set_tree T. \<not> equivalent lt k (kf j)))
         \<or> (np_i (descend lt kf k T p s) \<in> set_tree T
            \<and> equivalent lt k (kf (np_i (descend lt kf k T p s))))"
  using assms(2)
proof (induction T arbitrary: p s)
  case Leaf
  then show ?case by simp
next
  case (Node l a r)
  have sl: "sorted_wrt lt (map kf (inorder l))" and sr: "sorted_wrt lt (map kf (inorder r))"
    and la: "\<forall>j\<in>set_tree l. lt (kf j) (kf a)" and ar: "\<forall>j\<in>set_tree r. lt (kf a) (kf j)"
    using Node.prems by (auto simp: sorted_wrt_append)
  show ?case
  proof (cases "lt k (kf a)")
    case True
    have "\<not> equivalent lt k (kf a)" using True by (simp add: equivalent_def)
    moreover have "\<not> equivalent lt k (kf j)" if "j \<in> set_tree r" for j
    proof -
      have "lt k (kf j)" using swo_trans[OF assms(1) True] ar that by blast
      then show ?thesis by (simp add: equivalent_def)
    qed
    ultimately show ?thesis
      using Node.IH(1)[OF sl, of a True] True by auto
  next
    case nk: False
    show ?thesis
    proof (cases "lt (kf a) k")
      case True
      have "\<not> equivalent lt k (kf a)" using True by (simp add: equivalent_def)
      moreover have "\<not> equivalent lt k (kf j)" if "j \<in> set_tree l" for j
      proof -
        have "lt (kf j) k" using swo_trans[OF assms(1) _ True] la that by blast
        then show ?thesis by (simp add: equivalent_def)
      qed
      ultimately show ?thesis
        using Node.IH(2)[OF sr, of a False] True nk by auto
    next
      case False
      then show ?thesis using nk by (simp add: equivalent_def)
    qed
  qed
qed

text \<open>In a sorted tree at most one node carries a key equivalent to a given one.\<close>
lemma sorted_equivalent_unique:
  assumes "strict_weak_order lt" "sorted_wrt lt (map kf xs)" "distinct xs"
    "i \<in> set xs" "j \<in> set xs" "equivalent lt k (kf i)" "equivalent lt k (kf j)"
  shows "i = j"
proof (rule ccontr)
  assume ne: "i \<noteq> j"
  have "lt (kf i) (kf j) \<or> lt (kf j) (kf i)"
    using assms(2,4,5) ne
  proof (induction xs)
    case Nil
    then show ?case by simp
  next
    case (Cons x xs)
    then show ?case by auto
  qed
  moreover have "\<not> lt (kf i) (kf j)"
    using swo_equiv_less[OF assms(1) assms(6), of "kf j"] assms(7) by (auto simp: equivalent_def)
  moreover have "\<not> lt (kf j) (kf i)"
    using swo_equiv_less[OF assms(1) assms(7), of "kf i"] assms(6) by (auto simp: equivalent_def)
  ultimately show False by blast
qed

subsection \<open>Minimum, maximum, successor, predecessor\<close>

lemma leftmost_repr:
  "repr t p i T \<Longrightarrow> T \<noteq> Leaf \<Longrightarrow> leftmost t i = Some (hd (inorder T))"
proof (induction T arbitrary: p i)
  case Leaf
  then show ?case by simp
next
  case (Node l a r)
  then have ia: "i = a" and l: "repr t a (left_of t a) l" by auto
  show ?case
  proof (cases l)
    case Leaf
    then have "left_of t a = NULL_INDEX" using l by simp
    then show ?thesis using ia Leaf by (subst leftmost.simps) simp
  next
    case (Node l1 b l2)
    then have "left_of t a \<noteq> NULL_INDEX" using l by auto
    moreover have "leftmost t (left_of t a) = Some (hd (inorder l))"
      using Node.IH(1)[OF l] Node by simp
    moreover have "inorder l \<noteq> []" using Node by simp
    ultimately show ?thesis using ia by (subst leftmost.simps) simp
  qed
qed

lemma rightmost_repr:
  "repr t p i T \<Longrightarrow> T \<noteq> Leaf \<Longrightarrow> rightmost t i = Some (last (inorder T))"
proof (induction T arbitrary: p i)
  case Leaf
  then show ?case by simp
next
  case (Node l a r)
  then have ia: "i = a" and r: "repr t a (right_of t a) r" by auto
  show ?case
  proof (cases r)
    case Leaf
    then have "right_of t a = NULL_INDEX" using r by simp
    then show ?thesis using ia Leaf by (subst rightmost.simps) simp
  next
    case (Node r1 b r2)
    then have "right_of t a \<noteq> NULL_INDEX" using r by auto
    moreover have "rightmost t (right_of t a) = Some (last (inorder r))"
      using Node.IH(2)[OF r] Node by simp
    moreover have "inorder r \<noteq> []" using Node by simp
    ultimately show ?thesis using ia by (subst rightmost.simps) simp
  qed
qed

text \<open>The element after (before) \<open>i\<close> in a list, the null index when there is none.\<close>
fun next_in :: "NodeIndex list \<Rightarrow> NodeIndex \<Rightarrow> NodeIndex" where
  "next_in [] i = NULL_INDEX"
| "next_in [x] i = NULL_INDEX"
| "next_in (x # y # ys) i = (if x = i then y else next_in (y # ys) i)"

definition prev_in :: "NodeIndex list \<Rightarrow> NodeIndex \<Rightarrow> NodeIndex" where
  "prev_in xs i = next_in (rev xs) i"

lemma next_in_notin [simp]: "i \<notin> set xs \<Longrightarrow> next_in xs i = NULL_INDEX"
  by (induction xs i rule: next_in.induct) auto

lemma next_in_append_left:
  "i \<in> set xs \<Longrightarrow> i \<noteq> last xs \<Longrightarrow> next_in (xs @ ys) i = next_in xs i"
proof (induction xs i rule: next_in.induct)
  case (1 i)
  then show ?case by simp
next
  case (2 x i)
  then show ?case by simp
next
  case (3 x y ys' i)
  then show ?case by auto
qed

lemma next_in_append_last:
  "xs \<noteq> [] \<Longrightarrow> distinct xs \<Longrightarrow> ys \<noteq> [] \<Longrightarrow> next_in (xs @ ys) (last xs) = hd ys"
proof (induction xs "last xs" rule: next_in.induct)
  case 1
  then show ?case by simp
next
  case (2 x)
  then show ?case by (cases ys) auto
next
  case (3 x y ys')
  then show ?case by auto
qed

lemma next_in_append_right:
  "i \<notin> set xs \<Longrightarrow> next_in (xs @ ys) i = next_in ys i"
proof (induction xs)
  case Nil
  then show ?case by simp
next
  case (Cons x xs)
  then show ?case by (cases "xs @ ys") auto
qed

lemma next_in_last: "distinct xs \<Longrightarrow> xs \<noteq> [] \<Longrightarrow> next_in xs (last xs) = NULL_INDEX"
proof (induction xs "last xs" rule: next_in.induct)
  case 1
  then show ?case by simp
next
  case (2 x)
  then show ?case by simp
next
  case (3 x y ys)
  then show ?case by auto
qed

lemma next_in_Cons_hd: "next_in (x # ys) x = (case ys of [] \<Rightarrow> NULL_INDEX | y # _ \<Rightarrow> y)"
  by (cases ys) auto

lemma climb_from_right_null [simp]: "climb_from_right t ch NULL_INDEX = Some NULL_INDEX"
  by (subst climb_from_right.simps) simp

lemma climb_from_left_null [simp]: "climb_from_left t ch NULL_INDEX = Some NULL_INDEX"
  by (subst climb_from_left.simps) simp

lemma successor_repr:
  "repr t p r T \<Longrightarrow> distinct (inorder T) \<Longrightarrow> i \<in> set_tree T \<Longrightarrow>
     index_of_successor_at t i
       = (if i = last (inorder T) then climb_from_right t r p
          else Some (next_in (inorder T) i))"
proof (induction T arbitrary: p r)
  case Leaf
  then show ?case by simp
next
  case (Node l a rr)
  have ra: "r = a" and a: "a \<noteq> NULL_INDEX" "contains_at t a" "parent_of t a = p"
    and l: "repr t a (left_of t a) l" and rp: "repr t a (right_of t a) rr"
    using Node.prems(1) by auto
  have d: "distinct (inorder l)" "distinct (inorder rr)" "a \<notin> set_tree l" "a \<notin> set_tree rr"
    "set_tree l \<inter> set_tree rr = {}"
    using Node.prems(2) by auto
  consider "i = a" | "i \<in> set_tree l" "i \<noteq> a" | "i \<in> set_tree rr" "i \<noteq> a"
    using Node.prems(3) by auto
  then show ?case
  proof cases
    case 1
    show ?thesis
    proof (cases rr)
      case Leaf
      then have "right_of t a = NULL_INDEX" using rp by simp
      then show ?thesis
        using 1 Leaf a ra by (simp add: index_of_successor_at_def)
    next
      case (Node r1 b r2)
      then have n: "right_of t a \<noteq> NULL_INDEX" "rr \<noteq> Leaf" "inorder rr \<noteq> []"
        using rp by auto
      have "a \<noteq> last (inorder rr)" using d n(3) last_in_set[of "inorder rr"] by auto
      moreover have "next_in (inorder l @ a # inorder rr) a = hd (inorder rr)"
        using d n(3) by (simp add: next_in_append_right next_in_Cons_hd split: list.splits)
      ultimately show ?thesis
        using 1 a n leftmost_repr[OF rp n(2)] by (simp add: index_of_successor_at_def)
    qed
  next
    case 2
    have il: "inorder l \<noteq> []" using 2 by auto
    have nl: "i \<noteq> last (inorder (Node l a rr))"
    proof (cases "inorder rr = []")
      case True
      then show ?thesis using 2 by simp
    next
      case False
      then have "last (inorder rr) \<in> set (inorder rr)" by (rule last_in_set)
      moreover have "last (inorder (Node l a rr)) = last (inorder rr)" using False by simp
      ultimately have "last (inorder (Node l a rr)) \<in> set_tree rr" by simp
      then show ?thesis using 2 d by auto
    qed
    have ll: "left_of t a = root_idx l" using repr_root[OF l] .
    obtain l1 b l2 where lb: "l = Node l1 b l2" using 2(1) by (cases l) auto
    then have lne: "left_of t a \<noteq> right_of t a"
      using l rp d by (cases rr) auto
    show ?thesis
    proof (cases "i = last (inorder l)")
      case True
      have "climb_from_right t (left_of t a) a = Some a"
        using a lne by (subst climb_from_right.simps) simp
      moreover have "next_in (inorder l @ a # inorder rr) i = a"
        using next_in_append_last[OF il d(1), of "a # inorder rr"] True by simp
      ultimately show ?thesis
        using Node.IH(1)[OF l d(1) 2(1)] True nl by simp
    next
      case False
      then show ?thesis
        using Node.IH(1)[OF l d(1) 2(1)] nl next_in_append_left[of i "inorder l"] 2 by simp
    qed
  next
    case 3
    have irr: "inorder rr \<noteq> []" using 3 by auto
    have il: "i \<notin> set (inorder l)" using 3 d by auto
    have n: "next_in (inorder l @ a # inorder rr) i = next_in (inorder rr) i"
      using il 3 by (simp add: next_in_append_right) (cases "inorder rr"; simp)
    have c: "climb_from_right t (right_of t a) a = climb_from_right t a p"
      using a by (subst climb_from_right.simps) simp
    show ?thesis
      using Node.IH(2)[OF rp d(2) 3(1)] n c irr ra by simp
  qed
qed

lemma predecessor_repr:
  "repr t p r T \<Longrightarrow> distinct (inorder T) \<Longrightarrow> i \<in> set_tree T \<Longrightarrow>
     index_of_predecessor_at t i
       = (if i = hd (inorder T) then climb_from_left t r p
          else Some (prev_in (inorder T) i))"
proof (induction T arbitrary: p r)
  case Leaf
  then show ?case by simp
next
  case (Node l a rr)
  have ra: "r = a" and a: "a \<noteq> NULL_INDEX" "contains_at t a" "parent_of t a = p"
    and l: "repr t a (left_of t a) l" and rp: "repr t a (right_of t a) rr"
    using Node.prems(1) by auto
  have d: "distinct (inorder l)" "distinct (inorder rr)" "a \<notin> set_tree l" "a \<notin> set_tree rr"
    "set_tree l \<inter> set_tree rr = {}"
    using Node.prems(2) by auto
  have rev: "rev (inorder (Node l a rr)) = rev (inorder rr) @ a # rev (inorder l)" by simp
  consider "i = a" | "i \<in> set_tree rr" "i \<noteq> a" | "i \<in> set_tree l" "i \<noteq> a"
    using Node.prems(3) by auto
  then show ?case
  proof cases
    case 1
    show ?thesis
    proof (cases l)
      case Leaf
      then have "left_of t a = NULL_INDEX" using l by simp
      then show ?thesis
        using 1 Leaf a ra by (simp add: index_of_predecessor_at_def)
    next
      case (Node l1 b l2)
      then have n: "left_of t a \<noteq> NULL_INDEX" "l \<noteq> Leaf" "inorder l \<noteq> []"
        using l by auto
      have "a \<noteq> hd (inorder l)" using d n(3) hd_in_set[of "inorder l"] by auto
      then have "a \<noteq> hd (inorder l @ a # inorder rr)" using n(3) by simp
      moreover have "next_in (rev (inorder rr) @ a # rev (inorder l)) a = last (inorder l)"
        using d n(3) by (simp add: next_in_append_right next_in_Cons_hd hd_rev split: list.splits)
      ultimately show ?thesis
        using 1 a n rightmost_repr[OF l n(2)]
        by (simp add: index_of_predecessor_at_def prev_in_def)
    qed
  next
    case 2
    have irr: "inorder rr \<noteq> []" using 2 by auto
    have nh: "i \<noteq> hd (inorder (Node l a rr))"
    proof (cases "inorder l = []")
      case True
      then show ?thesis using 2 by simp
    next
      case False
      then have "hd (inorder l) \<in> set (inorder l)" by (rule hd_in_set)
      moreover have "hd (inorder (Node l a rr)) = hd (inorder l)" using False by simp
      ultimately have "hd (inorder (Node l a rr)) \<in> set_tree l" by simp
      then show ?thesis using 2 d by auto
    qed
    obtain r1 b r2 where rb: "rr = Node r1 b r2" using 2(1) by (cases rr) auto
    then have lne: "right_of t a \<noteq> left_of t a"
      using l rp d by (cases l) auto
    have rr: "right_of t a = root_idx rr" using repr_root[OF rp] .
    show ?thesis
    proof (cases "i = hd (inorder rr)")
      case True
      have "climb_from_left t (right_of t a) a = Some a"
        using a lne by (subst climb_from_left.simps) simp
      moreover have "next_in (rev (inorder rr) @ a # rev (inorder l)) i = a"
        using next_in_append_last[of "rev (inorder rr)" "a # rev (inorder l)"] d irr True
        by (simp add: last_rev)
      ultimately show ?thesis
        using Node.IH(2)[OF rp d(2) 2(1)] True nh by (simp add: prev_in_def)
    next
      case False
      then have "i \<noteq> last (rev (inorder rr))" using irr by (simp add: last_rev)
      then show ?thesis
        using Node.IH(2)[OF rp d(2) 2(1)] nh False
          next_in_append_left[of i "rev (inorder rr)" "a # rev (inorder l)"] 2
        by (simp add: prev_in_def)
    qed
  next
    case 3
    have il: "inorder l \<noteq> []" using 3 by auto
    have ir: "i \<notin> set (rev (inorder rr))" using 3 d by auto
    have n: "next_in (rev (inorder rr) @ a # rev (inorder l)) i = next_in (rev (inorder l)) i"
      using ir 3 by (simp add: next_in_append_right) (cases "rev (inorder l)"; simp)
    have c: "climb_from_left t (left_of t a) a = climb_from_left t a p"
      using a by (subst climb_from_left.simps) simp
    show ?thesis
      using Node.IH(1)[OF l d(1) 3(1)] n c il ra by (simp add: prev_in_def)
  qed
qed

lemma linked_min:
  "linked t T \<Longrightarrow> index_of_min_at t = Some (case inorder T of [] \<Rightarrow> NULL_INDEX | x # _ \<Rightarrow> x)"
proof -
  assume l: "linked t T"
  then have r: "repr t NULL_INDEX (root_index t) T" by (simp add: linked_def)
  show ?thesis
  proof (cases T)
    case Leaf
    then show ?thesis using r by (simp add: index_of_min_at_def)
  next
    case (Node l1 a l2)
    then have "root_index t \<noteq> NULL_INDEX" "T \<noteq> Leaf" "inorder T \<noteq> []" using r by auto
    then show ?thesis
      using leftmost_repr[OF r] by (auto simp: index_of_min_at_def split: list.splits)
  qed
qed

lemma linked_max:
  "linked t T \<Longrightarrow> index_of_max_at t = Some (if inorder T = [] then NULL_INDEX else last (inorder T))"
proof -
  assume l: "linked t T"
  then have r: "repr t NULL_INDEX (root_index t) T" by (simp add: linked_def)
  show ?thesis
  proof (cases T)
    case Leaf
    then show ?thesis using r by (simp add: index_of_max_at_def)
  next
    case (Node l1 a l2)
    then have "root_index t \<noteq> NULL_INDEX" "T \<noteq> Leaf" "inorder T \<noteq> []" using r by auto
    then show ?thesis
      using rightmost_repr[OF r] by (auto simp: index_of_max_at_def)
  qed
qed

lemma linked_successor:
  assumes "linked t T"
  shows "index_of_successor_at t i = Some (next_in (inorder T) i)"
proof (cases "contains_at t i")
  case False
  then have "i \<notin> set (inorder T)" using assms by (auto simp: linked_def)
  then show ?thesis using False by (simp add: index_of_successor_at_def)
next
  case True
  then have i: "i \<in> set_tree T" using assms by (auto simp: linked_def)
  have r: "repr t NULL_INDEX (root_index t) T" and d: "distinct (inorder T)"
    using assms by (auto simp: linked_def)
  have "inorder T \<noteq> []" using i by auto
  then show ?thesis
    using successor_repr[OF r d i] next_in_last[OF d] by auto
qed

lemma prev_in_hd: "distinct xs \<Longrightarrow> xs \<noteq> [] \<Longrightarrow> prev_in xs (hd xs) = NULL_INDEX"
  using next_in_last[of "rev xs"] by (simp add: prev_in_def last_rev)

lemma linked_predecessor:
  assumes "linked t T"
  shows "index_of_predecessor_at t i = Some (prev_in (inorder T) i)"
proof (cases "contains_at t i")
  case False
  then have "i \<notin> set (inorder T)" using assms by (auto simp: linked_def)
  then show ?thesis using False by (simp add: index_of_predecessor_at_def prev_in_def)
next
  case True
  then have i: "i \<in> set_tree T" using assms by (auto simp: linked_def)
  have r: "repr t NULL_INDEX (root_index t) T" and d: "distinct (inorder T)"
    using assms by (auto simp: linked_def)
  have "inorder T \<noteq> []" using i by auto
  then show ?thesis
    using predecessor_repr[OF r d i] prev_in_hd[OF d] by auto
qed

section \<open>Example maps\<close>

text \<open>The empty map of capacity 4 over natural-number keys, and the map after
  \<^verbatim>\<open>insert({2, 20})\<close> and \<^verbatim>\<open>insert({4, 40})\<close>.\<close>
definition empty_map4 :: "(nat, nat) FixedMap" where
  "empty_map4 =
     \<lparr>map_tree = \<lparr>comparator = (<), slots = [None, None, None, None],
                  root_index = NULL_INDEX\<rparr>\<rparr>"

definition map_2_4 :: "(nat, nat) FixedMap" where
  "map_2_4 =
     \<lparr>map_tree =
        \<lparr>comparator = (<),
         slots = [Some \<lparr>node_key = 2, node_value = 20, parent_index = NULL_INDEX,
                        left_index = NULL_INDEX, right_index = 1, node_color = BLACK\<rparr>,
                  Some \<lparr>node_key = 4, node_value = 40, parent_index = 0,
                        left_index = NULL_INDEX, right_index = NULL_INDEX, node_color = RED\<rparr>,
                  None, None],
         root_index = 0\<rparr>\<rparr>"

lemmas arena_defs = NULL_INDEX_def CAPACITY_def node_at_def contains_at_def left_of_def
  right_of_def parent_of_def color_of_def key_of_def value_of_def update_node_def set_left_def
  set_right_def set_parent_def set_color_def set_entry_def set_value_def free_index_def
  emplace_at_def release_def tree_size_def tree_empty_def tree_full_def

lemmas invariant_defs = red_black_invariants_def well_linked_def shape_def bst_order_def
  root_black_def no_red_red_def

lemma map_2_4_is_insert:
  "insert_range 0 empty_map4 [(2, 20), (4, 40)] = Some (Inr map_2_4)"
  by (simp add: empty_map4_def map_2_4_def insert_fm_def index_of_node_with_parent_def
      index_of_node_with_parent_loop.simps insert_new_at_def fix_after_insertion_def
      fix_after_insertion_loop.simps arena_defs Let_def)

lemma map_2_4_invariants: "red_black_invariants (map_tree map_2_4)"
  by (simp add: map_2_4_def invariant_defs arena_defs)

lemma empty_map4_invariants: "red_black_invariants (map_tree empty_map4)"
  by (simp add: empty_map4_def invariant_defs arena_defs)

section \<open>begin() and end()\<close>

lemma contains_at_CAPACITY [simp]: "\<not> contains_at t (CAPACITY t)"
  using contains_at_less[of t "CAPACITY t"] by auto

lemma current_index_create_iterator [simp]:
  "current_index (reference_provider (create_iterator this m i))
     = replace_null_index_with_capacity_for_end_iterator (max_size m) i"
  by (simp add: create_iterator_def forward_iterator_def PairProvider_ctor_def update_storage_def
      Let_def)

lemma provider_tree_create_iterator [simp]:
  "provider_tree (reference_provider (create_iterator this m i)) = Some this"
  by (simp add: create_iterator_def forward_iterator_def PairProvider_ctor_def update_storage_def
      Let_def)

lemma empty_iff_size: "empty_fm m \<longleftrightarrow> size_fm m = 0"
  by (simp add: empty_fm_def size_fm_def tree_empty_def)

text \<open>
  C10. For every map whose links are consistent, \<^verbatim>\<open>begin() == end()\<close> holds if and only if
  the map is empty (\<^verbatim>\<open>size() == 0\<close>, which is what \<^verbatim>\<open>empty()\<close> tests): on an empty map the
  minimum-index lookup yields the null index, which \<^verbatim>\<open>begin()\<close> replaces with the \<^verbatim>\<open>CAPACITY\<close>
  end sentinel; on a non-empty map \<^verbatim>\<open>begin()\<close> stands on an occupied slot, below \<^verbatim>\<open>CAPACITY\<close>.
\<close>
theorem begin_equals_end_iff_empty:
  assumes "well_linked (map_tree m)"
  shows "\<exists>b. begin_it this m = Some b
           \<and> (iterator_equal b (end_it this m) \<longleftrightarrow> size_fm m = 0)
           \<and> (size_fm m = 0 \<longleftrightarrow> empty_fm m)
           \<and> (size_fm m = 0 \<longrightarrow>
                index_of_min_at (map_tree m) = Some NULL_INDEX
                \<and> current_index (reference_provider b) = max_size m)
           \<and> (size_fm m \<noteq> 0 \<longrightarrow> contains_at (map_tree m) (current_index (reference_provider b)))"
proof -
  let ?t = "map_tree m" and ?T = "shape (map_tree m)"
  have l: "linked ?t ?T" and cap: "CAPACITY ?t < NULL_INDEX"
    using assms by (simp_all add: well_linked_iff)
  have sz: "size_fm m = size ?T" using linked_size[OF l] by (simp add: size_fm_def)
  have mn: "index_of_min_at ?t = Some (case inorder ?T of [] \<Rightarrow> NULL_INDEX | x # _ \<Rightarrow> x)"
    by (rule linked_min[OF l])
  show ?thesis
  proof (cases "inorder ?T")
    case Nil
    then have "size ?T = 0" by (metis length_inorder list.size(3))
    then show ?thesis
      using mn Nil sz cap
      by (simp add: begin_it_def end_it_def iterator_equal_def provider_equal_def empty_iff_size
          replace_null_index_with_capacity_for_end_iterator_def max_size_def)
  next
    case (Cons x xs)
    then have "x \<in> set (inorder ?T)" by simp
    then have x: "contains_at ?t x" using l by (simp add: linked_def)
    then have xl: "x < CAPACITY ?t" by (rule contains_at_less)
    have "size ?T \<noteq> 0" using Cons by (metis length_inorder list.size(3) list.distinct(1) length_0_conv)
    then show ?thesis
      using mn Cons sz cap x xl
      by (simp add: begin_it_def end_it_def iterator_equal_def provider_equal_def empty_iff_size
          replace_null_index_with_capacity_for_end_iterator_def max_size_def)
  qed
qed

theorem begin_equals_end_iff_empty_witness:
  "well_linked (map_tree map_2_4) \<and> well_linked (map_tree empty_map4)
   \<and> (\<exists>b. begin_it 0 map_2_4 = Some b \<and> \<not> iterator_equal b (end_it 0 map_2_4)
          \<and> size_fm map_2_4 = 2)
   \<and> (\<exists>b. begin_it 0 empty_map4 = Some b \<and> iterator_equal b (end_it 0 empty_map4)
          \<and> size_fm empty_map4 = 0)"
proof -
  have w1: "well_linked (map_tree map_2_4)"
    by (simp add: map_2_4_def well_linked_def shape_def arena_defs)
  have w2: "well_linked (map_tree empty_map4)"
    by (simp add: empty_map4_def well_linked_def shape_def arena_defs)
  have s1: "size_fm map_2_4 = 2" by (simp add: map_2_4_def size_fm_def tree_size_def)
  have s2: "size_fm empty_map4 = 0" by (simp add: empty_map4_def size_fm_def tree_size_def)
  show ?thesis
    using begin_equals_end_iff_empty[OF w1, of 0] begin_equals_end_iff_empty[OF w2, of 0]
      w1 w2 s1 s2
    by auto
qed

section \<open>Rotations\<close>

lemma linked_child_size:
  assumes "linked t T" "contains_at t i"
  shows "left_of t i \<noteq> NULL_INDEX \<Longrightarrow>
           size (subtree_at (left_of t i) T) < size (subtree_at i T)"
    and "right_of t i \<noteq> NULL_INDEX \<Longrightarrow>
           size (subtree_at (right_of t i) T) < size (subtree_at i T)"
  using linked_subtree(1)[OF assms] by auto

lemma linked_parent_notin_subtree:
  assumes "linked t T" "contains_at t i"
  shows "parent_of t i \<notin> set_tree (subtree_at i T)"
proof (cases "i = root_index t")
  case True
  then have "parent_of t i = NULL_INDEX" using linked_parent(1)[OF assms] by simp
  moreover have "NULL_INDEX \<notin> set_tree T" using assms(1) linked_null[OF assms(1)]
    by (auto simp: linked_def)
  ultimately show ?thesis using set_subtree_at[of i T] by auto
next
  case False
  let ?p = "parent_of t i"
  have c: "contains_at t ?p" and ch: "left_of t ?p = i \<or> right_of t ?p = i"
    using linked_parent(2)[OF assms] False by auto
  have S: "subtree_at ?p T = Node (subtree_at (left_of t ?p) T) ?p (subtree_at (right_of t ?p) T)"
    and d: "distinct (inorder (subtree_at ?p T))"
    using linked_subtree(1,3)[OF assms(1) c] by auto
  have "distinct (inorder (Node (subtree_at (left_of t ?p) T) ?p (subtree_at (right_of t ?p) T)))"
    using S d by simp
  then have "?p \<notin> set_tree (subtree_at (left_of t ?p) T)"
    "?p \<notin> set_tree (subtree_at (right_of t ?p) T)"
    by auto
  then show ?thesis using ch by auto
qed

lemma subtree_at_root: "subtree_at (root_idx T) T = T"
  by (cases T) auto

lemma rotate_left_getters:
  assumes "contains_at t x" "contains_at t y" "right_of t x = y" "x \<noteq> y"
    and "parent_of t x \<noteq> x" "parent_of t x \<noteq> y"
    and "left_of t y \<noteq> x" "left_of t y \<noteq> y"
    and "left_of t y = NULL_INDEX \<or> left_of t y \<noteq> parent_of t x"
    and "\<not> contains_at t NULL_INDEX"
    and "parent_of t x = NULL_INDEX \<or> contains_at t (parent_of t x)"
    and "left_of t y = NULL_INDEX \<or> contains_at t (left_of t y)"
  shows "contains_at (rotate_left t x) j = contains_at t j"
    and "color_of (rotate_left t x) j = color_of t j"
    and "key_of (rotate_left t x) j = key_of t j"
    and "value_of (rotate_left t x) j = value_of t j"
    and "comparator (rotate_left t x) = comparator t"
    and "CAPACITY (rotate_left t x) = CAPACITY t"
    and "tree_size (rotate_left t x) = tree_size t"
    and "root_index (rotate_left t x) = (if parent_of t x = NULL_INDEX then y else root_index t)"
    and "left_of (rotate_left t x) j =
           (if j = y then x
            else if j = parent_of t x \<and> j \<noteq> NULL_INDEX \<and> left_of t j = x then y
            else left_of t j)"
    and "right_of (rotate_left t x) j =
           (if j = x then left_of t y
            else if j = parent_of t x \<and> j \<noteq> NULL_INDEX \<and> left_of t j \<noteq> x then y
            else right_of t j)"
    and "parent_of (rotate_left t x) j =
           (if j = x then y else if j = y then parent_of t x
            else if j = left_of t y \<and> j \<noteq> NULL_INDEX then x
            else parent_of t j)"
  using assms by (auto simp: rotate_left_def Let_def)

lemma rotate_right_getters:
  assumes "contains_at t x" "contains_at t y" "left_of t x = y" "x \<noteq> y"
    and "parent_of t x \<noteq> x" "parent_of t x \<noteq> y"
    and "right_of t y \<noteq> x" "right_of t y \<noteq> y"
    and "right_of t y = NULL_INDEX \<or> right_of t y \<noteq> parent_of t x"
    and "\<not> contains_at t NULL_INDEX"
    and "parent_of t x = NULL_INDEX \<or> contains_at t (parent_of t x)"
    and "right_of t y = NULL_INDEX \<or> contains_at t (right_of t y)"
  shows "contains_at (rotate_right t x) j = contains_at t j"
    and "color_of (rotate_right t x) j = color_of t j"
    and "key_of (rotate_right t x) j = key_of t j"
    and "value_of (rotate_right t x) j = value_of t j"
    and "comparator (rotate_right t x) = comparator t"
    and "CAPACITY (rotate_right t x) = CAPACITY t"
    and "tree_size (rotate_right t x) = tree_size t"
    and "root_index (rotate_right t x) = (if parent_of t x = NULL_INDEX then y else root_index t)"
    and "right_of (rotate_right t x) j =
           (if j = y then x
            else if j = parent_of t x \<and> j \<noteq> NULL_INDEX \<and> right_of t j = x then y
            else right_of t j)"
    and "left_of (rotate_right t x) j =
           (if j = x then right_of t y
            else if j = parent_of t x \<and> j \<noteq> NULL_INDEX \<and> right_of t j \<noteq> x then y
            else left_of t j)"
    and "parent_of (rotate_right t x) j =
           (if j = x then y else if j = y then parent_of t x
            else if j = right_of t y \<and> j \<noteq> NULL_INDEX then x
            else parent_of t j)"
  using assms by (auto simp: rotate_right_def Let_def)


lemma rotate_left_pre:
  assumes "linked t T" "contains_at t x" "right_of t x \<noteq> NULL_INDEX"
  shows "contains_at t (right_of t x)" and "x \<noteq> right_of t x"
    and "parent_of t x \<noteq> x" and "parent_of t x \<noteq> right_of t x"
    and "left_of t (right_of t x) \<noteq> x" and "left_of t (right_of t x) \<noteq> right_of t x"
    and "left_of t (right_of t x) = NULL_INDEX \<or> left_of t (right_of t x) \<noteq> parent_of t x"
    and "\<not> contains_at t NULL_INDEX"
    and "parent_of t x = NULL_INDEX \<or> contains_at t (parent_of t x)"
    and "left_of t (right_of t x) = NULL_INDEX \<or> contains_at t (left_of t (right_of t x))"
    and "parent_of t (right_of t x) = x"
proof -
  let ?y = "right_of t x" and ?p = "parent_of t x"
  let ?sz = "\<lambda>i. size (subtree_at i T)"
  show y: "contains_at t ?y" and py: "parent_of t ?y = x"
    using linked_children(2)[OF assms(1,2)] assms(3) by auto
  show xy: "x \<noteq> ?y" using linked_children(4)[OF assms(1,2)] by simp
  show "?p \<noteq> x" using linked_parent(3)[OF assms(1,2)] .
  show nn: "\<not> contains_at t NULL_INDEX" using linked_null[OF assms(1)] .
  show pc: "?p = NULL_INDEX \<or> contains_at t ?p"
    using linked_parent(1,2)[OF assms(1,2)] by auto
  have syx: "?sz ?y < ?sz x" using linked_child_size(2)[OF assms(1,2)] assms(3) by simp
  have sxp: "?sz x < ?sz ?p" if "?p \<noteq> NULL_INDEX"
    using linked_size_parent[OF assms(1,2)] linked_parent(1)[OF assms(1,2)] that by auto
  show "?p \<noteq> ?y"
  proof
    assume e: "?p = ?y"
    then have "?p \<noteq> NULL_INDEX" using assms(3) by simp
    from sxp[OF this] syx e show False by simp
  qed
  show "left_of t ?y \<noteq> ?y" using linked_children(3)[OF assms(1) y] .
  show bc: "left_of t ?y = NULL_INDEX \<or> contains_at t (left_of t ?y)"
    using linked_children(1)[OF assms(1) y] by auto
  have sby: "?sz (left_of t ?y) < ?sz ?y" if "left_of t ?y \<noteq> NULL_INDEX"
    using linked_child_size(1)[OF assms(1) y] that by simp
  show "left_of t ?y \<noteq> x"
  proof
    assume e: "left_of t ?y = x"
    then have "left_of t ?y \<noteq> NULL_INDEX" using assms(2) nn by auto
    from sby[OF this] syx e show False by simp
  qed
  show "left_of t ?y = NULL_INDEX \<or> left_of t ?y \<noteq> ?p"
  proof (cases "left_of t ?y = NULL_INDEX")
    case True
    then show ?thesis by simp
  next
    case False
    have "left_of t ?y \<noteq> ?p"
    proof
      assume e: "left_of t ?y = ?p"
      then have "?p \<noteq> NULL_INDEX" using False by simp
      from sxp[OF this] sby[OF False] syx e show False by simp
    qed
    then show ?thesis by simp
  qed
qed

lemma rotate_left_linked:
  assumes "linked t T" "contains_at t x" "right_of t x \<noteq> NULL_INDEX"
  shows "\<exists>T'. linked (rotate_left t x) T' \<and> inorder T' = inorder T"
proof -
  let ?y = "right_of t x" and ?p = "parent_of t x" and ?t' = "rotate_left t x"
  let ?b = "left_of t (right_of t x)"
  note pre = rotate_left_pre[OF assms]
  note g = rotate_left_getters[OF assms(2) pre(1) refl pre(2) pre(3) pre(4) pre(5) pre(6) pre(7)
      pre(8) pre(9) pre(10)]
  have r: "repr t NULL_INDEX (root_index t) T" and d: "distinct (inorder T)"
    and s: "set_tree T = {i. contains_at t i}"
    using assms(1) by (auto simp: linked_def)
  have xT: "x \<in> set_tree T" using s assms(2) by simp
  define A where "A = subtree_at (left_of t x) T"
  define B where "B = subtree_at ?b T"
  define C where "C = subtree_at (right_of t ?y) T"
  have Sx: "subtree_at x T = Node A x (subtree_at ?y T)"
    using linked_subtree(1)[OF assms(1,2)] by (simp add: A_def)
  have Sy: "subtree_at ?y T = Node B ?y C"
    using linked_subtree(1)[OF assms(1) pre(1)] by (simp add: B_def C_def)
  have S: "subtree_at x T = Node A x (Node B ?y C)" using Sx Sy by simp
  have rS: "repr t ?p x (Node A x (Node B ?y C))"
    and dS: "distinct (inorder (Node A x (Node B ?y C)))"
    using linked_subtree(2,3)[OF assms(1,2)] S by simp_all
  have rA: "repr t x (left_of t x) A" and rB: "repr t ?y ?b B" and rC: "repr t ?y (right_of t ?y) C"
    using rS by auto
  have dis: "distinct (inorder A)" "distinct (inorder B)" "distinct (inorder C)"
    "x \<notin> set_tree A" "x \<notin> set_tree B" "x \<notin> set_tree C"
    "?y \<notin> set_tree A" "?y \<notin> set_tree B" "?y \<notin> set_tree C"
    "set_tree A \<inter> set_tree B = {}" "set_tree A \<inter> set_tree C = {}" "set_tree B \<inter> set_tree C = {}"
    using dS by auto
  have pS: "?p \<notin> set_tree A" "?p \<notin> set_tree B" "?p \<notin> set_tree C"
    using linked_parent_notin_subtree[OF assms(1,2)] S by auto
  have bB: "?b = NULL_INDEX \<or> ?b \<in> set_tree B"
    using rB by (cases B) auto
  have nA: "NULL_INDEX \<notin> set_tree A" using repr_contains[OF rA] by blast
  have nB: "NULL_INDEX \<notin> set_tree B" using repr_contains[OF rB] by blast
  have nC: "NULL_INDEX \<notin> set_tree C" using repr_contains[OF rC] by blast
  have fA: "repr ?t' x (left_of t x) A"
  proof (rule repr_frame[OF rA dis(1)])
    fix j assume j: "j \<in> set_tree A"
    then have "j \<noteq> x" "j \<noteq> ?y" "j \<noteq> ?p" using dis pS by auto
    then show "contains_at ?t' j \<and> left_of ?t' j = left_of t j \<and> right_of ?t' j = right_of t j"
      using repr_contains[OF rA j] by (simp add: g)
  next
    fix j assume j: "j \<in> set_tree A" "j \<noteq> left_of t x"
    then have "j \<noteq> x" "j \<noteq> ?y" "j \<noteq> ?b" using dis bB nA by auto
    then show "parent_of ?t' j = parent_of t j" by (simp add: g)
  next
    assume n: "left_of t x \<noteq> NULL_INDEX"
    then have "left_of t x \<in> set_tree A" using rA by (cases A) auto
    then have "left_of t x \<noteq> x" "left_of t x \<noteq> ?y" "left_of t x \<noteq> ?b"
      using dis bB nA by auto
    then show "parent_of ?t' (left_of t x) = x"
      using linked_children(1)[OF assms(1,2)] n by (simp add: g)
  qed
  have fB: "repr ?t' x ?b B"
  proof (rule repr_frame[OF rB dis(2)])
    fix j assume j: "j \<in> set_tree B"
    then have "j \<noteq> x" "j \<noteq> ?y" "j \<noteq> ?p" using dis pS by auto
    then show "contains_at ?t' j \<and> left_of ?t' j = left_of t j \<and> right_of ?t' j = right_of t j"
      using repr_contains[OF rB j] by (simp add: g)
  next
    fix j assume j: "j \<in> set_tree B" "j \<noteq> ?b"
    then have "j \<noteq> x" "j \<noteq> ?y" using dis by auto
    then show "parent_of ?t' j = parent_of t j" using j by (simp add: g)
  next
    assume n: "?b \<noteq> NULL_INDEX"
    then show "parent_of ?t' ?b = x" using pre by (simp add: g)
  qed
  have fC: "repr ?t' ?y (right_of t ?y) C"
  proof (rule repr_frame[OF rC dis(3)])
    fix j assume j: "j \<in> set_tree C"
    then have "j \<noteq> x" "j \<noteq> ?y" "j \<noteq> ?p" using dis pS by auto
    then show "contains_at ?t' j \<and> left_of ?t' j = left_of t j \<and> right_of ?t' j = right_of t j"
      using repr_contains[OF rC j] by (simp add: g)
  next
    fix j assume j: "j \<in> set_tree C" "j \<noteq> right_of t ?y"
    then have "j \<noteq> x" "j \<noteq> ?y" "j \<noteq> ?b" using dis bB nC by auto
    then show "parent_of ?t' j = parent_of t j" by (simp add: g)
  next
    assume n: "right_of t ?y \<noteq> NULL_INDEX"
    then have "right_of t ?y \<in> set_tree C" using rC by (cases C) auto
    then have "right_of t ?y \<noteq> x" "right_of t ?y \<noteq> ?y" "right_of t ?y \<noteq> ?b"
      using dis bB nC by auto
    then show "parent_of ?t' (right_of t ?y) = ?y"
      using linked_children(2)[OF assms(1) pre(1)] n by (simp add: g)
  qed
  have xn: "x \<noteq> NULL_INDEX" "?y \<noteq> NULL_INDEX" using assms(2,3) pre(8) by auto
  have rS': "repr ?t' ?p ?y (Node (Node A x B) ?y C)"
  proof -
    have "left_of ?t' ?y = x" "right_of ?t' ?y = right_of t ?y" "parent_of ?t' ?y = ?p"
      "left_of ?t' x = left_of t x" "right_of ?t' x = ?b" "parent_of ?t' x = ?y"
      "contains_at ?t' x" "contains_at ?t' ?y"
      using pre assms(2) by (simp_all add: g)
    then show ?thesis using fA fB fC xn by simp
  qed
  have out: "contains_at ?t' j \<and> parent_of ?t' j = parent_of t j
           \<and> left_of ?t' j = (if left_of t j = x then ?y else left_of t j)
           \<and> right_of ?t' j = (if right_of t j = x then ?y else right_of t j)"
    if j: "j \<in> set_tree T" "j \<notin> set_tree (subtree_at x T)" for j
  proof -
    have jc: "contains_at t j" using j s by simp
    have jn: "j \<noteq> x" "j \<noteq> ?y" using j S by auto
    have jb: "j \<noteq> ?b \<or> ?b = NULL_INDEX" using j S bB by auto
    have lx: "left_of t j = x \<Longrightarrow> j = ?p"
      using linked_children(1)[OF assms(1) jc] xn by auto
    have rx: "right_of t j = x \<Longrightarrow> j = ?p"
      using linked_children(2)[OF assms(1) jc] xn by auto
    have lr: "left_of t j = x \<Longrightarrow> right_of t j \<noteq> x"
      using linked_children(5)[OF assms(1) jc] xn by auto
    have px: "j = ?p \<Longrightarrow> left_of t j = x \<or> right_of t j = x"
      using linked_parent(1,2)[OF assms(1,2)] jc pre(8) by auto
    have jnn: "j \<noteq> NULL_INDEX" using jc pre(8) by auto
    have 1: "contains_at ?t' j" using jc by (simp add: g(1))
    have 2: "parent_of ?t' j = parent_of t j"
      using jn jb jnn by (auto simp: g(11))
    have 3: "left_of ?t' j = (if left_of t j = x then ?y else left_of t j)"
    proof (cases "j = ?p")
      case True
      then show ?thesis using jn jnn by (simp add: g(9))
    next
      case False
      then have "left_of t j \<noteq> x" using lx by blast
      then show ?thesis using False jn by (simp add: g(9))
    qed
    have 4: "right_of ?t' j = (if right_of t j = x then ?y else right_of t j)"
    proof (cases "j = ?p")
      case True
      then show ?thesis using jn jnn px lr by (auto simp: g(10))
    next
      case False
      then have "right_of t j \<noteq> x" using rx by blast
      then show ?thesis using False jn by (simp add: g(10))
    qed
    show ?thesis using 1 2 3 4 by simp
  qed
  have rT': "repr ?t' NULL_INDEX (if root_index t = x then ?y else root_index t)
               (replace_at x (Node (Node A x B) ?y C) T)"
  proof (rule repr_replace_at[OF r d xT rS'])
    fix j assume "j \<in> set_tree T" "j \<notin> set_tree (subtree_at x T)"
    then show "contains_at ?t' j \<and> parent_of ?t' j = parent_of t j
           \<and> left_of ?t' j = (if left_of t j = x then ?y else left_of t j)
           \<and> right_of ?t' j = (if right_of t j = x then ?y else right_of t j)"
      by (rule out)
  qed
  have root: "root_index ?t' = (if root_index t = x then ?y else root_index t)"
    using linked_parent(1,2)[OF assms(1,2)] pre(8) by (auto simp: g)
  obtain pre' post where
    pp: "inorder T = pre' @ inorder (subtree_at x T) @ post"
        "\<forall>S. inorder (replace_at x S T) = pre' @ inorder S @ post"
    using inorder_replace_at[OF xT d] by blast
  have io: "inorder (replace_at x (Node (Node A x B) ?y C) T) = inorder T"
    using pp S by simp
  have "set_tree (replace_at x (Node (Node A x B) ?y C) T) = set_tree T"
    using io by (metis set_inorder)
  moreover have "{i. contains_at ?t' i} = {i. contains_at t i}"
    by (simp add: g(1))
  ultimately have "linked ?t' (replace_at x (Node (Node A x B) ?y C) T)"
    unfolding linked_def using rT' root io d s by simp
  then show ?thesis using io by blast
qed

lemma rotate_right_pre:
  assumes "linked t T" "contains_at t x" "left_of t x \<noteq> NULL_INDEX"
  shows "contains_at t (left_of t x)" and "x \<noteq> left_of t x"
    and "parent_of t x \<noteq> x" and "parent_of t x \<noteq> left_of t x"
    and "right_of t (left_of t x) \<noteq> x" and "right_of t (left_of t x) \<noteq> left_of t x"
    and "right_of t (left_of t x) = NULL_INDEX \<or> right_of t (left_of t x) \<noteq> parent_of t x"
    and "\<not> contains_at t NULL_INDEX"
    and "parent_of t x = NULL_INDEX \<or> contains_at t (parent_of t x)"
    and "right_of t (left_of t x) = NULL_INDEX \<or> contains_at t (right_of t (left_of t x))"
    and "parent_of t (left_of t x) = x"
proof -
  let ?y = "left_of t x" and ?p = "parent_of t x"
  let ?sz = "\<lambda>i. size (subtree_at i T)"
  show y: "contains_at t ?y" and py: "parent_of t ?y = x"
    using linked_children(1)[OF assms(1,2)] assms(3) by auto
  show xy: "x \<noteq> ?y" using linked_children(3)[OF assms(1,2)] by simp
  show "?p \<noteq> x" using linked_parent(3)[OF assms(1,2)] .
  show nn: "\<not> contains_at t NULL_INDEX" using linked_null[OF assms(1)] .
  show pc: "?p = NULL_INDEX \<or> contains_at t ?p"
    using linked_parent(1,2)[OF assms(1,2)] by auto
  have syx: "?sz ?y < ?sz x" using linked_child_size(1)[OF assms(1,2)] assms(3) by simp
  have sxp: "?sz x < ?sz ?p" if "?p \<noteq> NULL_INDEX"
    using linked_size_parent[OF assms(1,2)] linked_parent(1)[OF assms(1,2)] that by auto
  show "?p \<noteq> ?y"
  proof
    assume e: "?p = ?y"
    then have "?p \<noteq> NULL_INDEX" using assms(3) by simp
    from sxp[OF this] syx e show False by simp
  qed
  show "right_of t ?y \<noteq> ?y" using linked_children(4)[OF assms(1) y] .
  show bc: "right_of t ?y = NULL_INDEX \<or> contains_at t (right_of t ?y)"
    using linked_children(2)[OF assms(1) y] by auto
  have sby: "?sz (right_of t ?y) < ?sz ?y" if "right_of t ?y \<noteq> NULL_INDEX"
    using linked_child_size(2)[OF assms(1) y] that by simp
  show "right_of t ?y \<noteq> x"
  proof
    assume e: "right_of t ?y = x"
    then have "right_of t ?y \<noteq> NULL_INDEX" using assms(2) nn by auto
    from sby[OF this] syx e show False by simp
  qed
  show "right_of t ?y = NULL_INDEX \<or> right_of t ?y \<noteq> ?p"
  proof (cases "right_of t ?y = NULL_INDEX")
    case True
    then show ?thesis by simp
  next
    case False
    have "right_of t ?y \<noteq> ?p"
    proof
      assume e: "right_of t ?y = ?p"
      then have "?p \<noteq> NULL_INDEX" using False by simp
      from sxp[OF this] sby[OF False] syx e show False by simp
    qed
    then show ?thesis by simp
  qed
qed

lemma rotate_right_linked:
  assumes "linked t T" "contains_at t x" "left_of t x \<noteq> NULL_INDEX"
  shows "\<exists>T'. linked (rotate_right t x) T' \<and> inorder T' = inorder T"
proof -
  let ?y = "left_of t x" and ?p = "parent_of t x" and ?t' = "rotate_right t x"
  let ?b = "right_of t (left_of t x)"
  note pre = rotate_right_pre[OF assms]
  note g = rotate_right_getters[OF assms(2) pre(1) refl pre(2) pre(3) pre(4) pre(5) pre(6) pre(7)
      pre(8) pre(9) pre(10)]
  have r: "repr t NULL_INDEX (root_index t) T" and d: "distinct (inorder T)"
    and s: "set_tree T = {i. contains_at t i}"
    using assms(1) by (auto simp: linked_def)
  have xT: "x \<in> set_tree T" using s assms(2) by simp
  define A where "A = subtree_at (right_of t x) T"
  define B where "B = subtree_at ?b T"
  define C where "C = subtree_at (left_of t ?y) T"
  have Sx: "subtree_at x T = Node (subtree_at ?y T) x A"
    using linked_subtree(1)[OF assms(1,2)] by (simp add: A_def)
  have Sy: "subtree_at ?y T = Node C ?y B"
    using linked_subtree(1)[OF assms(1) pre(1)] by (simp add: B_def C_def)
  have S: "subtree_at x T = Node (Node C ?y B) x A" using Sx Sy by simp
  have rS: "repr t ?p x (Node (Node C ?y B) x A)"
    and dS: "distinct (inorder (Node (Node C ?y B) x A))"
    using linked_subtree(2,3)[OF assms(1,2)] S by simp_all
  have rA: "repr t x (right_of t x) A" and rB: "repr t ?y ?b B" and rC: "repr t ?y (left_of t ?y) C"
    using rS by auto
  have dis: "distinct (inorder A)" "distinct (inorder B)" "distinct (inorder C)"
    "x \<notin> set_tree A" "x \<notin> set_tree B" "x \<notin> set_tree C"
    "?y \<notin> set_tree A" "?y \<notin> set_tree B" "?y \<notin> set_tree C"
    "set_tree A \<inter> set_tree B = {}" "set_tree A \<inter> set_tree C = {}" "set_tree B \<inter> set_tree C = {}"
    using dS by auto
  have pS: "?p \<notin> set_tree A" "?p \<notin> set_tree B" "?p \<notin> set_tree C"
    using linked_parent_notin_subtree[OF assms(1,2)] S by auto
  have bB: "?b = NULL_INDEX \<or> ?b \<in> set_tree B"
    using rB by (cases B) auto
  have nA: "NULL_INDEX \<notin> set_tree A" using repr_contains[OF rA] by blast
  have nB: "NULL_INDEX \<notin> set_tree B" using repr_contains[OF rB] by blast
  have nC: "NULL_INDEX \<notin> set_tree C" using repr_contains[OF rC] by blast
  have fA: "repr ?t' x (right_of t x) A"
  proof (rule repr_frame[OF rA dis(1)])
    fix j assume j: "j \<in> set_tree A"
    then have "j \<noteq> x" "j \<noteq> ?y" "j \<noteq> ?p" using dis pS by auto
    then show "contains_at ?t' j \<and> left_of ?t' j = left_of t j \<and> right_of ?t' j = right_of t j"
      using repr_contains[OF rA j] by (simp add: g)
  next
    fix j assume j: "j \<in> set_tree A" "j \<noteq> right_of t x"
    then have "j \<noteq> x" "j \<noteq> ?y" "j \<noteq> ?b" using dis bB nA by auto
    then show "parent_of ?t' j = parent_of t j" by (simp add: g)
  next
    assume n: "right_of t x \<noteq> NULL_INDEX"
    then have "right_of t x \<in> set_tree A" using rA by (cases A) auto
    then have "right_of t x \<noteq> x" "right_of t x \<noteq> ?y" "right_of t x \<noteq> ?b"
      using dis bB nA by auto
    then show "parent_of ?t' (right_of t x) = x"
      using linked_children(2)[OF assms(1,2)] n by (simp add: g)
  qed
  have fB: "repr ?t' x ?b B"
  proof (rule repr_frame[OF rB dis(2)])
    fix j assume j: "j \<in> set_tree B"
    then have "j \<noteq> x" "j \<noteq> ?y" "j \<noteq> ?p" using dis pS by auto
    then show "contains_at ?t' j \<and> left_of ?t' j = left_of t j \<and> right_of ?t' j = right_of t j"
      using repr_contains[OF rB j] by (simp add: g)
  next
    fix j assume j: "j \<in> set_tree B" "j \<noteq> ?b"
    then have "j \<noteq> x" "j \<noteq> ?y" using dis by auto
    then show "parent_of ?t' j = parent_of t j" using j by (simp add: g)
  next
    assume n: "?b \<noteq> NULL_INDEX"
    then show "parent_of ?t' ?b = x" using pre by (simp add: g)
  qed
  have fC: "repr ?t' ?y (left_of t ?y) C"
  proof (rule repr_frame[OF rC dis(3)])
    fix j assume j: "j \<in> set_tree C"
    then have "j \<noteq> x" "j \<noteq> ?y" "j \<noteq> ?p" using dis pS by auto
    then show "contains_at ?t' j \<and> left_of ?t' j = left_of t j \<and> right_of ?t' j = right_of t j"
      using repr_contains[OF rC j] by (simp add: g)
  next
    fix j assume j: "j \<in> set_tree C" "j \<noteq> left_of t ?y"
    then have "j \<noteq> x" "j \<noteq> ?y" "j \<noteq> ?b" using dis bB nC by auto
    then show "parent_of ?t' j = parent_of t j" by (simp add: g)
  next
    assume n: "left_of t ?y \<noteq> NULL_INDEX"
    then have "left_of t ?y \<in> set_tree C" using rC by (cases C) auto
    then have "left_of t ?y \<noteq> x" "left_of t ?y \<noteq> ?y" "left_of t ?y \<noteq> ?b"
      using dis bB nC by auto
    then show "parent_of ?t' (left_of t ?y) = ?y"
      using linked_children(1)[OF assms(1) pre(1)] n by (simp add: g)
  qed
  have xn: "x \<noteq> NULL_INDEX" "?y \<noteq> NULL_INDEX" using assms(2,3) pre(8) by auto
  have rS': "repr ?t' ?p ?y (Node C ?y (Node B x A))"
  proof -
    have "right_of ?t' ?y = x" "left_of ?t' ?y = left_of t ?y" "parent_of ?t' ?y = ?p"
      "right_of ?t' x = right_of t x" "left_of ?t' x = ?b" "parent_of ?t' x = ?y"
      "contains_at ?t' x" "contains_at ?t' ?y"
      using pre assms(2) by (simp_all add: g)
    then show ?thesis using fA fB fC xn by simp
  qed
  have out: "contains_at ?t' j \<and> parent_of ?t' j = parent_of t j
           \<and> left_of ?t' j = (if left_of t j = x then ?y else left_of t j)
           \<and> right_of ?t' j = (if right_of t j = x then ?y else right_of t j)"
    if j: "j \<in> set_tree T" "j \<notin> set_tree (subtree_at x T)" for j
  proof -
    have jc: "contains_at t j" using j s by simp
    have jn: "j \<noteq> x" "j \<noteq> ?y" using j S by auto
    have jb: "j \<noteq> ?b \<or> ?b = NULL_INDEX" using j S bB by auto
    have lx: "right_of t j = x \<Longrightarrow> j = ?p"
      using linked_children(2)[OF assms(1) jc] xn by auto
    have rx: "left_of t j = x \<Longrightarrow> j = ?p"
      using linked_children(1)[OF assms(1) jc] xn by auto
    have lr: "right_of t j = x \<Longrightarrow> left_of t j \<noteq> x"
      using linked_children(5)[OF assms(1) jc] xn by auto
    have px: "j = ?p \<Longrightarrow> right_of t j = x \<or> left_of t j = x"
      using linked_parent(1,2)[OF assms(1,2)] jc pre(8) by auto
    have jnn: "j \<noteq> NULL_INDEX" using jc pre(8) by auto
    have 1: "contains_at ?t' j" using jc by (simp add: g(1))
    have 2: "parent_of ?t' j = parent_of t j"
      using jn jb jnn by (auto simp: g(11))
    have 3: "right_of ?t' j = (if right_of t j = x then ?y else right_of t j)"
    proof (cases "j = ?p")
      case True
      then show ?thesis using jn jnn by (simp add: g(9))
    next
      case False
      then have "right_of t j \<noteq> x" using lx by blast
      then show ?thesis using False jn by (simp add: g(9))
    qed
    have 4: "left_of ?t' j = (if left_of t j = x then ?y else left_of t j)"
    proof (cases "j = ?p")
      case True
      then show ?thesis using jn jnn px lr by (auto simp: g(10))
    next
      case False
      then have "left_of t j \<noteq> x" using rx by blast
      then show ?thesis using False jn by (simp add: g(10))
    qed
    show ?thesis using 1 2 3 4 by simp
  qed
  have rT': "repr ?t' NULL_INDEX (if root_index t = x then ?y else root_index t)
               (replace_at x (Node C ?y (Node B x A)) T)"
  proof (rule repr_replace_at[OF r d xT rS'])
    fix j assume "j \<in> set_tree T" "j \<notin> set_tree (subtree_at x T)"
    then show "contains_at ?t' j \<and> parent_of ?t' j = parent_of t j
           \<and> left_of ?t' j = (if left_of t j = x then ?y else left_of t j)
           \<and> right_of ?t' j = (if right_of t j = x then ?y else right_of t j)"
      by (rule out)
  qed
  have root: "root_index ?t' = (if root_index t = x then ?y else root_index t)"
    using linked_parent(1,2)[OF assms(1,2)] pre(8) by (auto simp: g)
  obtain pre' post where
    pp: "inorder T = pre' @ inorder (subtree_at x T) @ post"
        "\<forall>S. inorder (replace_at x S T) = pre' @ inorder S @ post"
    using inorder_replace_at[OF xT d] by blast
  have io: "inorder (replace_at x (Node C ?y (Node B x A)) T) = inorder T"
    using pp S by simp
  have "set_tree (replace_at x (Node C ?y (Node B x A)) T) = set_tree T"
    using io by (metis set_inorder)
  moreover have "{i. contains_at ?t' i} = {i. contains_at t i}"
    by (simp add: g(1))
  ultimately have "linked ?t' (replace_at x (Node C ?y (Node B x A)) T)"
    unfolding linked_def using rT' root io d s by simp
  then show ?thesis using io by blast
qed

section \<open>Colour invariants, slot by slot\<close>

text \<open>A labelling of the slots by black heights: the null index has height 0, and at every
  occupied slot both children have the same height, to which a black node adds one.\<close>
definition bh_label :: "('k, 'v) FixedRedBlackTree \<Rightarrow> (NodeIndex \<Rightarrow> nat) \<Rightarrow> bool" where
  "bh_label t f =
     (f NULL_INDEX = 0
      \<and> (\<forall>i. contains_at t i \<longrightarrow>
             f (left_of t i) = f (right_of t i)
             \<and> f i = f (left_of t i) + (if color_of t i = BLACK then 1 else 0)))"

text \<open>No red node has a red child, except that the child \<open>x\<close> may be red below a red parent.\<close>
definition red_red_except :: "('k, 'v) FixedRedBlackTree \<Rightarrow> NodeIndex \<Rightarrow> bool" where
  "red_red_except t x =
     (\<forall>i. contains_at t i \<and> color_of t i = RED \<longrightarrow>
        (left_of t i = x \<or> color_of t (left_of t i) = BLACK)
        \<and> (right_of t i = x \<or> color_of t (right_of t i) = BLACK))"

lemma linked_set_color [simp]: "linked (set_color t i c) T = linked t T"
proof -
  have "repr (set_color t i c) p j T = repr t p j T" for p j
    by (induction T arbitrary: p j) auto
  then show ?thesis by (simp add: linked_def)
qed


text \<open>The fix-up loops leave the entries where they are.\<close>
definition same_entries :: "('k, 'v) FixedRedBlackTree \<Rightarrow> ('k, 'v) FixedRedBlackTree \<Rightarrow> bool" where
  "same_entries t t' =
     ((\<forall>j. contains_at t' j = contains_at t j \<and> key_of t' j = key_of t j
            \<and> value_of t' j = value_of t j)
      \<and> comparator t' = comparator t \<and> CAPACITY t' = CAPACITY t)"

lemma same_entries_refl [simp]: "same_entries t t"
  by (simp add: same_entries_def)

lemma same_entries_trans: "same_entries t t1 \<Longrightarrow> same_entries t1 t2 \<Longrightarrow> same_entries t t2"
  by (simp add: same_entries_def)

lemma same_entries_set_color [simp]: "same_entries t (set_color t i c)"
  by (simp add: same_entries_def)

definition insert_inv ::
  "('k, 'v) FixedRedBlackTree \<Rightarrow> NodeIndex tree \<Rightarrow> NodeIndex \<Rightarrow> (NodeIndex \<Rightarrow> nat) \<Rightarrow> bool" where
  "insert_inv t T x f =
     (linked t T \<and> contains_at t x \<and> color_of t x = RED \<and> bh_label t f
      \<and> red_red_except t x
      \<and> (color_of t (root_index t) = BLACK \<or> x = root_index t))"

lemma bh_labelD:
  "bh_label t f \<Longrightarrow> contains_at t i \<Longrightarrow>
     f (left_of t i) = f (right_of t i)
     \<and> f i = f (left_of t i) + (if color_of t i = BLACK then 1 else 0)"
  by (simp add: bh_label_def)

lemma bh_label_null: "bh_label t f \<Longrightarrow> f NULL_INDEX = 0"
  by (simp add: bh_label_def)

lemma red_red_exceptD:
  "red_red_except t x \<Longrightarrow> contains_at t i \<Longrightarrow> color_of t i = RED \<Longrightarrow>
     (left_of t i = x \<or> color_of t (left_of t i) = BLACK)
     \<and> (right_of t i = x \<or> color_of t (right_of t i) = BLACK)"
  by (simp add: red_red_except_def)

text \<open>The nodes around a red node \<open>x\<close> with a red parent: parent, grandparent and uncle.\<close>
lemma insert_family:
  assumes "insert_inv t T x f" "x \<noteq> root_index t" "color_of t (parent_of t x) = RED"
  shows "contains_at t (parent_of t x)" and "parent_of t x \<noteq> root_index t"
    and "contains_at t (parent_of t (parent_of t x))"
    and "color_of t (parent_of t (parent_of t x)) = BLACK"
    and "left_of t (parent_of t x) = x \<or> right_of t (parent_of t x) = x"
    and "left_of t (parent_of t (parent_of t x)) = parent_of t x
         \<or> right_of t (parent_of t (parent_of t x)) = parent_of t x"
    and "x \<noteq> parent_of t x" and "x \<noteq> parent_of t (parent_of t x)"
    and "parent_of t x \<noteq> parent_of t (parent_of t x)"
    and "x \<noteq> NULL_INDEX" and "parent_of t x \<noteq> NULL_INDEX"
    and "parent_of t (parent_of t x) \<noteq> NULL_INDEX"
    and "size (subtree_at x T) < size (subtree_at (parent_of t (parent_of t x)) T)"
proof -
  let ?p = "parent_of t x" and ?g = "parent_of t (parent_of t x)"
  have l: "linked t T" and x: "contains_at t x" "color_of t x = RED"
    and rr: "red_red_except t x"
    and rt: "color_of t (root_index t) = BLACK \<or> x = root_index t"
    using assms(1) by (simp_all add: insert_inv_def)
  show pc: "contains_at t ?p" using assms(3) by (rule red_contains)
  show pr: "?p \<noteq> root_index t" using rt assms(2,3) by auto
  show gc: "contains_at t ?g" using linked_parent(2)[OF l pc] pr by simp
  show xp: "left_of t ?p = x \<or> right_of t ?p = x"
    using linked_parent(2)[OF l x(1)] assms(2) by simp
  show pg: "left_of t ?g = ?p \<or> right_of t ?g = ?p"
    using linked_parent(2)[OF l pc] pr by simp
  show xn: "x \<noteq> NULL_INDEX" using linked_children(6)[OF l x(1)] .
  show pn: "?p \<noteq> NULL_INDEX" using linked_children(6)[OF l pc] .
  show "?g \<noteq> NULL_INDEX" using linked_children(6)[OF l gc] .
  show "x \<noteq> ?p" using linked_parent(3)[OF l x(1)] by simp
  show "?p \<noteq> ?g" using linked_parent(3)[OF l pc] by simp
  have sz1: "size (subtree_at x T) < size (subtree_at ?p T)"
    using linked_size_parent[OF l x(1) assms(2)] .
  have sz2: "size (subtree_at ?p T) < size (subtree_at ?g T)"
    using linked_size_parent[OF l pc pr] .
  show "size (subtree_at x T) < size (subtree_at ?g T)" using sz1 sz2 by simp
  then show "x \<noteq> ?g" by auto
  show "color_of t ?g = BLACK"
  proof (rule ccontr)
    assume "color_of t ?g \<noteq> BLACK"
    then have "color_of t ?g = RED" by simp
    from red_red_exceptD[OF rr gc this] pg assms(3) \<open>x \<noteq> ?p\<close>
    show False by auto
  qed
qed

text \<open>In a linked tree a node is the child of its parent only.\<close>
lemma linked_child_parent:
  assumes "linked t T" "contains_at t i" "c \<noteq> NULL_INDEX"
    and "left_of t i = c \<or> right_of t i = c"
  shows "parent_of t c = i" and "contains_at t c"
  using linked_children(1,2)[OF assms(1,2)] assms(3,4) by auto


lemma bh_labelI:
  assumes "f NULL_INDEX = 0"
    and "\<And>i. contains_at t i \<Longrightarrow>
           f (left_of t i) = f (right_of t i)
           \<and> f i = f (left_of t i) + (if color_of t i = BLACK then 1 else 0)"
  shows "bh_label t f"
  using assms by (simp add: bh_label_def)

lemma bh_labelI_m:
  assumes "f NULL_INDEX = 0"
    and "\<And>i. contains_at t i \<Longrightarrow>
           f (right_of t i) = f (left_of t i)
           \<and> f i = f (right_of t i) + (if color_of t i = BLACK then 1 else 0)"
  shows "bh_label t f"
  using assms by (simp add: bh_label_def)

lemma bh_labelD_m:
  "bh_label t f \<Longrightarrow> contains_at t i \<Longrightarrow>
     f (right_of t i) = f (left_of t i)
     \<and> f i = f (right_of t i) + (if color_of t i = BLACK then 1 else 0)"
  by (simp add: bh_label_def)

lemma red_red_exceptI:
  assumes "\<And>i. contains_at t i \<Longrightarrow> color_of t i = RED \<Longrightarrow>
     (left_of t i = x \<or> color_of t (left_of t i) = BLACK)
     \<and> (right_of t i = x \<or> color_of t (right_of t i) = BLACK)"
  shows "red_red_except t x"
  using assms by (simp add: red_red_except_def)

lemma red_red_exceptI_m:
  assumes "\<And>i. contains_at t i \<Longrightarrow> color_of t i = RED \<Longrightarrow>
     (right_of t i = x \<or> color_of t (right_of t i) = BLACK)
     \<and> (left_of t i = x \<or> color_of t (left_of t i) = BLACK)"
  shows "red_red_except t x"
  using assms by (auto simp: red_red_except_def)

lemma red_red_exceptD_m:
  "red_red_except t x \<Longrightarrow> contains_at t i \<Longrightarrow> color_of t i = RED \<Longrightarrow>
     (right_of t i = x \<or> color_of t (right_of t i) = BLACK)
     \<and> (left_of t i = x \<or> color_of t (left_of t i) = BLACK)"
  by (simp add: red_red_except_def)

text \<open>Case 1 of the insertion fix-up: parent and uncle are red.\<close>
lemma insert_case1:
  assumes inv: "insert_inv t T x f" and xr: "x \<noteq> root_index t"
    and pr: "color_of t (parent_of t x) = RED"
    and y: "(left_of t (parent_of t (parent_of t x)) = parent_of t x
               \<and> y = right_of t (parent_of t (parent_of t x)))
            \<or> (right_of t (parent_of t (parent_of t x)) = parent_of t x
               \<and> y = left_of t (parent_of t (parent_of t x)))"
    and yr: "color_of t y = RED"
  shows "insert_inv
           (set_color (set_color (set_color t (parent_of t x) BLACK) y BLACK)
              (parent_of t (parent_of t x)) RED)
           T (parent_of t (parent_of t x))
           (f(parent_of t x := f (parent_of t x) + 1, y := f y + 1))"
proof -
  define p where "p = parent_of t x"
  define g where "g = parent_of t p"
  define t' where "t' = set_color (set_color (set_color t p BLACK) y BLACK) g RED"
  define f' where "f' = f(p := f p + 1, y := f y + 1)"
  have l: "linked t T" and x: "contains_at t x" "color_of t x = RED"
    and b: "bh_label t f" and rr: "red_red_except t x"
    and rt: "color_of t (root_index t) = BLACK \<or> x = root_index t"
    using inv by (simp_all add: insert_inv_def)
  note fam = insert_family[OF inv xr pr, folded p_def, folded g_def]
  have pc: "contains_at t p" and gc: "contains_at t g" and gb: "color_of t g = BLACK"
    and pg: "p \<noteq> g" and xg: "x \<noteq> g" and xp: "x \<noteq> p"
    and pn: "p \<noteq> NULL_INDEX" and gn: "g \<noteq> NULL_INDEX" and xn: "x \<noteq> NULL_INDEX"
    and proot: "p \<noteq> root_index t"
    using fam by simp_all
  have yc: "contains_at t y" using yr by (rule red_contains)
  have yn: "y \<noteq> NULL_INDEX" using linked_children(6)[OF l yc] .
  have Cg: "left_of t g \<noteq> g" "right_of t g \<noteq> g"
    "left_of t g = right_of t g \<longrightarrow> left_of t g = NULL_INDEX"
    using linked_children(3,4,5)[OF l gc] by auto
  have y': "(left_of t g = p \<and> right_of t g = y) \<or> (right_of t g = p \<and> left_of t g = y)"
    using y by (auto simp: p_def g_def)
  have yp: "y \<noteq> p" using y' Cg pn by auto
  have yg: "y \<noteq> g" using y' Cg by auto
  have py: "parent_of t y = g"
    using linked_child_parent(1)[OF l gc yn] y' by auto
  have pp: "parent_of t p = g" by (simp add: g_def)
  have key: "left_of t i \<noteq> p \<and> left_of t i \<noteq> y \<and> right_of t i \<noteq> p \<and> right_of t i \<noteq> y"
    if ic: "contains_at t i" and ig: "i \<noteq> g" for i
    using linked_children(1,2)[OF l ic] pn yn pp py ig by auto
  have col: "color_of t' i = (if i = g then RED else if i = p \<or> i = y then BLACK else color_of t i)"
    for i
    using pc yc gc by (simp add: t'_def)
  have lt [simp]: "left_of t' i = left_of t i" "right_of t' i = right_of t i"
    "contains_at t' i = contains_at t i" "root_index t' = root_index t" for i
    by (simp_all add: t'_def)
  have fe: "f (left_of t i) = f (right_of t i)
        \<and> f i = f (left_of t i) + (if color_of t i = BLACK then 1 else 0)"
    if "contains_at t i" for i
    using bh_labelD[OF b that] .
  have "bh_label t' f'"
    unfolding bh_label_def
  proof (intro conjI allI impI)
    show "f' NULL_INDEX = 0"
      using bh_label_null[OF b] pn yn by (simp add: f'_def)
  next
    fix i assume "contains_at t' i"
    then have ic: "contains_at t i" by simp
    show "f' (left_of t' i) = f' (right_of t' i)"
    proof (cases "i = g")
      case True
      then show ?thesis using y' fe[OF gc] yp by (auto simp: f'_def)
    next
      case False
      then show ?thesis using key[OF ic False] fe[OF ic] by (simp add: f'_def)
    qed
    show "f' i = f' (left_of t' i) + (if color_of t' i = BLACK then 1 else 0)"
    proof (cases "i = g")
      case True
      then show ?thesis using y' fe[OF gc] gb pg yg yp by (auto simp: f'_def col)
    next
      case False
      then show ?thesis
        using key[OF ic False] fe[OF ic] pr yr by (auto simp: f'_def col p_def)
    qed
  qed
  moreover have "red_red_except t' g"
    unfolding red_red_except_def
  proof (intro allI impI)
    fix i assume a: "contains_at t' i \<and> color_of t' i = RED"
    then have ic: "contains_at t i" by simp
    show "(left_of t' i = g \<or> color_of t' (left_of t' i) = BLACK)
        \<and> (right_of t' i = g \<or> color_of t' (right_of t' i) = BLACK)"
    proof (cases "i = g")
      case True
      then show ?thesis using y' pg yg by (auto simp: col)
    next
      case False
      then have ir: "color_of t i = RED" "i \<noteq> p" "i \<noteq> y"
        using a by (auto simp: col split: if_splits)
      have "(left_of t i = x \<or> color_of t (left_of t i) = BLACK)
        \<and> (right_of t i = x \<or> color_of t (right_of t i) = BLACK)"
        using red_red_exceptD[OF rr ic ir(1)] .
      moreover have "left_of t i \<noteq> x" "right_of t i \<noteq> x"
        using linked_children(1,2)[OF l ic] xn ir(2) by (auto simp: p_def)
      ultimately show ?thesis by (auto simp: col)
    qed
  qed
  moreover have "color_of t' (root_index t') = BLACK \<or> g = root_index t'"
    using rt xr proot by (auto simp: col)
  moreover have "color_of t' g = RED" by (simp add: col)
  ultimately have "insert_inv t' T g f'"
    using l gc by (simp add: insert_inv_def t'_def)
  then show ?thesis by (simp add: t'_def f'_def p_def g_def)
qed


text \<open>Case 3 of the insertion fix-up, left side: \<open>x\<close> is the left child of a red left child,
  and the uncle is black. Recolouring and one rotation at the grandparent restore the
  invariants.\<close>
lemma insert_case3_left:
  assumes inv: "insert_inv t T x f" and xr: "x \<noteq> root_index t"
    and pr: "color_of t (parent_of t x) = RED"
    and side: "left_of t (parent_of t (parent_of t x)) = parent_of t x"
      "left_of t (parent_of t x) = x"
    and ub: "color_of t (right_of t (parent_of t (parent_of t x))) = BLACK"
  shows "\<exists>T' f'. linked (rotate_right (set_color (set_color t (parent_of t x) BLACK)
                     (parent_of t (parent_of t x)) RED) (parent_of t (parent_of t x))) T'
           \<and> inorder T' = inorder T
           \<and> bh_label (rotate_right (set_color (set_color t (parent_of t x) BLACK)
                     (parent_of t (parent_of t x)) RED) (parent_of t (parent_of t x))) f'"
    and "red_red_except (rotate_right (set_color (set_color t (parent_of t x) BLACK)
                     (parent_of t (parent_of t x)) RED) (parent_of t (parent_of t x))) NULL_INDEX"
    and "same_entries t (rotate_right (set_color (set_color t (parent_of t x) BLACK)
                     (parent_of t (parent_of t x)) RED) (parent_of t (parent_of t x)))"
    and "color_of (rotate_right (set_color (set_color t (parent_of t x) BLACK)
                     (parent_of t (parent_of t x)) RED) (parent_of t (parent_of t x)))
           (parent_of (rotate_right (set_color (set_color t (parent_of t x) BLACK)
                     (parent_of t (parent_of t x)) RED) (parent_of t (parent_of t x))) x) = BLACK"
    and "color_of (rotate_right (set_color (set_color t (parent_of t x) BLACK)
                     (parent_of t (parent_of t x)) RED) (parent_of t (parent_of t x)))
           (root_index (rotate_right (set_color (set_color t (parent_of t x) BLACK)
                     (parent_of t (parent_of t x)) RED) (parent_of t (parent_of t x)))) = BLACK"
proof -
  define p where "p = parent_of t x"
  define g where "g = parent_of t p"
  define gg where "gg = parent_of t g"
  define u where "u = right_of t g"
  define c where "c = right_of t p"
  define t2 where "t2 = set_color (set_color t p BLACK) g RED"
  define t' where "t' = rotate_right t2 g"
  have l: "linked t T" and x: "contains_at t x" "color_of t x = RED"
    and b: "bh_label t f" and rr: "red_red_except t x"
    and rt: "color_of t (root_index t) = BLACK \<or> x = root_index t"
    using inv by (simp_all add: insert_inv_def)
  note fam = insert_family[OF inv xr pr, folded p_def, folded g_def]
  have pc: "contains_at t p" and gc: "contains_at t g" and gb: "color_of t g = BLACK"
    and pg: "p \<noteq> g" and xg: "x \<noteq> g" and xp: "x \<noteq> p"
    and pn: "p \<noteq> NULL_INDEX" and gn: "g \<noteq> NULL_INDEX" and xn: "x \<noteq> NULL_INDEX"
    and proot: "p \<noteq> root_index t"
    using fam by simp_all
  have lg: "left_of t g = p" and lp: "left_of t p = x" and ubl: "color_of t u = BLACK"
    and prd: "color_of t p = RED" and px: "parent_of t x = p" and pp: "parent_of t p = g"
    using side ub pr by (simp_all add: p_def g_def u_def)
  have l2: "linked t2 T" using l by (simp add: t2_def)
  have g2: "contains_at t2 g" "left_of t2 g \<noteq> NULL_INDEX"
    using gc lg pn by (simp_all add: t2_def)
  note pre = rotate_right_pre[OF l2 g2]
  note gt = rotate_right_getters[OF g2(1) pre(1) refl pre(2) pre(3) pre(4) pre(5) pre(6) pre(7)
      pre(8) pre(9) pre(10), folded t'_def]
  have s2 [simp]: "left_of t2 i = left_of t i" "right_of t2 i = right_of t i"
    "parent_of t2 i = parent_of t i" "contains_at t2 i = contains_at t i"
    "root_index t2 = root_index t" "key_of t2 i = key_of t i" "value_of t2 i = value_of t i"
    "comparator t2 = comparator t" "CAPACITY t2 = CAPACITY t" for i
    by (simp_all add: t2_def)
  have col2: "color_of t2 i = (if i = g then RED else if i = p then BLACK else color_of t i)" for i
    using pc gc by (simp add: t2_def)
  have pre': "g \<noteq> p" "gg \<noteq> g" "gg \<noteq> p" "c \<noteq> g" "c \<noteq> p" "c = NULL_INDEX \<or> c \<noteq> gg"
    "gg = NULL_INDEX \<or> contains_at t gg" "c = NULL_INDEX \<or> contains_at t c"
    using pre lg by (simp_all add: gg_def c_def)
  have L': "left_of t' i = (if i = g then c else if i = gg \<and> i \<noteq> NULL_INDEX \<and> right_of t i \<noteq> g
                then p else left_of t i)" for i
    by (auto simp: gt(10) lg c_def gg_def)
  have R': "right_of t' i = (if i = p then g else if i = gg \<and> i \<noteq> NULL_INDEX \<and> right_of t i = g
                then p else right_of t i)" for i
    by (auto simp: gt(9) lg gg_def)
  have P': "parent_of t' i = (if i = g then p else if i = p then gg
                else if i = c \<and> i \<noteq> NULL_INDEX then g else parent_of t i)" for i
    by (auto simp: gt(11) lg c_def gg_def)
  have C': "color_of t' i = (if i = g then RED else if i = p then BLACK else color_of t i)" for i
    by (simp add: gt(2) col2)
  have Ct': "contains_at t' i = contains_at t i" for i by (simp add: gt(1))
  have root': "root_index t' = (if gg = NULL_INDEX then p else root_index t)"
    by (simp add: gt(8) lg gg_def)
  obtain T' where T': "linked t' T'" "inorder T' = inorder T"
    using rotate_right_linked[OF l2 g2] by (auto simp: t'_def)
  have fe: "f (left_of t i) = f (right_of t i)
        \<and> f i = f (left_of t i) + (if color_of t i = BLACK then 1 else 0)"
    if "contains_at t i" for i
    using bh_labelD[OF b that] by simp
  have fN: "f NULL_INDEX = 0" using bh_label_null[OF b] .
  have fx: "f p = f x" "f c = f x" "f u = f x" "f g = f x + 1"
    using fe[OF pc] fe[OF gc] lp lg prd gb by (simp_all add: c_def u_def)
  have Cgg: "left_of t gg = g \<or> right_of t gg = g" if "gg \<noteq> NULL_INDEX"
    using linked_parent(1,2)[OF l gc] that by (auto simp: gg_def)
  have child_g: "i = gg" if "contains_at t i" "left_of t i = g \<or> right_of t i = g" for i
    using linked_child_parent(1)[OF l that(1) gn] that(2) by (auto simp: gg_def)
  have child_p: "i = g" if "contains_at t i" "left_of t i = p \<or> right_of t i = p" for i
    using linked_child_parent(1)[OF l that(1) pn] that(2) pp by auto
  have child_x: "i = p" if "contains_at t i" "left_of t i = x \<or> right_of t i = x" for i
    using linked_child_parent(1)[OF l that(1) xn] that(2) px by auto
  have cx: "c \<noteq> x" using linked_children(5)[OF l pc] lp xn by (auto simp: c_def)
  have cb: "color_of t c = BLACK"
    using red_red_exceptD[OF rr pc prd] cx by (simp add: c_def)
  have up: "u \<noteq> p" "u \<noteq> g"
    using linked_children(4,5)[OF l gc] lg pn by (auto simp: u_def)
  define f' where "f' = f(p := f g, g := f p)"
  have Lg: "left_of t' g = c" "right_of t' g = u" "color_of t' g = RED"
    using pre' pg by (auto simp: L' R' C' u_def)
  have Lp: "left_of t' p = x" "right_of t' p = g" "color_of t' p = BLACK"
    using pre' pg lp by (auto simp: L' R' C')
  have f'v: "f' c = f x" "f' u = f x" "f' x = f x" "f' g = f x" "f' p = f x + 1"
    using fx pre' up xp xg pg fN pn gn by (auto simp: f'_def)
  have "bh_label t' f'"
  proof (rule bh_labelI)
    show "f' NULL_INDEX = 0" using fN pn gn by (simp add: f'_def)
  next
    fix i assume "contains_at t' i"
    then have ic: "contains_at t i" by (simp add: Ct')
    have in0: "i \<noteq> NULL_INDEX" using linked_children(6)[OF l ic] .
    have other: "f' (left_of t' i) = f' (right_of t' i)
        \<and> f' i = f' (left_of t' i) + (if color_of t' i = BLACK then 1 else 0)"
      if ne: "i \<noteq> g" "i \<noteq> p"
    proof (cases "i = gg")
      case True
      have "left_of t gg = g \<or> right_of t gg = g" using Cgg in0 True by simp
      then consider (a) "left_of t gg = g" "right_of t gg \<noteq> g"
        | (b) "right_of t gg = g" "left_of t gg \<noteq> g"
        using linked_children(5)[OF l ic] True gn by auto
      then show ?thesis
      proof cases
        case a
        have "right_of t gg \<noteq> p" using child_p[of gg] ic True ne by auto
        then show ?thesis
          using a True in0 ne fe[OF ic] fx pg by (simp add: L' R' C' f'_def)
      next
        case b
        have "left_of t gg \<noteq> p" using child_p[of gg] ic True ne by auto
        then show ?thesis
          using b True in0 ne fe[OF ic] fx pg by (simp add: L' R' C' f'_def)
      qed
    next
      case False
      have "left_of t i \<noteq> g" "right_of t i \<noteq> g" "left_of t i \<noteq> p" "right_of t i \<noteq> p"
        using child_g[OF ic] child_p[OF ic] False ne by auto
      then show ?thesis
        using False ne fe[OF ic] by (simp add: L' R' C' f'_def)
    qed
    show "f' (left_of t' i) = f' (right_of t' i)
        \<and> f' i = f' (left_of t' i) + (if color_of t' i = BLACK then 1 else 0)"
      using other Lg Lp f'v by (cases "i = g"; cases "i = p"; simp)
  qed
  then show "\<exists>T' f'. linked (rotate_right (set_color (set_color t (parent_of t x) BLACK)
                     (parent_of t (parent_of t x)) RED) (parent_of t (parent_of t x))) T'
           \<and> inorder T' = inorder T
           \<and> bh_label (rotate_right (set_color (set_color t (parent_of t x) BLACK)
                     (parent_of t (parent_of t x)) RED) (parent_of t (parent_of t x))) f'"
    using T' by (auto simp: t'_def t2_def p_def g_def)
  have "red_red_except t' NULL_INDEX"
  proof (rule red_red_exceptI)
    fix i assume "contains_at t' i" "color_of t' i = RED"
    then have a: "contains_at t' i \<and> color_of t' i = RED" by simp
    then have ic: "contains_at t i" by (simp add: Ct')
    have in0: "i \<noteq> NULL_INDEX" using linked_children(6)[OF l ic] .
    have ip: "i \<noteq> p" using a pg by (auto simp: C')
    show "(left_of t' i = NULL_INDEX \<or> color_of t' (left_of t' i) = BLACK)
        \<and> (right_of t' i = NULL_INDEX \<or> color_of t' (right_of t' i) = BLACK)"
    proof (cases "i = g")
      case True
      then show ?thesis using Lg cb ubl pre' up by (auto simp: C')
    next
      case False
      then have ir: "color_of t i = RED" using a ip by (simp add: C')
      have old: "(left_of t i = x \<or> color_of t (left_of t i) = BLACK)
        \<and> (right_of t i = x \<or> color_of t (right_of t i) = BLACK)"
        using red_red_exceptD[OF rr ic ir] by simp
      have nx: "left_of t i \<noteq> x" "right_of t i \<noteq> x"
        using child_x[OF ic] ip by auto
      show ?thesis
      proof (cases "i = gg")
        case True
        have "left_of t gg = g \<or> right_of t gg = g" using Cgg in0 True by simp
        then consider (a) "left_of t gg = g" "right_of t gg \<noteq> g"
          | (b) "right_of t gg = g" "left_of t gg \<noteq> g"
          using linked_children(5)[OF l ic] True gn by auto
        then show ?thesis
        proof cases
          case a
          have "right_of t gg \<noteq> p" using child_p[of gg] ic True False by auto
          then show ?thesis
            using a True in0 False ip old nx pg by (auto simp: L' R' C')
        next
          case b
          have "left_of t gg \<noteq> p" using child_p[of gg] ic True False by auto
          then show ?thesis
            using b True in0 False ip old nx pg by (auto simp: L' R' C')
        qed
      next
        case ngg: False
        have "left_of t i \<noteq> g" "right_of t i \<noteq> g" "left_of t i \<noteq> p" "right_of t i \<noteq> p"
          using child_g[OF ic] child_p[OF ic] False ngg ip by auto
        then show ?thesis
          using False ngg ip old nx pg by (auto simp: L' R' C')
      qed
    qed
  qed
  then show "red_red_except (rotate_right (set_color (set_color t (parent_of t x) BLACK)
                     (parent_of t (parent_of t x)) RED) (parent_of t (parent_of t x))) NULL_INDEX"
    by (simp add: t'_def t2_def p_def g_def)
  have "same_entries t t'"
    by (simp add: same_entries_def gt(1,3,4,5,6))
  then show "same_entries t (rotate_right (set_color (set_color t (parent_of t x) BLACK)
                     (parent_of t (parent_of t x)) RED) (parent_of t (parent_of t x)))"
    by (simp add: t'_def t2_def p_def g_def)
  have "parent_of t' x = p"
    using xg xp px cx xn by (auto simp: P')
  then have "color_of t' (parent_of t' x) = BLACK" using pg by (simp add: C')
  then show "color_of (rotate_right (set_color (set_color t (parent_of t x) BLACK)
                     (parent_of t (parent_of t x)) RED) (parent_of t (parent_of t x)))
           (parent_of (rotate_right (set_color (set_color t (parent_of t x) BLACK)
                     (parent_of t (parent_of t x)) RED) (parent_of t (parent_of t x))) x) = BLACK"
    by (simp add: t'_def t2_def p_def g_def)
  have "color_of t' (root_index t') = BLACK"
  proof (cases "gg = NULL_INDEX")
    case True
    then show ?thesis using pg by (simp add: root' C')
  next
    case False
    then have "g \<noteq> root_index t" using linked_parent(1)[OF l gc] by (auto simp: gg_def)
    then show ?thesis using False rt xr proot by (simp add: root' C')
  qed
  then show "color_of (rotate_right (set_color (set_color t (parent_of t x) BLACK)
                     (parent_of t (parent_of t x)) RED) (parent_of t (parent_of t x)))
           (root_index (rotate_right (set_color (set_color t (parent_of t x) BLACK)
                     (parent_of t (parent_of t x)) RED) (parent_of t (parent_of t x)))) = BLACK"
    by (simp add: t'_def t2_def p_def g_def)
qed

text \<open>Case 2 of the insertion fix-up, left side: \<open>x\<close> is the right child of a red left child.
  A rotation at the parent turns it into case 3, with the old parent in the role of \<open>x\<close>.\<close>
lemma insert_case2_left:
  assumes inv: "insert_inv t T x f" and xr: "x \<noteq> root_index t"
    and pr: "color_of t (parent_of t x) = RED"
    and side: "left_of t (parent_of t (parent_of t x)) = parent_of t x"
      "right_of t (parent_of t x) = x"
    and ub: "color_of t (right_of t (parent_of t (parent_of t x))) = BLACK"
  shows "\<exists>T'. insert_inv (rotate_left t (parent_of t x)) T' (parent_of t x) f
               \<and> inorder T' = inorder T"
    and "same_entries t (rotate_left t (parent_of t x))"
    and "parent_of t x \<noteq> root_index (rotate_left t (parent_of t x))"
    and "parent_of (rotate_left t (parent_of t x)) (parent_of t x) = x"
    and "parent_of (rotate_left t (parent_of t x)) x = parent_of t (parent_of t x)"
    and "color_of (rotate_left t (parent_of t x)) x = RED"
    and "left_of (rotate_left t (parent_of t x)) (parent_of t (parent_of t x)) = x"
    and "left_of (rotate_left t (parent_of t x)) x = parent_of t x"
    and "color_of (rotate_left t (parent_of t x))
           (right_of (rotate_left t (parent_of t x)) (parent_of t (parent_of t x))) = BLACK"
proof -
  define p where "p = parent_of t x"
  define g where "g = parent_of t p"
  define u where "u = right_of t g"
  define c where "c = left_of t x"
  define t' where "t' = rotate_left t p"
  have l: "linked t T" and x: "contains_at t x" "color_of t x = RED"
    and b: "bh_label t f" and rr: "red_red_except t x"
    and rt: "color_of t (root_index t) = BLACK \<or> x = root_index t"
    using inv by (simp_all add: insert_inv_def)
  note fam = insert_family[OF inv xr pr, folded p_def, folded g_def]
  have pc: "contains_at t p" and gc: "contains_at t g" and gb: "color_of t g = BLACK"
    and pg: "p \<noteq> g" and xg: "x \<noteq> g" and xp: "x \<noteq> p"
    and pn: "p \<noteq> NULL_INDEX" and gn: "g \<noteq> NULL_INDEX" and xn: "x \<noteq> NULL_INDEX"
    and proot: "p \<noteq> root_index t"
    using fam by simp_all
  have lg: "left_of t g = p" and rp: "right_of t p = x" and ubl: "color_of t u = BLACK"
    and prd: "color_of t p = RED" and px: "parent_of t x = p" and pp: "parent_of t p = g"
    using side ub pr by (simp_all add: p_def g_def u_def)
  have p2: "contains_at t p" "right_of t p \<noteq> NULL_INDEX"
    using pc rp xn by simp_all
  note pre = rotate_left_pre[OF l p2]
  note gt = rotate_left_getters[OF p2(1) pre(1) refl pre(2) pre(3) pre(4) pre(5) pre(6) pre(7)
      pre(8) pre(9) pre(10), folded t'_def]
  have pre': "c \<noteq> p" "c \<noteq> x" "c = NULL_INDEX \<or> c \<noteq> g" "c = NULL_INDEX \<or> contains_at t c"
    using pre rp pp by (simp_all add: c_def)
  have L': "left_of t' i = (if i = x then p else if i = g then x else left_of t i)" for i
    using lg gn by (auto simp: gt(9) rp pp)
  have R': "right_of t' i = (if i = p then c else right_of t i)" for i
    using lg by (auto simp: gt(10) rp pp c_def)
  have P': "parent_of t' i = (if i = p then x else if i = x then g
                else if i = c \<and> i \<noteq> NULL_INDEX then p else parent_of t i)" for i
    by (auto simp: gt(11) rp pp c_def)
  have C': "color_of t' i = color_of t i" for i by (simp add: gt(2))
  have Ct': "contains_at t' i = contains_at t i" for i by (simp add: gt(1))
  have root': "root_index t' = root_index t"
    using gn by (simp add: gt(8) pp)
  obtain T' where T': "linked t' T'" "inorder T' = inorder T"
    using rotate_left_linked[OF l p2] by (auto simp: t'_def)
  have fe: "f (left_of t i) = f (right_of t i)
        \<and> f i = f (left_of t i) + (if color_of t i = BLACK then 1 else 0)"
    if "contains_at t i" for i
    using bh_labelD[OF b that] by simp
  have fx: "f (left_of t p) = f x" "f p = f x" "f c = f x" "f (right_of t x) = f x"
    using fe[OF pc] fe[OF x(1)] rp prd x(2) by (simp_all add: c_def)
  have child_p: "i = g" if "contains_at t i" "left_of t i = p \<or> right_of t i = p" for i
    using linked_child_parent(1)[OF l that(1) pn] that(2) pp by auto
  have child_x: "i = p" if "contains_at t i" "left_of t i = x \<or> right_of t i = x" for i
    using linked_child_parent(1)[OF l that(1) xn] that(2) px by auto
  have lpx: "left_of t p \<noteq> x" using linked_children(5)[OF l pc] rp xn by auto
  have rxp: "right_of t x \<noteq> p"
    using linked_children(2)[OF l x(1)] pp xg pn by auto
  have rgp: "right_of t g \<noteq> p" using linked_children(5)[OF l gc] lg pn by auto
  have rgx: "right_of t g \<noteq> x" using child_x[OF gc] pg by auto
  have "bh_label t' f"
  proof (rule bh_labelI)
    show "f NULL_INDEX = 0" using bh_label_null[OF b] .
  next
    fix i assume "contains_at t' i"
    then have ic: "contains_at t i" by (simp add: Ct')
    consider "i = p" | "i = x" | "i = g" | "i \<noteq> p" "i \<noteq> x" "i \<noteq> g" by blast
    then show "f (left_of t' i) = f (right_of t' i)
        \<and> f i = f (left_of t' i) + (if color_of t' i = BLACK then 1 else 0)"
    proof cases
      case 1
      then show ?thesis using fe[OF pc] fx xp pg by (simp add: L' R' C')
    next
      case 2
      then show ?thesis using fx xp xg x(2) by (simp add: L' R' C')
    next
      case 3
      then show ?thesis using fe[OF gc] lg fx xg pg by (simp add: L' R' C')
    next
      case 4
      then show ?thesis using fe[OF ic] by (simp add: L' R' C')
    qed
  qed
  moreover have "red_red_except t' p"
  proof (rule red_red_exceptI)
    fix i assume "contains_at t' i" "color_of t' i = RED"
    then have ic: "contains_at t i" and ir: "color_of t i = RED" by (simp_all add: Ct' C')
    have old: "(left_of t i = x \<or> color_of t (left_of t i) = BLACK)
        \<and> (right_of t i = x \<or> color_of t (right_of t i) = BLACK)"
      using red_red_exceptD[OF rr ic ir] by simp
    have ig: "i \<noteq> g" using ir gb by auto
    consider "i = p" | "i = x" | "i \<noteq> p" "i \<noteq> x" by blast
    then show "(left_of t' i = p \<or> color_of t' (left_of t' i) = BLACK)
        \<and> (right_of t' i = p \<or> color_of t' (right_of t' i) = BLACK)"
    proof cases
      case 1
      have "color_of t c = BLACK"
        using red_red_exceptD[OF rr x] linked_children(3)[OF l x(1)] by (auto simp: c_def)
      then show ?thesis using 1 old lpx xp pg by (simp add: L' R' C')
    next
      case 2
      have "color_of t (right_of t x) = BLACK"
        using red_red_exceptD[OF rr x] linked_children(4)[OF l x(1)] by auto
      then show ?thesis using 2 xp by (simp add: L' R' C')
    next
      case 3
      have "left_of t i \<noteq> x" "right_of t i \<noteq> x" using child_x[OF ic] 3 by auto
      then show ?thesis using 3 ig old by (simp add: L' R' C')
    qed
  qed
  moreover have "color_of t' (root_index t') = BLACK \<or> p = root_index t'"
    using rt xr by (simp add: root' C')
  ultimately have "insert_inv t' T' p f"
    using T' pc prd by (simp add: insert_inv_def Ct' C')
  then show "\<exists>T'. insert_inv (rotate_left t (parent_of t x)) T' (parent_of t x) f
               \<and> inorder T' = inorder T"
    using T' by (auto simp: t'_def p_def)
  have "same_entries t t'"
    by (simp add: same_entries_def gt(1,3,4,5,6))
  then show "same_entries t (rotate_left t (parent_of t x))" by (simp add: t'_def p_def)
  show "parent_of t x \<noteq> root_index (rotate_left t (parent_of t x))"
    using proot root' by (simp add: t'_def p_def)
  have "parent_of t' p = x" by (simp add: P')
  then show "parent_of (rotate_left t (parent_of t x)) (parent_of t x) = x"
    by (simp add: t'_def p_def)
  have "parent_of t' x = g" using xp by (simp add: P')
  then show "parent_of (rotate_left t (parent_of t x)) x = parent_of t (parent_of t x)"
    by (simp add: t'_def p_def g_def)
  show "color_of (rotate_left t (parent_of t x)) x = RED"
    using x(2) C' by (simp add: t'_def p_def)
  have "left_of t' g = x" using xg by (simp add: L')
  then show "left_of (rotate_left t (parent_of t x)) (parent_of t (parent_of t x)) = x"
    by (simp add: t'_def p_def g_def)
  have "left_of t' x = p" by (simp add: L')
  then show "left_of (rotate_left t (parent_of t x)) x = parent_of t x"
    by (simp add: t'_def p_def)
  have "color_of t' (right_of t' g) = BLACK"
    using ubl pg by (simp add: R' C' u_def)
  then show "color_of (rotate_left t (parent_of t x))
           (right_of (rotate_left t (parent_of t x)) (parent_of t (parent_of t x))) = BLACK"
    by (simp add: t'_def p_def g_def)
qed

text \<open>Case 3 of the insertion fix-up, right side: \<open>x\<close> is the right child of a red right child,
  and the uncle is black. Recolouring and one rotation at the grandparent restore the
  invariants.\<close>
lemma insert_case3_right:
  assumes inv: "insert_inv t T x f" and xr: "x \<noteq> root_index t"
    and pr: "color_of t (parent_of t x) = RED"
    and side: "right_of t (parent_of t (parent_of t x)) = parent_of t x"
      "right_of t (parent_of t x) = x"
    and ub: "color_of t (left_of t (parent_of t (parent_of t x))) = BLACK"
  shows "\<exists>T' f'. linked (rotate_left (set_color (set_color t (parent_of t x) BLACK)
                     (parent_of t (parent_of t x)) RED) (parent_of t (parent_of t x))) T'
           \<and> inorder T' = inorder T
           \<and> bh_label (rotate_left (set_color (set_color t (parent_of t x) BLACK)
                     (parent_of t (parent_of t x)) RED) (parent_of t (parent_of t x))) f'"
    and "red_red_except (rotate_left (set_color (set_color t (parent_of t x) BLACK)
                     (parent_of t (parent_of t x)) RED) (parent_of t (parent_of t x))) NULL_INDEX"
    and "same_entries t (rotate_left (set_color (set_color t (parent_of t x) BLACK)
                     (parent_of t (parent_of t x)) RED) (parent_of t (parent_of t x)))"
    and "color_of (rotate_left (set_color (set_color t (parent_of t x) BLACK)
                     (parent_of t (parent_of t x)) RED) (parent_of t (parent_of t x)))
           (parent_of (rotate_left (set_color (set_color t (parent_of t x) BLACK)
                     (parent_of t (parent_of t x)) RED) (parent_of t (parent_of t x))) x) = BLACK"
    and "color_of (rotate_left (set_color (set_color t (parent_of t x) BLACK)
                     (parent_of t (parent_of t x)) RED) (parent_of t (parent_of t x)))
           (root_index (rotate_left (set_color (set_color t (parent_of t x) BLACK)
                     (parent_of t (parent_of t x)) RED) (parent_of t (parent_of t x)))) = BLACK"
proof -
  define p where "p = parent_of t x"
  define g where "g = parent_of t p"
  define gg where "gg = parent_of t g"
  define u where "u = left_of t g"
  define c where "c = left_of t p"
  define t2 where "t2 = set_color (set_color t p BLACK) g RED"
  define t' where "t' = rotate_left t2 g"
  have l: "linked t T" and x: "contains_at t x" "color_of t x = RED"
    and b: "bh_label t f" and rr: "red_red_except t x"
    and rt: "color_of t (root_index t) = BLACK \<or> x = root_index t"
    using inv by (simp_all add: insert_inv_def)
  note fam = insert_family[OF inv xr pr, folded p_def, folded g_def]
  have pc: "contains_at t p" and gc: "contains_at t g" and gb: "color_of t g = BLACK"
    and pg: "p \<noteq> g" and xg: "x \<noteq> g" and xp: "x \<noteq> p"
    and pn: "p \<noteq> NULL_INDEX" and gn: "g \<noteq> NULL_INDEX" and xn: "x \<noteq> NULL_INDEX"
    and proot: "p \<noteq> root_index t"
    using fam by simp_all
  have lg: "right_of t g = p" and lp: "right_of t p = x" and ubl: "color_of t u = BLACK"
    and prd: "color_of t p = RED" and px: "parent_of t x = p" and pp: "parent_of t p = g"
    using side ub pr by (simp_all add: p_def g_def u_def)
  have l2: "linked t2 T" using l by (simp add: t2_def)
  have g2: "contains_at t2 g" "right_of t2 g \<noteq> NULL_INDEX"
    using gc lg pn by (simp_all add: t2_def)
  note pre = rotate_left_pre[OF l2 g2]
  note gt = rotate_left_getters[OF g2(1) pre(1) refl pre(2) pre(3) pre(4) pre(5) pre(6) pre(7)
      pre(8) pre(9) pre(10), folded t'_def]
  have s2 [simp]: "right_of t2 i = right_of t i" "left_of t2 i = left_of t i"
    "parent_of t2 i = parent_of t i" "contains_at t2 i = contains_at t i"
    "root_index t2 = root_index t" "key_of t2 i = key_of t i" "value_of t2 i = value_of t i"
    "comparator t2 = comparator t" "CAPACITY t2 = CAPACITY t" for i
    by (simp_all add: t2_def)
  have col2: "color_of t2 i = (if i = g then RED else if i = p then BLACK else color_of t i)" for i
    using pc gc by (simp add: t2_def)
  have pre': "g \<noteq> p" "gg \<noteq> g" "gg \<noteq> p" "c \<noteq> g" "c \<noteq> p" "c = NULL_INDEX \<or> c \<noteq> gg"
    "gg = NULL_INDEX \<or> contains_at t gg" "c = NULL_INDEX \<or> contains_at t c"
    using pre lg by (simp_all add: gg_def c_def)
  have L': "right_of t' i = (if i = g then c else if i = gg \<and> i \<noteq> NULL_INDEX \<and> left_of t i \<noteq> g
                then p else right_of t i)" for i
    by (auto simp: gt(10) lg c_def gg_def)
  have R': "left_of t' i = (if i = p then g else if i = gg \<and> i \<noteq> NULL_INDEX \<and> left_of t i = g
                then p else left_of t i)" for i
    by (auto simp: gt(9) lg gg_def)
  have P': "parent_of t' i = (if i = g then p else if i = p then gg
                else if i = c \<and> i \<noteq> NULL_INDEX then g else parent_of t i)" for i
    by (auto simp: gt(11) lg c_def gg_def)
  have C': "color_of t' i = (if i = g then RED else if i = p then BLACK else color_of t i)" for i
    by (simp add: gt(2) col2)
  have Ct': "contains_at t' i = contains_at t i" for i by (simp add: gt(1))
  have root': "root_index t' = (if gg = NULL_INDEX then p else root_index t)"
    by (simp add: gt(8) lg gg_def)
  obtain T' where T': "linked t' T'" "inorder T' = inorder T"
    using rotate_left_linked[OF l2 g2] by (auto simp: t'_def)
  have fe: "f (right_of t i) = f (left_of t i)
        \<and> f i = f (right_of t i) + (if color_of t i = BLACK then 1 else 0)"
    if "contains_at t i" for i
    using bh_labelD_m[OF b that] by simp
  have fN: "f NULL_INDEX = 0" using bh_label_null[OF b] .
  have fx: "f p = f x" "f c = f x" "f u = f x" "f g = f x + 1"
    using fe[OF pc] fe[OF gc] lp lg prd gb by (simp_all add: c_def u_def)
  have Cgg: "right_of t gg = g \<or> left_of t gg = g" if "gg \<noteq> NULL_INDEX"
    using linked_parent(1,2)[OF l gc] that by (auto simp: gg_def)
  have child_g: "i = gg" if "contains_at t i" "right_of t i = g \<or> left_of t i = g" for i
    using linked_child_parent(1)[OF l that(1) gn] that(2) by (auto simp: gg_def)
  have child_p: "i = g" if "contains_at t i" "right_of t i = p \<or> left_of t i = p" for i
    using linked_child_parent(1)[OF l that(1) pn] that(2) pp by auto
  have child_x: "i = p" if "contains_at t i" "right_of t i = x \<or> left_of t i = x" for i
    using linked_child_parent(1)[OF l that(1) xn] that(2) px by auto
  have cx: "c \<noteq> x" using linked_children(5)[OF l pc] lp xn by (auto simp: c_def)
  have cb: "color_of t c = BLACK"
    using red_red_exceptD_m[OF rr pc prd] cx by (simp add: c_def)
  have up: "u \<noteq> p" "u \<noteq> g"
    using linked_children(3,5)[OF l gc] lg pn by (auto simp: u_def)
  define f' where "f' = f(p := f g, g := f p)"
  have Lg: "right_of t' g = c" "left_of t' g = u" "color_of t' g = RED"
    using pre' pg by (auto simp: L' R' C' u_def)
  have Lp: "right_of t' p = x" "left_of t' p = g" "color_of t' p = BLACK"
    using pre' pg lp by (auto simp: L' R' C')
  have f'v: "f' c = f x" "f' u = f x" "f' x = f x" "f' g = f x" "f' p = f x + 1"
    using fx pre' up xp xg pg fN pn gn by (auto simp: f'_def)
  have "bh_label t' f'"
  proof (rule bh_labelI_m)
    show "f' NULL_INDEX = 0" using fN pn gn by (simp add: f'_def)
  next
    fix i assume "contains_at t' i"
    then have ic: "contains_at t i" by (simp add: Ct')
    have in0: "i \<noteq> NULL_INDEX" using linked_children(6)[OF l ic] .
    have other: "f' (right_of t' i) = f' (left_of t' i)
        \<and> f' i = f' (right_of t' i) + (if color_of t' i = BLACK then 1 else 0)"
      if ne: "i \<noteq> g" "i \<noteq> p"
    proof (cases "i = gg")
      case True
      have "right_of t gg = g \<or> left_of t gg = g" using Cgg in0 True by simp
      then consider (a) "right_of t gg = g" "left_of t gg \<noteq> g"
        | (b) "left_of t gg = g" "right_of t gg \<noteq> g"
        using linked_children(5)[OF l ic] True gn by auto
      then show ?thesis
      proof cases
        case a
        have "left_of t gg \<noteq> p" using child_p[of gg] ic True ne by auto
        then show ?thesis
          using a True in0 ne fe[OF ic] fx pg by (simp add: L' R' C' f'_def)
      next
        case b
        have "right_of t gg \<noteq> p" using child_p[of gg] ic True ne by auto
        then show ?thesis
          using b True in0 ne fe[OF ic] fx pg by (simp add: L' R' C' f'_def)
      qed
    next
      case False
      have "right_of t i \<noteq> g" "left_of t i \<noteq> g" "right_of t i \<noteq> p" "left_of t i \<noteq> p"
        using child_g[OF ic] child_p[OF ic] False ne by auto
      then show ?thesis
        using False ne fe[OF ic] by (simp add: L' R' C' f'_def)
    qed
    show "f' (right_of t' i) = f' (left_of t' i)
        \<and> f' i = f' (right_of t' i) + (if color_of t' i = BLACK then 1 else 0)"
      using other Lg Lp f'v by (cases "i = g"; cases "i = p"; simp)
  qed
  then show "\<exists>T' f'. linked (rotate_left (set_color (set_color t (parent_of t x) BLACK)
                     (parent_of t (parent_of t x)) RED) (parent_of t (parent_of t x))) T'
           \<and> inorder T' = inorder T
           \<and> bh_label (rotate_left (set_color (set_color t (parent_of t x) BLACK)
                     (parent_of t (parent_of t x)) RED) (parent_of t (parent_of t x))) f'"
    using T' by (auto simp: t'_def t2_def p_def g_def)
  have "red_red_except t' NULL_INDEX"
  proof (rule red_red_exceptI_m)
    fix i assume "contains_at t' i" "color_of t' i = RED"
    then have a: "contains_at t' i \<and> color_of t' i = RED" by simp
    then have ic: "contains_at t i" by (simp add: Ct')
    have in0: "i \<noteq> NULL_INDEX" using linked_children(6)[OF l ic] .
    have ip: "i \<noteq> p" using a pg by (auto simp: C')
    show "(right_of t' i = NULL_INDEX \<or> color_of t' (right_of t' i) = BLACK)
        \<and> (left_of t' i = NULL_INDEX \<or> color_of t' (left_of t' i) = BLACK)"
    proof (cases "i = g")
      case True
      then show ?thesis using Lg cb ubl pre' up by (auto simp: C')
    next
      case False
      then have ir: "color_of t i = RED" using a ip by (simp add: C')
      have old: "(right_of t i = x \<or> color_of t (right_of t i) = BLACK)
        \<and> (left_of t i = x \<or> color_of t (left_of t i) = BLACK)"
        using red_red_exceptD_m[OF rr ic ir] by simp
      have nx: "right_of t i \<noteq> x" "left_of t i \<noteq> x"
        using child_x[OF ic] ip by auto
      show ?thesis
      proof (cases "i = gg")
        case True
        have "right_of t gg = g \<or> left_of t gg = g" using Cgg in0 True by simp
        then consider (a) "right_of t gg = g" "left_of t gg \<noteq> g"
          | (b) "left_of t gg = g" "right_of t gg \<noteq> g"
          using linked_children(5)[OF l ic] True gn by auto
        then show ?thesis
        proof cases
          case a
          have "left_of t gg \<noteq> p" using child_p[of gg] ic True False by auto
          then show ?thesis
            using a True in0 False ip old nx pg by (auto simp: L' R' C')
        next
          case b
          have "right_of t gg \<noteq> p" using child_p[of gg] ic True False by auto
          then show ?thesis
            using b True in0 False ip old nx pg by (auto simp: L' R' C')
        qed
      next
        case ngg: False
        have "right_of t i \<noteq> g" "left_of t i \<noteq> g" "right_of t i \<noteq> p" "left_of t i \<noteq> p"
          using child_g[OF ic] child_p[OF ic] False ngg ip by auto
        then show ?thesis
          using False ngg ip old nx pg by (auto simp: L' R' C')
      qed
    qed
  qed
  then show "red_red_except (rotate_left (set_color (set_color t (parent_of t x) BLACK)
                     (parent_of t (parent_of t x)) RED) (parent_of t (parent_of t x))) NULL_INDEX"
    by (simp add: t'_def t2_def p_def g_def)
  have "same_entries t t'"
    by (simp add: same_entries_def gt(1,3,4,5,6))
  then show "same_entries t (rotate_left (set_color (set_color t (parent_of t x) BLACK)
                     (parent_of t (parent_of t x)) RED) (parent_of t (parent_of t x)))"
    by (simp add: t'_def t2_def p_def g_def)
  have "parent_of t' x = p"
    using xg xp px cx xn by (auto simp: P')
  then have "color_of t' (parent_of t' x) = BLACK" using pg by (simp add: C')
  then show "color_of (rotate_left (set_color (set_color t (parent_of t x) BLACK)
                     (parent_of t (parent_of t x)) RED) (parent_of t (parent_of t x)))
           (parent_of (rotate_left (set_color (set_color t (parent_of t x) BLACK)
                     (parent_of t (parent_of t x)) RED) (parent_of t (parent_of t x))) x) = BLACK"
    by (simp add: t'_def t2_def p_def g_def)
  have "color_of t' (root_index t') = BLACK"
  proof (cases "gg = NULL_INDEX")
    case True
    then show ?thesis using pg by (simp add: root' C')
  next
    case False
    then have "g \<noteq> root_index t" using linked_parent(1)[OF l gc] by (auto simp: gg_def)
    then show ?thesis using False rt xr proot by (simp add: root' C')
  qed
  then show "color_of (rotate_left (set_color (set_color t (parent_of t x) BLACK)
                     (parent_of t (parent_of t x)) RED) (parent_of t (parent_of t x)))
           (root_index (rotate_left (set_color (set_color t (parent_of t x) BLACK)
                     (parent_of t (parent_of t x)) RED) (parent_of t (parent_of t x)))) = BLACK"
    by (simp add: t'_def t2_def p_def g_def)
qed

text \<open>Case 2 of the insertion fix-up, right side: \<open>x\<close> is the left child of a red right child.
  A rotation at the parent turns it into case 3, with the old parent in the role of \<open>x\<close>.\<close>
lemma insert_case2_right:
  assumes inv: "insert_inv t T x f" and xr: "x \<noteq> root_index t"
    and pr: "color_of t (parent_of t x) = RED"
    and side: "right_of t (parent_of t (parent_of t x)) = parent_of t x"
      "left_of t (parent_of t x) = x"
    and ub: "color_of t (left_of t (parent_of t (parent_of t x))) = BLACK"
  shows "\<exists>T'. insert_inv (rotate_right t (parent_of t x)) T' (parent_of t x) f
               \<and> inorder T' = inorder T"
    and "same_entries t (rotate_right t (parent_of t x))"
    and "parent_of t x \<noteq> root_index (rotate_right t (parent_of t x))"
    and "parent_of (rotate_right t (parent_of t x)) (parent_of t x) = x"
    and "parent_of (rotate_right t (parent_of t x)) x = parent_of t (parent_of t x)"
    and "color_of (rotate_right t (parent_of t x)) x = RED"
    and "right_of (rotate_right t (parent_of t x)) (parent_of t (parent_of t x)) = x"
    and "right_of (rotate_right t (parent_of t x)) x = parent_of t x"
    and "color_of (rotate_right t (parent_of t x))
           (left_of (rotate_right t (parent_of t x)) (parent_of t (parent_of t x))) = BLACK"
proof -
  define p where "p = parent_of t x"
  define g where "g = parent_of t p"
  define u where "u = left_of t g"
  define c where "c = right_of t x"
  define t' where "t' = rotate_right t p"
  have l: "linked t T" and x: "contains_at t x" "color_of t x = RED"
    and b: "bh_label t f" and rr: "red_red_except t x"
    and rt: "color_of t (root_index t) = BLACK \<or> x = root_index t"
    using inv by (simp_all add: insert_inv_def)
  note fam = insert_family[OF inv xr pr, folded p_def, folded g_def]
  have pc: "contains_at t p" and gc: "contains_at t g" and gb: "color_of t g = BLACK"
    and pg: "p \<noteq> g" and xg: "x \<noteq> g" and xp: "x \<noteq> p"
    and pn: "p \<noteq> NULL_INDEX" and gn: "g \<noteq> NULL_INDEX" and xn: "x \<noteq> NULL_INDEX"
    and proot: "p \<noteq> root_index t"
    using fam by simp_all
  have lg: "right_of t g = p" and rp: "left_of t p = x" and ubl: "color_of t u = BLACK"
    and prd: "color_of t p = RED" and px: "parent_of t x = p" and pp: "parent_of t p = g"
    using side ub pr by (simp_all add: p_def g_def u_def)
  have p2: "contains_at t p" "left_of t p \<noteq> NULL_INDEX"
    using pc rp xn by simp_all
  note pre = rotate_right_pre[OF l p2]
  note gt = rotate_right_getters[OF p2(1) pre(1) refl pre(2) pre(3) pre(4) pre(5) pre(6) pre(7)
      pre(8) pre(9) pre(10), folded t'_def]
  have pre': "c \<noteq> p" "c \<noteq> x" "c = NULL_INDEX \<or> c \<noteq> g" "c = NULL_INDEX \<or> contains_at t c"
    using pre rp pp by (simp_all add: c_def)
  have L': "right_of t' i = (if i = x then p else if i = g then x else right_of t i)" for i
    using lg gn by (auto simp: gt(9) rp pp)
  have R': "left_of t' i = (if i = p then c else left_of t i)" for i
    using lg by (auto simp: gt(10) rp pp c_def)
  have P': "parent_of t' i = (if i = p then x else if i = x then g
                else if i = c \<and> i \<noteq> NULL_INDEX then p else parent_of t i)" for i
    by (auto simp: gt(11) rp pp c_def)
  have C': "color_of t' i = color_of t i" for i by (simp add: gt(2))
  have Ct': "contains_at t' i = contains_at t i" for i by (simp add: gt(1))
  have root': "root_index t' = root_index t"
    using gn by (simp add: gt(8) pp)
  obtain T' where T': "linked t' T'" "inorder T' = inorder T"
    using rotate_right_linked[OF l p2] by (auto simp: t'_def)
  have fe: "f (right_of t i) = f (left_of t i)
        \<and> f i = f (right_of t i) + (if color_of t i = BLACK then 1 else 0)"
    if "contains_at t i" for i
    using bh_labelD_m[OF b that] by simp
  have fx: "f (right_of t p) = f x" "f p = f x" "f c = f x" "f (left_of t x) = f x"
    using fe[OF pc] fe[OF x(1)] rp prd x(2) by (simp_all add: c_def)
  have child_p: "i = g" if "contains_at t i" "right_of t i = p \<or> left_of t i = p" for i
    using linked_child_parent(1)[OF l that(1) pn] that(2) pp by auto
  have child_x: "i = p" if "contains_at t i" "right_of t i = x \<or> left_of t i = x" for i
    using linked_child_parent(1)[OF l that(1) xn] that(2) px by auto
  have lpx: "right_of t p \<noteq> x" using linked_children(5)[OF l pc] rp xn by auto
  have rxp: "left_of t x \<noteq> p"
    using linked_children(1)[OF l x(1)] pp xg pn by auto
  have rgp: "left_of t g \<noteq> p" using linked_children(5)[OF l gc] lg pn by auto
  have rgx: "left_of t g \<noteq> x" using child_x[OF gc] pg by auto
  have "bh_label t' f"
  proof (rule bh_labelI_m)
    show "f NULL_INDEX = 0" using bh_label_null[OF b] .
  next
    fix i assume "contains_at t' i"
    then have ic: "contains_at t i" by (simp add: Ct')
    consider "i = p" | "i = x" | "i = g" | "i \<noteq> p" "i \<noteq> x" "i \<noteq> g" by blast
    then show "f (right_of t' i) = f (left_of t' i)
        \<and> f i = f (right_of t' i) + (if color_of t' i = BLACK then 1 else 0)"
    proof cases
      case 1
      then show ?thesis using fe[OF pc] fx xp pg by (simp add: L' R' C')
    next
      case 2
      then show ?thesis using fx xp xg x(2) by (simp add: L' R' C')
    next
      case 3
      then show ?thesis using fe[OF gc] lg fx xg pg by (simp add: L' R' C')
    next
      case 4
      then show ?thesis using fe[OF ic] by (simp add: L' R' C')
    qed
  qed
  moreover have "red_red_except t' p"
  proof (rule red_red_exceptI_m)
    fix i assume "contains_at t' i" "color_of t' i = RED"
    then have ic: "contains_at t i" and ir: "color_of t i = RED" by (simp_all add: Ct' C')
    have old: "(right_of t i = x \<or> color_of t (right_of t i) = BLACK)
        \<and> (left_of t i = x \<or> color_of t (left_of t i) = BLACK)"
      using red_red_exceptD_m[OF rr ic ir] by simp
    have ig: "i \<noteq> g" using ir gb by auto
    consider "i = p" | "i = x" | "i \<noteq> p" "i \<noteq> x" by blast
    then show "(right_of t' i = p \<or> color_of t' (right_of t' i) = BLACK)
        \<and> (left_of t' i = p \<or> color_of t' (left_of t' i) = BLACK)"
    proof cases
      case 1
      have "color_of t c = BLACK"
        using red_red_exceptD_m[OF rr x] linked_children(4)[OF l x(1)] by (auto simp: c_def)
      then show ?thesis using 1 old lpx xp pg by (simp add: L' R' C')
    next
      case 2
      have "color_of t (left_of t x) = BLACK"
        using red_red_exceptD_m[OF rr x] linked_children(3)[OF l x(1)] by auto
      then show ?thesis using 2 xp by (simp add: L' R' C')
    next
      case 3
      have "right_of t i \<noteq> x" "left_of t i \<noteq> x" using child_x[OF ic] 3 by auto
      then show ?thesis using 3 ig old by (simp add: L' R' C')
    qed
  qed
  moreover have "color_of t' (root_index t') = BLACK \<or> p = root_index t'"
    using rt xr by (simp add: root' C')
  ultimately have "insert_inv t' T' p f"
    using T' pc prd by (simp add: insert_inv_def Ct' C')
  then show "\<exists>T'. insert_inv (rotate_right t (parent_of t x)) T' (parent_of t x) f
               \<and> inorder T' = inorder T"
    using T' by (auto simp: t'_def p_def)
  have "same_entries t t'"
    by (simp add: same_entries_def gt(1,3,4,5,6))
  then show "same_entries t (rotate_right t (parent_of t x))" by (simp add: t'_def p_def)
  show "parent_of t x \<noteq> root_index (rotate_right t (parent_of t x))"
    using proot root' by (simp add: t'_def p_def)
  have "parent_of t' p = x" by (simp add: P')
  then show "parent_of (rotate_right t (parent_of t x)) (parent_of t x) = x"
    by (simp add: t'_def p_def)
  have "parent_of t' x = g" using xp by (simp add: P')
  then show "parent_of (rotate_right t (parent_of t x)) x = parent_of t (parent_of t x)"
    by (simp add: t'_def p_def g_def)
  show "color_of (rotate_right t (parent_of t x)) x = RED"
    using x(2) C' by (simp add: t'_def p_def)
  have "right_of t' g = x" using xg by (simp add: L')
  then show "right_of (rotate_right t (parent_of t x)) (parent_of t (parent_of t x)) = x"
    by (simp add: t'_def p_def g_def)
  have "right_of t' x = p" by (simp add: L')
  then show "right_of (rotate_right t (parent_of t x)) x = parent_of t x"
    by (simp add: t'_def p_def)
  have "color_of t' (left_of t' g) = BLACK"
    using ubl pg by (simp add: R' C' u_def)
  then show "color_of (rotate_right t (parent_of t x))
           (left_of (rotate_right t (parent_of t x)) (parent_of t (parent_of t x))) = BLACK"
    by (simp add: t'_def p_def g_def)
qed



lemma size_subtree_at_le: "size (subtree_at i T) \<le> size T"
  by (induction T) auto

lemma insert_exit:
  assumes inv: "insert_inv t T x f"
    and ex: "x = root_index t \<or> color_of t (parent_of t x) = BLACK"
  shows "red_red_except t NULL_INDEX"
proof (rule red_red_exceptI)
  fix i assume ic: "contains_at t i" and ir: "color_of t i = RED"
  have l: "linked t T" and x: "contains_at t x" and rr: "red_red_except t x"
    using inv by (simp_all add: insert_inv_def)
  have xn: "x \<noteq> NULL_INDEX" using linked_children(6)[OF l x] .
  have "i \<noteq> NULL_INDEX" using linked_children(6)[OF l ic] .
  have nx: "left_of t i \<noteq> x \<and> right_of t i \<noteq> x"
  proof (rule ccontr)
    assume "\<not> (left_of t i \<noteq> x \<and> right_of t i \<noteq> x)"
    then have c: "left_of t i = x \<or> right_of t i = x" by auto
    have pi: "parent_of t x = i" using linked_child_parent(1)[OF l ic xn c] .
    then have "x \<noteq> root_index t"
      using linked_parent(1)[OF l x] \<open>i \<noteq> NULL_INDEX\<close> by auto
    then show False using ex pi ir by auto
  qed
  show "(left_of t i = NULL_INDEX \<or> color_of t (left_of t i) = BLACK)
     \<and> (right_of t i = NULL_INDEX \<or> color_of t (right_of t i) = BLACK)"
    using red_red_exceptD[OF rr ic ir] nx by auto
qed

lemma fix_after_insertion_loop_stop:
  "x = root_index t \<or> color_of t (parent_of t x) = BLACK \<Longrightarrow>
     fix_after_insertion_loop t x = Some t"
  by (subst fix_after_insertion_loop.simps) auto

text \<open>The insertion fix-up loop returns, and restores every invariant but the colour of the
  root.\<close>
lemma fix_after_insertion_loop_correct:
  assumes "insert_inv t T x f"
  shows "\<exists>t' T' f'. fix_after_insertion_loop t x = Some t' \<and> linked t' T'
           \<and> inorder T' = inorder T \<and> bh_label t' f' \<and> red_red_except t' NULL_INDEX
           \<and> same_entries t t'"
  using assms
proof (induction "size T - size (subtree_at x T)" arbitrary: t x f rule: less_induct)
  case less
  note inv = less.prems
  have l: "linked t T" and x: "contains_at t x" and b: "bh_label t f"
    using inv by (simp_all add: insert_inv_def)
  have xn: "x \<noteq> NULL_INDEX" using linked_children(6)[OF l x] .
  show ?case
  proof (cases "x \<noteq> root_index t \<and> color_of t (parent_of t x) = RED")
    case False
    then have ex: "x = root_index t \<or> color_of t (parent_of t x) = BLACK" by auto
    have "fix_after_insertion_loop t x = Some t"
      using fix_after_insertion_loop_stop[OF ex] .
    then show ?thesis
      using insert_exit[OF inv ex] l b by auto
  next
    case True
    then have xr: "x \<noteq> root_index t" and pr: "color_of t (parent_of t x) = RED" by auto
    let ?p = "parent_of t x" and ?g = "parent_of t (parent_of t x)"
    note fam = insert_family[OF inv xr pr]
    have final: ?thesis
      if t3: "fix_after_insertion_loop t x = fix_after_insertion_loop t3 x1"
        and r: "\<exists>T' f'. linked t3 T' \<and> inorder T' = inorder T \<and> bh_label t3 f'"
          "red_red_except t3 NULL_INDEX" "same_entries t t3"
          "color_of t3 (parent_of t3 x1) = BLACK" for t3 x1
    proof -
      have "fix_after_insertion_loop t3 x1 = Some t3"
        using fix_after_insertion_loop_stop[of x1 t3] r(4) by simp
      then show ?thesis using t3 r by auto
    qed
    have recolour: ?thesis
      if y: "(left_of t ?g = ?p \<and> y = right_of t ?g) \<or> (right_of t ?g = ?p \<and> y = left_of t ?g)"
        and yr: "color_of t y = RED"
        and st: "fix_after_insertion_loop t x
               = fix_after_insertion_loop
                   (set_color (set_color (set_color t ?p BLACK) y BLACK) ?g RED) ?g" for y
    proof -
      let ?t1 = "set_color (set_color (set_color t ?p BLACK) y BLACK) ?g RED"
      have inv1: "insert_inv ?t1 T ?g (f(?p := f ?p + 1, y := f y + 1))"
        using insert_case1[OF inv xr pr y yr] .
      have "size (subtree_at x T) < size (subtree_at ?g T)" using fam(13) .
      moreover have "size (subtree_at ?g T) \<le> size T" by (rule size_subtree_at_le)
      ultimately have "size T - size (subtree_at ?g T) < size T - size (subtree_at x T)"
        by simp
      from less.hyps[OF this inv1] obtain t' T' f' where
        r: "fix_after_insertion_loop ?t1 ?g = Some t'" "linked t' T'" "inorder T' = inorder T"
          "bh_label t' f'" "red_red_except t' NULL_INDEX" "same_entries ?t1 t'"
        by blast
      have "same_entries t ?t1" by (simp add: same_entries_def)
      then have "same_entries t t'" using r(6) by (rule same_entries_trans)
      then show ?thesis using r st by auto
    qed
    show ?thesis
    proof (cases "left_of t ?g = ?p")
      case pl: True
      show ?thesis
      proof (cases "color_of t (right_of t ?g) = RED")
        case True
        show ?thesis
        proof (rule recolour[of "right_of t ?g"])
          show "(left_of t ?g = ?p \<and> right_of t ?g = right_of t ?g)
              \<or> (right_of t ?g = ?p \<and> right_of t ?g = left_of t ?g)"
            using pl by simp
          show "color_of t (right_of t ?g) = RED" using True .
          show "fix_after_insertion_loop t x
               = fix_after_insertion_loop
                   (set_color (set_color (set_color t ?p BLACK) (right_of t ?g) BLACK) ?g RED) ?g"
            using xn xr pr pl True
            by (subst fix_after_insertion_loop.simps) (simp add: Let_def)
        qed
      next
        case False
        then have ub: "color_of t (right_of t ?g) = BLACK" by simp
        show ?thesis
        proof (cases "right_of t ?p = x")
          case True
          define t1 where "t1 = rotate_left t ?p"
          note c2 = insert_case2_left[OF inv xr pr pl True ub, folded t1_def]
          obtain T1 where inv1: "insert_inv t1 T1 ?p f" and io1: "inorder T1 = inorder T"
            using c2(1) by blast
          have pr1: "color_of t1 (parent_of t1 ?p) = RED" using c2(4,6) by simp
          have side1: "left_of t1 (parent_of t1 (parent_of t1 ?p)) = parent_of t1 ?p"
            "left_of t1 (parent_of t1 ?p) = ?p"
            "color_of t1 (right_of t1 (parent_of t1 (parent_of t1 ?p))) = BLACK"
            using c2(4,5,7,8,9) by simp_all
          note c3 = insert_case3_left[OF inv1 c2(3) pr1 side1]
          define t3 where "t3 = rotate_right (set_color (set_color t1 (parent_of t1 ?p) BLACK)
                     (parent_of t1 (parent_of t1 ?p)) RED) (parent_of t1 (parent_of t1 ?p))"
          note c3' = c3[folded t3_def]
          show ?thesis
          proof (rule final[of t3 ?p])
            show "fix_after_insertion_loop t x = fix_after_insertion_loop t3 ?p"
              using xn xr pr pl ub True
              by (subst fix_after_insertion_loop.simps)
                (simp add: Let_def t1_def[symmetric] t3_def)
            show "\<exists>T' f'. linked t3 T' \<and> inorder T' = inorder T \<and> bh_label t3 f'"
              using c3'(1) io1 by auto
            show "red_red_except t3 NULL_INDEX" using c3'(2) .
            show "same_entries t t3" using same_entries_trans[OF c2(2) c3'(3)] .
            show "color_of t3 (parent_of t3 ?p) = BLACK" using c3'(4) .
          qed
        next
          case False
          then have xl: "left_of t ?p = x" using fam(5) by auto
          note c3 = insert_case3_left[OF inv xr pr pl xl ub]
          define t3 where "t3 = rotate_right (set_color (set_color t ?p BLACK) ?g RED) ?g"
          note c3' = c3[folded t3_def]
          have nx: "x \<noteq> right_of t ?p" using False by auto
          show ?thesis
          proof (rule final[of t3 x])
            show "fix_after_insertion_loop t x = fix_after_insertion_loop t3 x"
              using xn xr pr pl ub nx
              by (subst fix_after_insertion_loop.simps) (simp add: Let_def t3_def)
            show "\<exists>T' f'. linked t3 T' \<and> inorder T' = inorder T \<and> bh_label t3 f'"
              using c3'(1) by auto
            show "red_red_except t3 NULL_INDEX" using c3'(2) .
            show "same_entries t t3" using c3'(3) .
            show "color_of t3 (parent_of t3 x) = BLACK" using c3'(4) .
          qed
        qed
      qed
    next
      case pl: False
      then have prt: "right_of t ?g = ?p" using fam(6) by auto
      have npl: "?p \<noteq> left_of t ?g" using pl by auto
      show ?thesis
      proof (cases "color_of t (left_of t ?g) = RED")
        case True
        show ?thesis
        proof (rule recolour[of "left_of t ?g"])
          show "(left_of t ?g = ?p \<and> left_of t ?g = right_of t ?g)
              \<or> (right_of t ?g = ?p \<and> left_of t ?g = left_of t ?g)"
            using prt by simp
          show "color_of t (left_of t ?g) = RED" using True .
          show "fix_after_insertion_loop t x
               = fix_after_insertion_loop
                   (set_color (set_color (set_color t ?p BLACK) (left_of t ?g) BLACK) ?g RED) ?g"
            using xn xr pr npl True
            by (subst fix_after_insertion_loop.simps) (simp add: Let_def)
        qed
      next
        case False
        then have ub: "color_of t (left_of t ?g) = BLACK" by simp
        show ?thesis
        proof (cases "left_of t ?p = x")
          case True
          define t1 where "t1 = rotate_right t ?p"
          note c2 = insert_case2_right[OF inv xr pr prt True ub, folded t1_def]
          obtain T1 where inv1: "insert_inv t1 T1 ?p f" and io1: "inorder T1 = inorder T"
            using c2(1) by blast
          have pr1: "color_of t1 (parent_of t1 ?p) = RED" using c2(4,6) by simp
          have side1: "right_of t1 (parent_of t1 (parent_of t1 ?p)) = parent_of t1 ?p"
            "right_of t1 (parent_of t1 ?p) = ?p"
            "color_of t1 (left_of t1 (parent_of t1 (parent_of t1 ?p))) = BLACK"
            using c2(4,5,7,8,9) by simp_all
          note c3 = insert_case3_right[OF inv1 c2(3) pr1 side1]
          define t3 where "t3 = rotate_left (set_color (set_color t1 (parent_of t1 ?p) BLACK)
                     (parent_of t1 (parent_of t1 ?p)) RED) (parent_of t1 (parent_of t1 ?p))"
          note c3' = c3[folded t3_def]
          show ?thesis
          proof (rule final[of t3 ?p])
            show "fix_after_insertion_loop t x = fix_after_insertion_loop t3 ?p"
              using xn xr pr npl ub True
              by (subst fix_after_insertion_loop.simps)
                (simp add: Let_def t1_def[symmetric] t3_def)
            show "\<exists>T' f'. linked t3 T' \<and> inorder T' = inorder T \<and> bh_label t3 f'"
              using c3'(1) io1 by auto
            show "red_red_except t3 NULL_INDEX" using c3'(2) .
            show "same_entries t t3" using same_entries_trans[OF c2(2) c3'(3)] .
            show "color_of t3 (parent_of t3 ?p) = BLACK" using c3'(4) .
          qed
        next
          case False
          then have xl: "right_of t ?p = x" using fam(5) by auto
          note c3 = insert_case3_right[OF inv xr pr prt xl ub]
          define t3 where "t3 = rotate_left (set_color (set_color t ?p BLACK) ?g RED) ?g"
          note c3' = c3[folded t3_def]
          have nx: "x \<noteq> left_of t ?p" using False by auto
          show ?thesis
          proof (rule final[of t3 x])
            show "fix_after_insertion_loop t x = fix_after_insertion_loop t3 x"
              using xn xr pr npl ub nx
              by (subst fix_after_insertion_loop.simps) (simp add: Let_def t3_def)
            show "\<exists>T' f'. linked t3 T' \<and> inorder T' = inorder T \<and> bh_label t3 f'"
              using c3'(1) by auto
            show "red_red_except t3 NULL_INDEX" using c3'(2) .
            show "same_entries t t3" using c3'(3) .
            show "color_of t3 (parent_of t3 x) = BLACK" using c3'(4) .
          qed
        qed
      qed
    qed
  qed
qed

section \<open>Linking a new node\<close>

lemma node_at_emplace_at:
  "n < CAPACITY t \<Longrightarrow> node_at (emplace_at t n nd) j = (if j = n then Some nd else node_at t j)"
  by (auto simp: node_at_def emplace_at_def CAPACITY_def)

lemma emplace_at_getters:
  assumes "n < CAPACITY t"
  shows "contains_at (emplace_at t n nd) j = (j = n \<or> contains_at t j)"
    and "left_of (emplace_at t n nd) j = (if j = n then left_index nd else left_of t j)"
    and "right_of (emplace_at t n nd) j = (if j = n then right_index nd else right_of t j)"
    and "parent_of (emplace_at t n nd) j = (if j = n then parent_index nd else parent_of t j)"
    and "color_of (emplace_at t n nd) j = (if j = n then node_color nd else color_of t j)"
    and "key_of (emplace_at t n nd) j = (if j = n then node_key nd else key_of t j)"
    and "value_of (emplace_at t n nd) j = (if j = n then node_value nd else value_of t j)"
    and "root_index (emplace_at t n nd) = root_index t"
    and "comparator (emplace_at t n nd) = comparator t"
    and "CAPACITY (emplace_at t n nd) = CAPACITY t"
  using assms
  by (simp_all add: getter_defs node_at_emplace_at)
    (simp_all add: emplace_at_def CAPACITY_def)

lemma free_index_Some:
  "free_index t = Some n \<Longrightarrow> n < CAPACITY t \<and> \<not> contains_at t n"
  by (auto simp: free_index_def CAPACITY_def contains_at_def node_at_def find_Some_iff)

lemma free_index_None: "free_index t = None \<longleftrightarrow> tree_size t = CAPACITY t"
proof
  assume "free_index t = None"
  then have "\<forall>i<length (slots t). slots t ! i \<noteq> None"
    by (auto simp: free_index_def find_None_iff)
  then have "\<forall>s\<in>set (slots t). s \<noteq> None"
    by (auto simp: in_set_conv_nth)
  then have "filter (\<lambda>s. s \<noteq> None) (slots t) = slots t"
    by (intro filter_True) simp
  then show "tree_size t = CAPACITY t" by (simp add: tree_size_def CAPACITY_def)
next
  assume a: "tree_size t = CAPACITY t"
  have "slots t ! i \<noteq> None" if "i < length (slots t)" for i
  proof
    assume n: "slots t ! i = None"
    have "slots t ! i \<in> set (slots t)" using that by simp
    then have "length (filter (\<lambda>s. s \<noteq> None) (slots t)) < length (slots t)"
      using n by (intro length_filter_less[of "slots t ! i"]) simp_all
    then show False using a by (simp add: tree_size_def CAPACITY_def)
  qed
  then show "free_index t = None"
    by (auto simp: free_index_def find_None_iff)
qed

text \<open>Inserting index \<open>n\<close> with key \<open>k\<close> into the shape, where the descent ends.\<close>
fun attach ::
  "('k \<Rightarrow> 'k \<Rightarrow> bool) \<Rightarrow> (NodeIndex \<Rightarrow> 'k) \<Rightarrow> 'k \<Rightarrow> NodeIndex \<Rightarrow> NodeIndex tree
    \<Rightarrow> NodeIndex tree" where
  "attach lt kf k n Leaf = Node Leaf n Leaf"
| "attach lt kf k n (Node l j r) =
     (if lt k (kf j) then Node (attach lt kf k n l) j r
      else if lt (kf j) k then Node l j (attach lt kf k n r)
      else Node l j r)"

lemma descend_parent_in:
  "np_i (descend lt kf k T p s) = NULL_INDEX \<Longrightarrow> T \<noteq> Leaf \<Longrightarrow> NULL_INDEX \<notin> set_tree T \<Longrightarrow>
     np_parent (descend lt kf k T p s) \<in> set_tree T"
proof (induction T arbitrary: p s)
  case Leaf
  then show ?case by simp
next
  case (Node l j r)
  show ?case
  proof (cases "lt k (kf j)")
    case True
    then show ?thesis using Node.IH(1)[of j True] Node.prems by (cases l) auto
  next
    case False
    show ?thesis
    proof (cases "lt (kf j) k")
      case True
      then show ?thesis using Node.IH(2)[of j False] Node.prems False by (cases r) auto
    next
      case nk: False
      then show ?thesis using False Node.prems by auto
    qed
  qed
qed

lemma set_attach:
  "np_i (descend lt kf k T p s) = NULL_INDEX \<Longrightarrow> NULL_INDEX \<notin> set_tree T \<Longrightarrow>
     set_tree (attach lt kf k n T) = insert n (set_tree T)"
  by (induction T arbitrary: p s) (auto split: if_splits)

lemma inorder_attach:
  "np_i (descend lt kf k T p s) = NULL_INDEX \<Longrightarrow> NULL_INDEX \<notin> set_tree T \<Longrightarrow>
     \<exists>xs ys. inorder T = xs @ ys \<and> inorder (attach lt kf k n T) = xs @ n # ys"
proof (induction T arbitrary: p s)
  case Leaf
  then show ?case by simp
next
  case (Node l j r)
  show ?case
  proof (cases "lt k (kf j)")
    case True
    then obtain xs ys where "inorder l = xs @ ys" "inorder (attach lt kf k n l) = xs @ n # ys"
      using Node.IH(1)[of j True] Node.prems by auto
    then have "inorder (Node l j r) = xs @ (ys @ j # inorder r)
        \<and> inorder (attach lt kf k n (Node l j r)) = xs @ n # (ys @ j # inorder r)"
      using True by simp
    then show ?thesis by blast
  next
    case False
    show ?thesis
    proof (cases "lt (kf j) k")
      case True
      then obtain xs ys where "inorder r = xs @ ys" "inorder (attach lt kf k n r) = xs @ n # ys"
        using Node.IH(2)[of j False] Node.prems False by auto
      then have "inorder (Node l j r) = (inorder l @ j # xs) @ ys
          \<and> inorder (attach lt kf k n (Node l j r)) = (inorder l @ j # xs) @ n # ys"
        using True False by simp
      then show ?thesis by blast
    next
      case nk: False
      then show ?thesis using False Node.prems by auto
    qed
  qed
qed

lemma sorted_attach:
  assumes "strict_weak_order lt" "kf' n = k" "\<forall>j\<in>set_tree T. kf' j = kf j"
    and "sorted_wrt lt (map kf (inorder T))"
    and "np_i (descend lt kf k T p s) = NULL_INDEX" "NULL_INDEX \<notin> set_tree T"
  shows "sorted_wrt lt (map kf' (inorder (attach lt kf k n T)))"
  using assms(3-)
proof (induction T arbitrary: p s)
  case Leaf
  then show ?case by simp
next
  case (Node l j r)
  have sl: "sorted_wrt lt (map kf (inorder l))" and sr: "sorted_wrt lt (map kf (inorder r))"
    and la: "\<forall>i\<in>set_tree l. lt (kf i) (kf j)" and ar: "\<forall>i\<in>set_tree r. lt (kf j) (kf i)"
    and lr: "\<forall>a\<in>set_tree l. \<forall>b\<in>set_tree r. lt (kf a) (kf b)"
    using Node.prems(2) by (auto simp: sorted_wrt_append)
  have kl: "\<forall>i\<in>set_tree l. kf' i = kf i" and kr: "\<forall>i\<in>set_tree r. kf' i = kf i"
    and kj: "kf' j = kf j"
    using Node.prems(1) by auto
  have ml: "map kf' (inorder l) = map kf (inorder l)" using kl by simp
  have mr: "map kf' (inorder r) = map kf (inorder r)" using kr by simp
  show ?case
  proof (cases "lt k (kf j)")
    case True
    have d: "np_i (descend lt kf k l j True) = NULL_INDEX" using Node.prems(3) True by simp
    have ih: "sorted_wrt lt (map kf' (inorder (attach lt kf k n l)))"
      using Node.IH(1)[OF kl sl d] Node.prems(4) by simp
    have st: "set_tree (attach lt kf k n l) = insert n (set_tree l)"
      using set_attach[OF d] Node.prems(4) by simp
    have a1: "\<forall>i\<in>set_tree (attach lt kf k n l). lt (kf' i) (kf j)"
      using st la kl assms(2) True by auto
    have a2: "\<forall>a\<in>set_tree (attach lt kf k n l). \<forall>b\<in>set_tree r. lt (kf' a) (kf b)"
      using a1 ar swo_trans[OF assms(1)] by blast
    have srr: "sorted_wrt lt (map kf' (inorder r))" using sr by (simp only: mr)
    have ar': "\<forall>i\<in>set_tree r. lt (kf' j) (kf' i)" using ar kj kr by simp
    have a2': "\<forall>a\<in>set_tree (attach lt kf k n l). \<forall>b\<in>set_tree r. lt (kf' a) (kf' b)"
      using a2 kr by simp
    have a1': "\<forall>i\<in>set_tree (attach lt kf k n l). lt (kf' i) (kf' j)" using a1 kj by simp
    show ?thesis
      using True ih srr a1' a2' ar' by (simp add: sorted_wrt_append)
  next
    case False
    show ?thesis
    proof (cases "lt (kf j) k")
      case True
      have d: "np_i (descend lt kf k r j False) = NULL_INDEX"
        using Node.prems(3) True False by simp
      have ih: "sorted_wrt lt (map kf' (inorder (attach lt kf k n r)))"
        using Node.IH(2)[OF kr sr d] Node.prems(4) by simp
      have st: "set_tree (attach lt kf k n r) = insert n (set_tree r)"
        using set_attach[OF d] Node.prems(4) by simp
      have a1: "\<forall>i\<in>set_tree (attach lt kf k n r). lt (kf j) (kf' i)"
        using st ar kr assms(2) True by auto
      have a2: "\<forall>a\<in>set_tree l. \<forall>b\<in>set_tree (attach lt kf k n r). lt (kf a) (kf' b)"
        using a1 la swo_trans[OF assms(1)] by blast
      have sll: "sorted_wrt lt (map kf' (inorder l))" using sl by (simp only: ml)
      have la': "\<forall>i\<in>set_tree l. lt (kf' i) (kf' j)" using la kj kl by simp
      have a2': "\<forall>a\<in>set_tree l. \<forall>b\<in>set_tree (attach lt kf k n r). lt (kf' a) (kf' b)"
        using a2 kl by simp
      have a1': "\<forall>i\<in>set_tree (attach lt kf k n r). lt (kf' j) (kf' i)" using a1 kj by simp
      show ?thesis
        using True False ih sll a1' a2' la' by (simp add: sorted_wrt_append)
    next
      case nk: False
      then show ?thesis using False Node.prems by auto
    qed
  qed
qed


lemma repr_attach:
  assumes "repr t p i T" and "distinct (inorder T)" and "n \<notin> set_tree T" and "n \<noteq> NULL_INDEX"
    and "descend lt kf k T p s = \<lparr>np_i = NULL_INDEX, np_parent = par, np_is_left_child = sd\<rparr>"
    and c: "\<And>j. contains_at t2 j = (j = n \<or> contains_at t j)"
    and n: "left_of t2 n = NULL_INDEX" "right_of t2 n = NULL_INDEX" "parent_of t2 n = par"
    and o: "\<And>j. j \<in> set_tree T \<Longrightarrow>
              parent_of t2 j = parent_of t j
              \<and> left_of t2 j = (if j = par \<and> sd then n else left_of t j)
              \<and> right_of t2 j = (if j = par \<and> \<not> sd then n else right_of t j)"
  shows "repr t2 p (if T = Leaf then n else i) (attach lt kf k n T)"
  using assms(1-5) o
proof (induction T arbitrary: p i s)
  case Leaf
  then show ?case using c[of n] n by simp
next
  case (Node l j r)
  have ij: "i = j" and j: "j \<noteq> NULL_INDEX" "contains_at t j" "parent_of t j = p"
    and rl: "repr t j (left_of t j) l" and rr: "repr t j (right_of t j) r"
    using Node.prems(1) by auto
  have d: "distinct (inorder l)" "distinct (inorder r)" "j \<notin> set_tree l" "j \<notin> set_tree r"
    "set_tree l \<inter> set_tree r = {}"
    using Node.prems(2) by auto
  have nn: "n \<notin> set_tree l" "n \<notin> set_tree r" "n \<noteq> j" using Node.prems(3) by auto
  have nl: "NULL_INDEX \<notin> set_tree l" using repr_contains[OF rl] by blast
  have nr: "NULL_INDEX \<notin> set_tree r" using repr_contains[OF rr] by blast
  have oj: "parent_of t2 j = p"
    "left_of t2 j = (if j = par \<and> sd then n else left_of t j)"
    "right_of t2 j = (if j = par \<and> \<not> sd then n else right_of t j)"
    using Node.prems(6)[of j] j by auto
  have cj: "contains_at t2 j" using c[of j] j by simp
  have frame: "repr t2 j (root_idx U) U"
    if U: "repr t j (root_idx U) U" "distinct (inorder U)" "set_tree U \<subseteq> set_tree (Node l j r)"
      "par \<notin> set_tree U" "j \<notin> set_tree U" for U
  proof (rule repr_frame[OF U(1,2)])
    fix a assume a: "a \<in> set_tree U"
    then have "a \<in> set_tree (Node l j r)" "a \<noteq> par" using U by auto
    then show "contains_at t2 a \<and> left_of t2 a = left_of t a \<and> right_of t2 a = right_of t a"
      using Node.prems(6)[of a] c[of a] repr_contains[OF U(1) a] by auto
  next
    fix a assume a: "a \<in> set_tree U" "a \<noteq> root_idx U"
    then have "a \<in> set_tree (Node l j r)" using U by auto
    then show "parent_of t2 a = parent_of t a" using Node.prems(6)[of a] by simp
  next
    assume "root_idx U \<noteq> NULL_INDEX"
    then obtain u1 u2 where u: "U = Node u1 (root_idx U) u2" by (cases U) auto
    then have "root_idx U \<in> set_tree U" by (metis tree.set_intros(2))
    moreover have "parent_of t (root_idx U) = j" using U(1) u by (metis repr.simps(2))
    ultimately show "parent_of t2 (root_idx U) = j"
      using Node.prems(6)[of "root_idx U"] U(3) by auto
  qed
  show ?case
  proof (cases "lt k (kf j)")
    case True
    then have dl: "descend lt kf k l j True
        = \<lparr>np_i = NULL_INDEX, np_parent = par, np_is_left_child = sd\<rparr>"
      using Node.prems(5) by simp
    have ih: "repr t2 j (if l = Leaf then n else left_of t j) (attach lt kf k n l)"
    proof (rule Node.IH(1)[OF rl d(1) nn(1) Node.prems(4) dl])
      fix a assume "a \<in> set_tree l"
      then show "parent_of t2 a = parent_of t a
              \<and> left_of t2 a = (if a = par \<and> sd then n else left_of t a)
              \<and> right_of t2 a = (if a = par \<and> \<not> sd then n else right_of t a)"
        using Node.prems(6)[of a] by simp
    qed
    have par: "(l = Leaf \<and> par = j \<and> sd) \<or> (l \<noteq> Leaf \<and> par \<in> set_tree l)"
    proof (cases l)
      case Leaf
      then show ?thesis using dl by simp
    next
      case (Node l1 b l2)
      then have "l \<noteq> Leaf" by simp
      moreover have "np_i (descend lt kf k l j True) = NULL_INDEX" using dl by simp
      ultimately have "np_parent (descend lt kf k l j True) \<in> set_tree l"
        using descend_parent_in nl by metis
      then show ?thesis using dl Node by simp
    qed
    have lj: "left_of t2 j = (if l = Leaf then n else left_of t j)"
      using par oj(2) d by auto
    have rj: "right_of t2 j = right_of t j" using par oj(3) d by auto
    have "repr t2 j (right_of t j) r"
      using frame[of r] rr repr_root[OF rr] d par by auto
    then show ?thesis
      using True ih lj rj ij j cj oj(1) by simp
  next
    case False
    then have lt2: "lt (kf j) k" using Node.prems(5) j(1) by (auto split: if_splits)
    then have dr: "descend lt kf k r j False
        = \<lparr>np_i = NULL_INDEX, np_parent = par, np_is_left_child = sd\<rparr>"
      using Node.prems(5) False by simp
    have ih: "repr t2 j (if r = Leaf then n else right_of t j) (attach lt kf k n r)"
    proof (rule Node.IH(2)[OF rr d(2) nn(2) Node.prems(4) dr])
      fix a assume "a \<in> set_tree r"
      then show "parent_of t2 a = parent_of t a
              \<and> left_of t2 a = (if a = par \<and> sd then n else left_of t a)
              \<and> right_of t2 a = (if a = par \<and> \<not> sd then n else right_of t a)"
        using Node.prems(6)[of a] by simp
    qed
    have par: "(r = Leaf \<and> par = j \<and> \<not> sd) \<or> (r \<noteq> Leaf \<and> par \<in> set_tree r)"
    proof (cases r)
      case Leaf
      then show ?thesis using dr by simp
    next
      case (Node r1 b r2)
      then have "r \<noteq> Leaf" by simp
      moreover have "np_i (descend lt kf k r j False) = NULL_INDEX" using dr by simp
      ultimately have "np_parent (descend lt kf k r j False) \<in> set_tree r"
        using descend_parent_in nr by metis
      then show ?thesis using dr Node by simp
    qed
    have rj: "right_of t2 j = (if r = Leaf then n else right_of t j)"
      using par oj(3) d by auto
    have lj: "left_of t2 j = left_of t j" using par oj(2) d by auto
    have "repr t2 j (left_of t j) l"
      using frame[of l] rl repr_root[OF rl] d par by auto
    then show ?thesis
      using False lt2 ih lj rj ij j cj oj(1) by simp
  qed
qed


lemma set_color_id: "color_of t i = c \<Longrightarrow> set_color t i c = t"
proof (cases "node_at t i")
  case None
  then show ?thesis by (simp add: set_color_def update_node_def)
next
  case (Some nd)
  assume "color_of t i = c"
  then have c: "node_color nd = c" using Some by (simp add: color_of_def)
  have i: "i < length (slots t)" "slots t ! i = Some nd"
    using Some by (auto simp: node_at_def split: if_splits)
  have "nd\<lparr>node_color := c\<rparr> = nd" using c by simp
  then have "(slots t)[i := Some (nd\<lparr>node_color := c\<rparr>)] = slots t"
    using i by (simp add: list_update_same_conv)
  then show ?thesis using Some by (simp add: set_color_def update_node_def)
qed

text \<open>The place where the descent ends is an empty child link.\<close>
lemma descend_slot:
  "repr t p i T \<Longrightarrow> T \<noteq> Leaf \<Longrightarrow>
   descend lt kf k T p s = \<lparr>np_i = NULL_INDEX, np_parent = par, np_is_left_child = sd\<rparr> \<Longrightarrow>
     (sd \<longrightarrow> left_of t par = NULL_INDEX \<and> lt k (kf par))
     \<and> (\<not> sd \<longrightarrow> right_of t par = NULL_INDEX \<and> lt (kf par) k)"
proof (induction T arbitrary: p i s)
  case Leaf
  then show ?case by simp
next
  case (Node l j r)
  have j: "j \<noteq> NULL_INDEX"
    and rl: "repr t j (left_of t j) l" and rr: "repr t j (right_of t j) r"
    using Node.prems(1) by auto
  show ?case
  proof (cases "lt k (kf j)")
    case True
    then have dl: "descend lt kf k l j True
        = \<lparr>np_i = NULL_INDEX, np_parent = par, np_is_left_child = sd\<rparr>"
      using Node.prems(3) by simp
    show ?thesis
    proof (cases l)
      case Leaf
      then show ?thesis using dl rl True by simp
    next
      case (Node l1 b l2)
      then show ?thesis using Node.IH(1)[OF rl _ dl] by simp
    qed
  next
    case False
    then have lt2: "lt (kf j) k" using Node.prems(3) j by (auto split: if_splits)
    then have dr: "descend lt kf k r j False
        = \<lparr>np_i = NULL_INDEX, np_parent = par, np_is_left_child = sd\<rparr>"
      using Node.prems(3) False by simp
    show ?thesis
    proof (cases r)
      case Leaf
      then show ?thesis using dr rr lt2 by simp
    next
      case (Node r1 b r2)
      then show ?thesis using Node.IH(2)[OF rr _ dr] by simp
    qed
  qed
qed

text \<open>All invariants in their slot-by-slot form, with the order of the keys.\<close>
definition rb_local ::
  "('k, 'v) FixedRedBlackTree \<Rightarrow> NodeIndex tree \<Rightarrow> (NodeIndex \<Rightarrow> nat) \<Rightarrow> bool" where
  "rb_local t T f =
     (linked t T \<and> bh_label t f \<and> red_red_except t NULL_INDEX
      \<and> color_of t (root_index t) = BLACK
      \<and> sorted_wrt (comparator t) (map (key_of t) (inorder T)))"

lemma blacken_root:
  assumes "linked t T" "bh_label t f" "red_red_except t NULL_INDEX"
  shows "\<exists>f'. bh_label (set_color t (root_index t) BLACK) f'"
    and "red_red_except (set_color t (root_index t) BLACK) NULL_INDEX"
    and "color_of (set_color t (root_index t) BLACK) (root_index t) = BLACK"
proof -
  let ?r = "root_index t" and ?t' = "set_color t (root_index t) BLACK"
  show "color_of ?t' ?r = BLACK" by (cases "contains_at t ?r") auto
  show "red_red_except ?t' NULL_INDEX"
  proof (rule red_red_exceptI)
    fix i assume "contains_at ?t' i" "color_of ?t' i = RED"
    then have "contains_at t i" "color_of t i = RED" by (auto split: if_splits)
    from red_red_exceptD[OF assms(3) this] show
      "(left_of ?t' i = NULL_INDEX \<or> color_of ?t' (left_of ?t' i) = BLACK)
     \<and> (right_of ?t' i = NULL_INDEX \<or> color_of ?t' (right_of ?t' i) = BLACK)"
      by auto
  qed
  show "\<exists>f'. bh_label ?t' f'"
  proof (cases "color_of t ?r = RED")
    case False
    then have "?t' = t" using set_color_id[of t ?r BLACK] by simp
    then show ?thesis using assms(2) by auto
  next
    case True
    then have rc: "contains_at t ?r" by (rule red_contains)
    have rn: "?r \<noteq> NULL_INDEX" using linked_children(6)[OF assms(1) rc] .
    have nochild: "left_of t i \<noteq> ?r \<and> right_of t i \<noteq> ?r" if ic: "contains_at t i" for i
    proof (rule ccontr)
      assume "\<not> (left_of t i \<noteq> ?r \<and> right_of t i \<noteq> ?r)"
      then have "left_of t i = ?r \<or> right_of t i = ?r" by auto
      from linked_child_parent(1)[OF assms(1) ic rn this]
      show False using linked_parent(1)[OF assms(1) rc] linked_children(6)[OF assms(1) ic]
        by simp
    qed
    have "bh_label ?t' (f(?r := f ?r + 1))"
    proof (rule bh_labelI)
      show "(f(?r := f ?r + 1)) NULL_INDEX = 0" using bh_label_null[OF assms(2)] rn by simp
    next
      fix i assume "contains_at ?t' i"
      then have ic: "contains_at t i" by simp
      show "(f(?r := f ?r + 1)) (left_of ?t' i) = (f(?r := f ?r + 1)) (right_of ?t' i)
          \<and> (f(?r := f ?r + 1)) i
            = (f(?r := f ?r + 1)) (left_of ?t' i) + (if color_of ?t' i = BLACK then 1 else 0)"
        using bh_labelD[OF assms(2) ic] nochild[OF ic] True rc by auto
    qed
    then show ?thesis by blast
  qed
qed


lemma insert_new_at_full:
  "free_index t = None \<Longrightarrow> insert_new_at t np k v = Some (Inl CapacityExceeded)"
  by (simp add: insert_new_at_def)

text \<open>With room left, \<^verbatim>\<open>insert_new_at\<close> returns: the new entry is in a slot that was free, every
  other entry is where it was, and all invariants hold again.\<close>
lemma insert_new_at_correct:
  assumes rb: "rb_local t T f" and cap: "CAPACITY t < NULL_INDEX"
    and swo: "strict_weak_order (comparator t)"
    and np: "np = descend (comparator t) (key_of t) k T NULL_INDEX True"
    and absent: "np_i np = NULL_INDEX"
    and room: "tree_size t < CAPACITY t"
  shows "\<exists>t' n T' f'. insert_new_at t np k v = Some (Inr (t', np\<lparr>np_i := n\<rparr>))
           \<and> rb_local t' T' f' \<and> \<not> contains_at t n
           \<and> (\<forall>j. contains_at t' j = (j = n \<or> contains_at t j))
           \<and> key_of t' n = k \<and> value_of t' n = v
           \<and> (\<forall>j. j \<noteq> n \<longrightarrow> key_of t' j = key_of t j \<and> value_of t' j = value_of t j)
           \<and> comparator t' = comparator t \<and> CAPACITY t' = CAPACITY t
           \<and> (\<exists>xs ys. inorder T = xs @ ys \<and> inorder T' = xs @ n # ys)"
proof -
  have l: "linked t T" and b: "bh_label t f" and rr: "red_red_except t NULL_INDEX"
    and rtb: "color_of t (root_index t) = BLACK"
    and so: "sorted_wrt (comparator t) (map (key_of t) (inorder T))"
    using rb by (simp_all add: rb_local_def)
  have r: "repr t NULL_INDEX (root_index t) T" and d: "distinct (inorder T)"
    and st: "set_tree T = {i. contains_at t i}"
    using l by (simp_all add: linked_def)
  have nullT: "NULL_INDEX \<notin> set_tree T" using st linked_null[OF l] by simp
  obtain n where fi: "free_index t = Some n"
    using room free_index_None[of t] by (cases "free_index t") auto
  have nlt: "n < CAPACITY t" and nc: "\<not> contains_at t n"
    using free_index_Some[OF fi] by simp_all
  have nn: "n \<noteq> NULL_INDEX" using nlt cap by simp
  have nT: "n \<notin> set_tree T" using st nc by simp
  define par where "par = np_parent np"
  define sd where "sd = np_is_left_child np"
  have npe: "descend (comparator t) (key_of t) k T NULL_INDEX True
      = \<lparr>np_i = NULL_INDEX, np_parent = par, np_is_left_child = sd\<rparr>"
    using np absent by (simp add: par_def sd_def)
  define nd where "nd = \<lparr>node_key = k, node_value = v, parent_index = par,
      left_index = NULL_INDEX, right_index = NULL_INDEX, node_color = RED\<rparr>"
  define t1 where "t1 = emplace_at t n nd"
  define t2 where "t2 = (if par = NULL_INDEX then t1\<lparr>root_index := n\<rparr>
                     else if sd then set_left t1 par n else set_right t1 par n)"
  note e = emplace_at_getters[OF nlt, of nd, folded t1_def]
  have parT: "(T = Leaf \<and> par = NULL_INDEX) \<or> (T \<noteq> Leaf \<and> par \<in> set_tree T)"
  proof (cases T)
    case Leaf
    then show ?thesis using npe by simp
  next
    case (Node l1 a l2)
    then have "T \<noteq> Leaf" by simp
    moreover have "np_i (descend (comparator t) (key_of t) k T NULL_INDEX True) = NULL_INDEX"
      using npe by simp
    ultimately have "np_parent (descend (comparator t) (key_of t) k T NULL_INDEX True) \<in> set_tree T"
      using descend_parent_in nullT by metis
    then show ?thesis using npe Node by simp
  qed
  have parc: "par \<noteq> NULL_INDEX \<Longrightarrow> contains_at t par \<and> par \<noteq> n"
    using parT st nc by auto
  have slot: "par \<noteq> NULL_INDEX \<Longrightarrow>
      (sd \<longrightarrow> left_of t par = NULL_INDEX) \<and> (\<not> sd \<longrightarrow> right_of t par = NULL_INDEX)"
    using descend_slot[OF r _ npe] parT by auto
  have G: "contains_at t2 j = (j = n \<or> contains_at t j)"
    "left_of t2 j = (if j = n then NULL_INDEX
                     else if j = par \<and> par \<noteq> NULL_INDEX \<and> sd then n else left_of t j)"
    "right_of t2 j = (if j = n then NULL_INDEX
                      else if j = par \<and> par \<noteq> NULL_INDEX \<and> \<not> sd then n else right_of t j)"
    "parent_of t2 j = (if j = n then par else parent_of t j)"
    "color_of t2 j = (if j = n then RED else color_of t j)"
    "key_of t2 j = (if j = n then k else key_of t j)"
    "value_of t2 j = (if j = n then v else value_of t j)" for j
    using parc by (auto simp: t2_def e nd_def)
  have G0: "root_index t2 = (if par = NULL_INDEX then n else root_index t)"
    "comparator t2 = comparator t" "CAPACITY t2 = CAPACITY t"
    by (auto simp: t2_def e)
  define T2 where "T2 = attach (comparator t) (key_of t) k n T"
  have rep2: "repr t2 NULL_INDEX (if T = Leaf then n else root_index t) T2"
    unfolding T2_def
  proof (rule repr_attach[OF r d nT nn npe])
    fix j show "contains_at t2 j = (j = n \<or> contains_at t j)" by (rule G(1))
  next
    show "left_of t2 n = NULL_INDEX" "right_of t2 n = NULL_INDEX" "parent_of t2 n = par"
      by (simp_all add: G)
  next
    fix j assume "j \<in> set_tree T"
    then have "j \<noteq> n" "j \<noteq> NULL_INDEX" using nT nullT by auto
    then show "parent_of t2 j = parent_of t j
              \<and> left_of t2 j = (if j = par \<and> sd then n else left_of t j)
              \<and> right_of t2 j = (if j = par \<and> \<not> sd then n else right_of t j)"
      by (auto simp: G)
  qed
  obtain xs ys where io: "inorder T = xs @ ys" "inorder T2 = xs @ n # ys"
    using inorder_attach[of "comparator t" "key_of t" k T NULL_INDEX True n] npe nullT
    by (auto simp: T2_def)
  have d2: "distinct (inorder T2)" using io d nT by (metis distinct_append distinct.simps(2)
        Un_iff set_append set_inorder disjoint_insert(1) list.simps(15) Int_insert_right_if0)
  have s2: "set_tree T2 = insert n (set_tree T)"
    using set_attach[of "comparator t" "key_of t" k T NULL_INDEX True n] npe nullT
    by (simp add: T2_def)
  have l2: "linked t2 T2"
    proof -
    have "(if T = Leaf then n else root_index t) = root_index t2"
      using parT nullT by (auto simp: G0(1))
    then have "repr t2 NULL_INDEX (root_index t2) T2" using rep2 by simp
    moreover have "set_tree T2 = {i. contains_at t2 i}" using s2 st by (auto simp: G(1))
    ultimately show ?thesis using d2 by (simp add: linked_def)
  qed
  have so2: "sorted_wrt (comparator t2) (map (key_of t2) (inorder T2))"
    unfolding T2_def G0(2)
  proof (rule sorted_attach[OF swo _ _ so _ nullT])
    show "key_of t2 n = k" by (simp add: G)
    show "\<forall>j\<in>set_tree T. key_of t2 j = key_of t j" using nT by (auto simp: G)
    show "np_i (descend (comparator t) (key_of t) k T NULL_INDEX True) = NULL_INDEX"
      using npe by simp
  qed
  define f2 where "f2 = f(n := 0)"
  have childn: "left_of t i \<noteq> n \<and> right_of t i \<noteq> n" if "contains_at t i" for i
    using linked_children(1,2)[OF l that] nc nn by auto
  have b2: "bh_label t2 f2"
  proof (rule bh_labelI)
    show "f2 NULL_INDEX = 0" using bh_label_null[OF b] nn by (simp add: f2_def)
  next
    fix i assume ic2: "contains_at t2 i"
    show "f2 (left_of t2 i) = f2 (right_of t2 i)
        \<and> f2 i = f2 (left_of t2 i) + (if color_of t2 i = BLACK then 1 else 0)"
    proof (cases "i = n")
      case True
      then show ?thesis using bh_label_null[OF b] nn by (simp add: G f2_def)
    next
      case False
      then have ic: "contains_at t i" using ic2 by (simp add: G)
      show ?thesis
      proof (cases "i = par \<and> par \<noteq> NULL_INDEX")
        case True
        then show ?thesis
          using False bh_labelD[OF b ic] childn[OF ic] slot bh_label_null[OF b]
          by (auto simp: G f2_def)
      next
        case np: False
        then show ?thesis
          using False bh_labelD[OF b ic] childn[OF ic] by (auto simp: G f2_def)
      qed
    qed
  qed
  have rr2: "red_red_except t2 n"
  proof (rule red_red_exceptI)
    fix i assume ic2: "contains_at t2 i" and ir2: "color_of t2 i = RED"
    show "(left_of t2 i = n \<or> color_of t2 (left_of t2 i) = BLACK)
       \<and> (right_of t2 i = n \<or> color_of t2 (right_of t2 i) = BLACK)"
    proof (cases "i = n")
      case True
      then show ?thesis using linked_null[OF l] nn by (simp add: G)
    next
      case False
      then have ic: "contains_at t i" and ir: "color_of t i = RED"
        using ic2 ir2 by (simp_all add: G)
      show ?thesis
        using False red_red_exceptD[OF rr ic ir] childn[OF ic] linked_null[OF l]
        by (auto simp: G)
    qed
  qed
  have root2: "color_of t2 (root_index t2) = BLACK \<or> n = root_index t2"
  proof (cases "par = NULL_INDEX")
    case True
    then show ?thesis by (simp add: G0)
  next
    case False
    then have "T \<noteq> Leaf" using parT by auto
    then have "root_index t \<in> set_tree T" using r by (cases T) auto
    then have "root_index t \<noteq> n" using nT by auto
    then show ?thesis using False rtb by (simp add: G0 G)
  qed
  have inv2: "insert_inv t2 T2 n f2"
    using l2 b2 rr2 root2 by (simp add: insert_inv_def G)
  have "set_color t2 n RED = t2" by (rule set_color_id) (simp add: G)
  then obtain t3 T3 f3 where
    r3: "fix_after_insertion_loop (set_color t2 n RED) n = Some t3" "linked t3 T3"
      "inorder T3 = inorder T2" "bh_label t3 f3" "red_red_except t3 NULL_INDEX"
      "same_entries t2 t3"
    using fix_after_insertion_loop_correct[OF inv2] by auto
  define t4 where "t4 = set_color t3 (root_index t3) BLACK"
  have fin: "insert_new_at t np k v = Some (Inr (t4, np\<lparr>np_i := n\<rparr>))"
  proof -
    have "insert_new_at t np k v
        = map_option (\<lambda>t'. Inr (t', np\<lparr>np_i := n\<rparr>)) (fix_after_insertion t2 n)"
      unfolding insert_new_at_def t2_def t1_def nd_def par_def sd_def
      by (simp add: fi Let_def)
    moreover have "fix_after_insertion t2 n = Some t4"
      using r3(1) by (simp add: fix_after_insertion_def t4_def Let_def)
    ultimately show ?thesis by simp
  qed
  obtain f4 where b4: "bh_label t4 f4"
    using blacken_root(1)[OF r3(2,4,5)] by (auto simp: t4_def)
  have se: "\<And>j. contains_at t3 j = contains_at t2 j" "\<And>j. key_of t3 j = key_of t2 j"
    "\<And>j. value_of t3 j = value_of t2 j" "comparator t3 = comparator t2"
    "CAPACITY t3 = CAPACITY t2"
    using r3(6) by (simp_all add: same_entries_def)
  have so4: "sorted_wrt (comparator t4) (map (key_of t4) (inorder T3))"
  proof -
    have "key_of t4 = key_of t2" by (rule ext) (simp add: t4_def se)
    then show ?thesis using so2 r3(3) by (simp add: t4_def se)
  qed
  have rb4: "rb_local t4 T3 f4"
    using r3(2) b4 blacken_root(2,3)[OF r3(2,4,5)] so4
    by (simp add: rb_local_def t4_def)
  have "\<exists>xs ys. inorder T = xs @ ys \<and> inorder T3 = xs @ n # ys"
    using io r3(3) by auto
  moreover have "\<forall>j. contains_at t4 j = (j = n \<or> contains_at t j)"
    by (simp add: t4_def se G)
  moreover have "key_of t4 n = k \<and> value_of t4 n = v" by (simp add: t4_def se G)
  moreover have "\<forall>j. j \<noteq> n \<longrightarrow> key_of t4 j = key_of t j \<and> value_of t4 j = value_of t j"
    by (simp add: t4_def se G)
  moreover have "comparator t4 = comparator t \<and> CAPACITY t4 = CAPACITY t"
    by (simp add: t4_def se G0)
  ultimately show ?thesis using fin rb4 nc by blast
qed


section \<open>The invariants, slot by slot and as stated\<close>

lemma color_of_absent: "\<not> contains_at t i \<Longrightarrow> color_of t i = BLACK"
  by (simp add: color_of_def contains_at_def split: option.splits)

lemma bh_label_black_height:
  "repr t p i T \<Longrightarrow> bh_label t f \<Longrightarrow> black_height t T = f i \<and> equal_black_paths t T"
proof (induction T arbitrary: p i)
  case Leaf
  then show ?case using bh_label_null[of t f] by simp
next
  case (Node l a r)
  have ia: "i = a" and c: "contains_at t a"
    and l: "repr t a (left_of t a) l" and r: "repr t a (right_of t a) r"
    using Node.prems(1) by auto
  have "black_height t l = f (left_of t a) \<and> equal_black_paths t l"
    using Node.IH(1)[OF l Node.prems(2)] .
  moreover have "black_height t r = f (right_of t a) \<and> equal_black_paths t r"
    using Node.IH(2)[OF r Node.prems(2)] .
  ultimately show ?case using bh_labelD[OF Node.prems(2) c] ia by simp
qed

lemma equal_black_paths_subtree:
  "equal_black_paths t T \<Longrightarrow> equal_black_paths t (subtree_at x T)"
  by (induction T) auto

lemma rb_local_invariants:
  assumes "rb_local t T f" "CAPACITY t < NULL_INDEX"
  shows "red_black_invariants t"
proof -
  have l: "linked t T" and b: "bh_label t f" and rr: "red_red_except t NULL_INDEX"
    and rtb: "color_of t (root_index t) = BLACK"
    and so: "sorted_wrt (comparator t) (map (key_of t) (inorder T))"
    using assms(1) by (simp_all add: rb_local_def)
  have sh: "shape t = T" by (rule linked_shape[OF l])
  have r: "repr t NULL_INDEX (root_index t) T" using l by (simp add: linked_def)
  have "well_linked t" by (rule well_linkedI[OF l assms(2)])
  moreover have "bst_order t" using so by (simp add: bst_order_def sh)
  moreover have "root_black t" using rtb by (simp add: root_black_def)
  moreover have "no_red_red t"
    unfolding no_red_red_def sh list_all_iff
  proof (intro ballI impI)
    fix i assume "i \<in> set (inorder T)" and ir: "color_of t i = RED"
    then have c: "contains_at t i" using l by (auto simp: linked_def)
    show "color_of t (left_of t i) = BLACK \<and> color_of t (right_of t i) = BLACK"
      using red_red_exceptD[OF rr c ir] color_of_absent[OF linked_null[OF l]] by auto
  qed
  moreover have "equal_black_paths t (shape t)"
    using bh_label_black_height[OF r b] by (simp add: sh)
  ultimately show ?thesis by (simp add: red_black_invariants_def)
qed

lemma invariants_rb_local:
  assumes "red_black_invariants t"
  shows "CAPACITY t < NULL_INDEX
    \<and> rb_local t (shape t) (\<lambda>i. black_height t (subtree_at i (shape t)))"
proof -
  let ?T = "shape t"
  let ?f = "\<lambda>i. black_height t (subtree_at i ?T)"
  have cap: "CAPACITY t < NULL_INDEX" and l: "linked t ?T"
    using assms by (simp_all add: red_black_invariants_def well_linked_iff)
  have so: "sorted_wrt (comparator t) (map (key_of t) (inorder ?T))"
    and rtb: "color_of t (root_index t) = BLACK"
    and nrr: "no_red_red t" and eq: "equal_black_paths t ?T"
    using assms by (simp_all add: red_black_invariants_def bst_order_def root_black_def)
  have st: "set_tree ?T = {i. contains_at t i}" using l by (simp add: linked_def)
  have b: "bh_label t ?f"
  proof (rule bh_labelI)
    have "NULL_INDEX \<notin> set_tree ?T" using st linked_null[OF l] by simp
    then show "?f NULL_INDEX = 0" by simp
  next
    fix i assume c: "contains_at t i"
    have sub: "subtree_at i ?T
        = Node (subtree_at (left_of t i) ?T) i (subtree_at (right_of t i) ?T)"
      by (rule linked_subtree(1)[OF l c])
    have "equal_black_paths t (subtree_at i ?T)" by (rule equal_black_paths_subtree[OF eq])
    then have "equal_black_paths t
        (Node (subtree_at (left_of t i) ?T) i (subtree_at (right_of t i) ?T))"
      using sub by simp
    then have e: "?f (left_of t i) = ?f (right_of t i)" by simp
    have "?f i = black_height t
        (Node (subtree_at (left_of t i) ?T) i (subtree_at (right_of t i) ?T))"
      using sub by simp
    then have "?f i = ?f (left_of t i) + (if color_of t i = BLACK then 1 else 0)" by simp
    then show "?f (left_of t i) = ?f (right_of t i)
        \<and> ?f i = ?f (left_of t i) + (if color_of t i = BLACK then 1 else 0)"
      using e by simp
  qed
  have rr: "red_red_except t NULL_INDEX"
  proof (rule red_red_exceptI)
    fix i assume c: "contains_at t i" and ir: "color_of t i = RED"
    then have "i \<in> set (inorder ?T)" using st by simp
    then show "(left_of t i = NULL_INDEX \<or> color_of t (left_of t i) = BLACK)
       \<and> (right_of t i = NULL_INDEX \<or> color_of t (right_of t i) = BLACK)"
      using nrr ir by (auto simp: no_red_red_def list_all_iff)
  qed
  show ?thesis using cap l b rr rtb so by (simp add: rb_local_def)
qed

lemma invariants_linked: "red_black_invariants t \<Longrightarrow> linked t (shape t)"
  by (simp add: red_black_invariants_def well_linked_iff)

lemma rb_local_shape: "rb_local t T f \<Longrightarrow> shape t = T"
  by (simp add: rb_local_def linked_shape)

section \<open>Looking a key up\<close>

text \<open>The entries of a map in the order of its tree, as (key, value) pairs.\<close>
definition entries :: "('k, 'v) FixedMap \<Rightarrow> ('k \<times> 'v) list" where
  "entries m =
     map (\<lambda>i. (key_of (map_tree m) i, value_of (map_tree m) i)) (inorder (shape (map_tree m)))"

lemma invariants_sorted:
  "red_black_invariants t \<Longrightarrow> sorted_wrt (comparator t) (map (key_of t) (inorder (shape t)))"
  by (simp add: red_black_invariants_def bst_order_def)

lemma invariants_cap: "red_black_invariants t \<Longrightarrow> CAPACITY t < NULL_INDEX"
  by (simp add: red_black_invariants_def well_linked_def)

lemma lookup_descend:
  assumes "red_black_invariants t"
  shows "index_of_node_with_parent t k
           = Some (descend (comparator t) (key_of t) k (shape t) NULL_INDEX True)"
proof -
  have l: "linked t (shape t)" by (rule invariants_linked[OF assms])
  then have "repr t NULL_INDEX (root_index t) (shape t)" by (simp add: linked_def)
  then show ?thesis
    using descent_refines[of t NULL_INDEX "root_index t" "shape t" k True] linked_null[OF l]
    by (simp add: index_of_node_with_parent_def)
qed

text \<open>The descent ends on the one entry whose key is equivalent to the key looked up, or on
  the null index when there is none.\<close>
lemma lookup_result:
  assumes inv: "red_black_invariants t" and swo: "strict_weak_order (comparator t)"
  shows "\<exists>np. index_of_node_with_parent t k = Some np
           \<and> np = descend (comparator t) (key_of t) k (shape t) NULL_INDEX True
           \<and> (if \<exists>j. contains_at t j \<and> equivalent (comparator t) k (key_of t j)
              then contains_at t (np_i np) \<and> equivalent (comparator t) k (key_of t (np_i np))
              else np_i np = NULL_INDEX \<and> \<not> contains_at t (np_i np))"
proof -
  let ?np = "descend (comparator t) (key_of t) k (shape t) NULL_INDEX True"
  have l: "linked t (shape t)" by (rule invariants_linked[OF inv])
  have st: "set_tree (shape t) = {i. contains_at t i}" using l by (simp add: linked_def)
  have nn: "\<not> contains_at t NULL_INDEX" by (rule linked_null[OF l])
  have "(np_i ?np = NULL_INDEX
            \<and> (\<forall>j\<in>set_tree (shape t). \<not> equivalent (comparator t) k (key_of t j)))
         \<or> (np_i ?np \<in> set_tree (shape t)
            \<and> equivalent (comparator t) k (key_of t (np_i ?np)))"
    by (rule descend_result[OF swo invariants_sorted[OF inv]])
  then have "if \<exists>j. contains_at t j \<and> equivalent (comparator t) k (key_of t j)
      then contains_at t (np_i ?np) \<and> equivalent (comparator t) k (key_of t (np_i ?np))
      else np_i ?np = NULL_INDEX \<and> \<not> contains_at t (np_i ?np)"
    using st nn by auto
  then show ?thesis using lookup_descend[OF inv, of k] by simp
qed

lemma equivalent_entry_unique:
  assumes inv: "red_black_invariants t" and swo: "strict_weak_order (comparator t)"
    and "contains_at t i" "contains_at t j"
    and "equivalent (comparator t) k (key_of t i)" "equivalent (comparator t) k (key_of t j)"
  shows "i = j"
proof -
  have l: "linked t (shape t)" by (rule invariants_linked[OF inv])
  then have "distinct (inorder (shape t))" "i \<in> set (inorder (shape t))"
    "j \<in> set (inorder (shape t))"
    using assms(3,4) by (simp_all add: linked_def)
  then show ?thesis
    using sorted_equivalent_unique[OF swo invariants_sorted[OF inv] _ _ _ assms(5,6)] by simp
qed

lemma contains_iff:
  assumes inv: "red_black_invariants (map_tree m)"
    and swo: "strict_weak_order (comparator (map_tree m))"
  shows "contains m k
    = Some (\<exists>j. contains_at (map_tree m) j
                \<and> equivalent (comparator (map_tree m)) k (key_of (map_tree m) j))"
  using lookup_result[OF inv swo, of k]
  by (auto simp: contains_def contains_node_def index_of_node_or_null_def split: if_splits)

lemma contains_entries:
  assumes inv: "red_black_invariants (map_tree m)"
    and swo: "strict_weak_order (comparator (map_tree m))"
  shows "contains m k
    = Some (\<exists>e\<in>set (entries m). equivalent (comparator (map_tree m)) k (fst e))"
proof -
  have "set_tree (shape (map_tree m)) = {i. contains_at (map_tree m) i}"
    using invariants_linked[OF inv] by (simp add: linked_def)
  then show ?thesis
    unfolding contains_iff[OF inv swo] entries_def by auto
qed

lemma dereference_create_iterator:
  assumes "contains_at (map_tree m) i" "\<not> contains_at (map_tree m) NULL_INDEX"
  shows "dereference (map_tree m) (create_iterator this m i)
           = Some (key_of (map_tree m) i, value_of (map_tree m) i)"
proof -
  have "i \<noteq> NULL_INDEX" using assms by auto
  moreover have "i < CAPACITY (map_tree m)" by (rule contains_at_less[OF assms(1)])
  moreover obtain n where "node_at (map_tree m) i = Some n"
    using assms(1) by (auto simp: contains_at_def)
  ultimately show ?thesis
    using assms(1)
    by (simp add: dereference_def create_iterator_def forward_iterator_def PairProvider_ctor_def
        update_storage_def Let_def get_def replace_null_index_with_capacity_for_end_iterator_def
        max_size_def key_of_def value_of_def)
qed

lemma size_entries:
  "red_black_invariants (map_tree m) \<Longrightarrow> length (entries m) = size_fm m"
  using linked_size[OF invariants_linked, of "map_tree m"]
  by (simp add: entries_def size_fm_def)

text \<open>A new entry in a map that has room.\<close>
lemma insert_new_at_map:
  assumes inv: "red_black_invariants t" and swo: "strict_weak_order (comparator t)"
    and np: "index_of_node_with_parent t k = Some np" and absent: "\<not> contains_at t (np_i np)"
    and room: "tree_size t < CAPACITY t"
  shows "\<exists>t' n. insert_new_at t np k v = Some (Inr (t', np\<lparr>np_i := n\<rparr>))
           \<and> red_black_invariants t' \<and> \<not> contains_at t n \<and> contains_at t' n
           \<and> key_of t' n = k \<and> value_of t' n = v
           \<and> comparator t' = comparator t \<and> CAPACITY t' = CAPACITY t
           \<and> tree_size t' = tree_size t + 1
           \<and> (\<exists>xs ys. inorder (shape t) = xs @ ys \<and> inorder (shape t') = xs @ n # ys)
           \<and> (\<forall>j. j \<noteq> n \<longrightarrow> contains_at t' j = contains_at t j
                     \<and> key_of t' j = key_of t j \<and> value_of t' j = value_of t j)"
proof -
  let ?f = "\<lambda>i. black_height t (subtree_at i (shape t))"
  have cap: "CAPACITY t < NULL_INDEX" and rb: "rb_local t (shape t) ?f"
    using invariants_rb_local[OF inv] by simp_all
  have npd: "np = descend (comparator t) (key_of t) k (shape t) NULL_INDEX True"
    using lookup_descend[OF inv, of k] np by simp
  have ab: "np_i np = NULL_INDEX"
    using lookup_result[OF inv swo, of k] np absent by (auto split: if_splits)
  obtain t' n T' f' where r:
    "insert_new_at t np k v = Some (Inr (t', np\<lparr>np_i := n\<rparr>))"
    "rb_local t' T' f'" "\<not> contains_at t n"
    "\<forall>j. contains_at t' j = (j = n \<or> contains_at t j)"
    "key_of t' n = k" "value_of t' n = v"
    "\<forall>j. j \<noteq> n \<longrightarrow> key_of t' j = key_of t j \<and> value_of t' j = value_of t j"
    "comparator t' = comparator t" "CAPACITY t' = CAPACITY t"
    "\<exists>xs ys. inorder (shape t) = xs @ ys \<and> inorder T' = xs @ n # ys"
    using insert_new_at_correct[OF rb cap swo npd ab room, of v] by blast
  have inv': "red_black_invariants t'"
    using rb_local_invariants[OF r(2)] cap r(9) by simp
  have sh: "shape t' = T'" by (rule rb_local_shape[OF r(2)])
  have "{i. contains_at t' i} = insert n {i. contains_at t i}" using r(4) by auto
  then have sz: "tree_size t' = tree_size t + 1"
    using r(3) finite_contains[of t] by (simp add: tree_size_card)
  show ?thesis
    using r inv' sz sh by auto
qed


section \<open>insert\<close>

text \<open>
  C2. For every map that satisfies the red-black invariants, under a comparator that is a
  strict weak order: \<^verbatim>\<open>insert\<close> with a key already present (an entry with an equivalent key
  exists) leaves the map as it is, so the stored value and the size are unchanged, and
  returns an iterator positioned at the existing entry together with \<open>False\<close>; with a key not
  present and \<^verbatim>\<open>size() < CAPACITY\<close> it adds the entry, increases the size by one, and returns
  an iterator positioned at the new entry together with \<open>True\<close>.
\<close>
theorem insert_first_wins:
  assumes inv: "red_black_invariants (map_tree m)"
    and swo: "strict_weak_order (comparator (map_tree m))"
  shows "\<exists>present. contains m k = Some present
    \<and> (present \<longrightarrow>
         (\<exists>i. insert_fm this m (k, v) = Some (Inr (m, create_iterator this m i, False))
              \<and> contains_at (map_tree m) i
              \<and> equivalent (comparator (map_tree m)) k (key_of (map_tree m) i)
              \<and> dereference (map_tree m) (create_iterator this m i)
                  = Some (key_of (map_tree m) i, value_of (map_tree m) i)))
    \<and> (\<not> present \<and> size_fm m < max_size m \<longrightarrow>
         (\<exists>m' it. insert_fm this m (k, v) = Some (Inr (m', it, True))
              \<and> size_fm m' = size_fm m + 1
              \<and> dereference (map_tree m') it = Some (k, v)
              \<and> contains m' k = Some True
              \<and> set (entries m') = insert (k, v) (set (entries m))))"
proof -
  let ?t = "map_tree m"
  let ?P = "\<exists>j. contains_at ?t j \<and> equivalent (comparator ?t) k (key_of ?t j)"
  have l: "linked ?t (shape ?t)" by (rule invariants_linked[OF inv])
  have nn: "\<not> contains_at ?t NULL_INDEX" by (rule linked_null[OF l])
  obtain np where np: "index_of_node_with_parent ?t k = Some np"
    and res: "if ?P then contains_at ?t (np_i np)
                \<and> equivalent (comparator ?t) k (key_of ?t (np_i np))
              else np_i np = NULL_INDEX \<and> \<not> contains_at ?t (np_i np)"
    using lookup_result[OF inv swo, of k] by blast
  have c: "contains m k = Some ?P" by (rule contains_iff[OF inv swo])
  have present: "\<exists>i. insert_fm this m (k, v) = Some (Inr (m, create_iterator this m i, False))
              \<and> contains_at ?t i \<and> equivalent (comparator ?t) k (key_of ?t i)
              \<and> dereference ?t (create_iterator this m i)
                  = Some (key_of ?t i, value_of ?t i)" if "?P"
  proof -
    have ci: "contains_at ?t (np_i np)" "equivalent (comparator ?t) k (key_of ?t (np_i np))"
      using res that by simp_all
    have "insert_fm this m (k, v) = Some (Inr (m, create_iterator this m (np_i np), False))"
      using np ci(1) by (simp add: insert_fm_def)
    then show ?thesis using ci dereference_create_iterator[OF ci(1) nn] by blast
  qed
  have absent: "\<exists>m' it. insert_fm this m (k, v) = Some (Inr (m', it, True))
              \<and> size_fm m' = size_fm m + 1
              \<and> dereference (map_tree m') it = Some (k, v)
              \<and> contains m' k = Some True
              \<and> set (entries m') = insert (k, v) (set (entries m))"
    if "\<not> ?P" and room: "size_fm m < max_size m"
  proof -
    have ab: "\<not> contains_at ?t (np_i np)" using res that(1) nn by auto
    have rm: "tree_size ?t < CAPACITY ?t" using room by (simp add: size_fm_def max_size_def)
    obtain t' n where r:
      "insert_new_at ?t np k v = Some (Inr (t', np\<lparr>np_i := n\<rparr>))"
      "red_black_invariants t'" "\<not> contains_at ?t n" "contains_at t' n"
      "key_of t' n = k" "value_of t' n = v"
      "comparator t' = comparator ?t" "CAPACITY t' = CAPACITY ?t"
      "tree_size t' = tree_size ?t + 1"
      "\<exists>xs ys. inorder (shape ?t) = xs @ ys \<and> inorder (shape t') = xs @ n # ys"
      "\<forall>j. j \<noteq> n \<longrightarrow> contains_at t' j = contains_at ?t j
                     \<and> key_of t' j = key_of ?t j \<and> value_of t' j = value_of ?t j"
      using insert_new_at_map[OF inv swo np ab rm, of v] by blast
    define m' where "m' = m\<lparr>map_tree := t'\<rparr>"
    have tm: "map_tree m' = t'" by (simp add: m'_def)
    have ins: "insert_fm this m (k, v) = Some (Inr (m', create_iterator this m' n, True))"
      using np ab r(1) by (simp add: insert_fm_def m'_def)
    have l': "linked t' (shape t')" by (rule invariants_linked[OF r(2)])
    have d: "dereference (map_tree m') (create_iterator this m' n) = Some (k, v)"
      using dereference_create_iterator[of m' n this] r(4,5,6) linked_null[OF l'] tm by simp
    have swo': "strict_weak_order (comparator (map_tree m'))" using swo r(7) tm by simp
    have "equivalent (comparator t') k (key_of t' n)"
      using swo r(5,7) by (simp add: equivalent_def swo_irrefl)
    then have ct: "contains m' k = Some True"
      using contains_iff[of m' k] r(2,4) swo' tm by auto
    obtain xs ys where io: "inorder (shape ?t) = xs @ ys" "inorder (shape t') = xs @ n # ys"
      using r(10) by blast
    have "set (inorder (shape ?t)) = {i. contains_at ?t i}" using l by (simp add: linked_def)
    then have "set xs \<union> set ys = {i. contains_at ?t i}" using io(1) by simp
    then have nin: "n \<notin> set xs" "n \<notin> set ys" using r(3) by auto
    have same: "map (\<lambda>i. (key_of t' i, value_of t' i)) zs
              = map (\<lambda>i. (key_of ?t i, value_of ?t i)) zs" if "n \<notin> set zs" for zs
      using that r(11) by (induction zs) auto
    have "entries m' = map (\<lambda>i. (key_of ?t i, value_of ?t i)) xs @ (k, v)
            # map (\<lambda>i. (key_of ?t i, value_of ?t i)) ys"
      using io(2) same[OF nin(1)] same[OF nin(2)] r(5,6) by (simp add: entries_def tm)
    moreover have "entries m = map (\<lambda>i. (key_of ?t i, value_of ?t i)) xs
            @ map (\<lambda>i. (key_of ?t i, value_of ?t i)) ys"
      using io(1) by (simp add: entries_def)
    ultimately have es: "set (entries m') = insert (k, v) (set (entries m))" by auto
    have "size_fm m' = size_fm m + 1" using r(9) by (simp add: size_fm_def tm)
    then show ?thesis using ins d ct es by blast
  qed
  show ?thesis using c present absent by auto
qed


theorem insert_first_wins_witness:
  "red_black_invariants (map_tree map_2_4)
   \<and> strict_weak_order (comparator (map_tree map_2_4))
   \<and> contains map_2_4 2 = Some True \<and> contains map_2_4 3 = Some False
   \<and> size_fm map_2_4 < max_size map_2_4
   \<and> (\<exists>i. insert_fm 0 map_2_4 (2, 99) = Some (Inr (map_2_4, create_iterator 0 map_2_4 i, False))
          \<and> dereference (map_tree map_2_4) (create_iterator 0 map_2_4 i) = Some (2, 20))
   \<and> (\<exists>m' it. insert_fm 0 map_2_4 (3, 30) = Some (Inr (m', it, True))
          \<and> size_fm m' = 3 \<and> dereference (map_tree m') it = Some (3, 30))"
proof -
  have swo: "strict_weak_order (comparator (map_tree map_2_4))"
    by (auto simp: map_2_4_def strict_weak_order_def)
  have c2: "contains map_2_4 2 = Some True"
    by (simp add: map_2_4_def contains_def contains_node_def index_of_node_or_null_def
        index_of_node_with_parent_def index_of_node_with_parent_loop.simps arena_defs)
  have c3: "contains map_2_4 3 = Some False"
    by (simp add: map_2_4_def contains_def contains_node_def index_of_node_or_null_def
        index_of_node_with_parent_def index_of_node_with_parent_loop.simps arena_defs)
  have sz: "size_fm map_2_4 = 2" "max_size map_2_4 = 4"
    by (simp_all add: map_2_4_def size_fm_def max_size_def arena_defs)
  have k2: "equivalent (comparator (map_tree map_2_4)) 2 (key_of (map_tree map_2_4) i)
      \<Longrightarrow> contains_at (map_tree map_2_4) i \<Longrightarrow> key_of (map_tree map_2_4) i = 2" for i
    by (auto simp: map_2_4_def equivalent_def)
  have v2: "contains_at (map_tree map_2_4) i \<Longrightarrow> key_of (map_tree map_2_4) i = 2
      \<Longrightarrow> value_of (map_tree map_2_4) i = 20" for i
    by (auto simp: map_2_4_def arena_defs nth_Cons' split: if_splits)
  show ?thesis
    using insert_first_wins[OF map_2_4_invariants swo, of 2 0 99]
      insert_first_wins[OF map_2_4_invariants swo, of 3 0 30] swo c2 c3 sz
      map_2_4_invariants k2 v2
    by auto
qed

section \<open>insert_or_assign\<close>

lemma repr_set_value [simp]: "repr (set_value t i v) p j T = repr t p j T"
  by (induction T arbitrary: p j) auto

lemma linked_set_value [simp]: "linked (set_value t i v) T = linked t T"
  by (simp add: linked_def)

lemma rb_local_set_value: "rb_local t T f \<Longrightarrow> rb_local (set_value t i v) T f"
proof -
  have "key_of (set_value t i v) = key_of t" by (rule ext) simp
  then show "rb_local t T f \<Longrightarrow> rb_local (set_value t i v) T f"
    by (simp add: rb_local_def bh_label_def red_red_except_def)
qed

lemma set_value_invariants:
  assumes "red_black_invariants t"
  shows "red_black_invariants (set_value t i v)" and "shape (set_value t i v) = shape t"
proof -
  let ?f = "\<lambda>i. black_height t (subtree_at i (shape t))"
  have rb: "rb_local (set_value t i v) (shape t) ?f"
    by (rule rb_local_set_value) (simp add: invariants_rb_local[OF assms])
  show "red_black_invariants (set_value t i v)"
    using rb_local_invariants[OF rb] invariants_cap[OF assms] by simp
  show "shape (set_value t i v) = shape t" by (rule rb_local_shape[OF rb])
qed

text \<open>A map of capacity one that is full.\<close>
definition full_map1 :: "(nat, nat) FixedMap" where
  "full_map1 =
     \<lparr>map_tree =
        \<lparr>comparator = (<),
         slots = [Some \<lparr>node_key = 2, node_value = 20, parent_index = NULL_INDEX,
                        left_index = NULL_INDEX, right_index = NULL_INDEX, node_color = BLACK\<rparr>],
         root_index = 0\<rparr>\<rparr>"

text \<open>
  C9, as stated, fails on a full map: with an absent key no entry is inserted, no pair is
  returned and the size stays as it is; the call ends in the capacity-exceeded path.
\<close>
theorem insert_or_assign_full_map:
  "red_black_invariants (map_tree full_map1)
   \<and> contains full_map1 3 = Some False
   \<and> size_fm full_map1 = 1 \<and> max_size full_map1 = 1
   \<and> insert_or_assign 0 full_map1 3 30 = Some (Inl CapacityExceeded)"
  by (simp add: full_map1_def invariant_defs contains_def contains_node_def
      index_of_node_or_null_def index_of_node_with_parent_def
      index_of_node_with_parent_loop.simps insert_or_assign_def insert_new_at_def
      size_fm_def max_size_def arena_defs)

text \<open>
  C9, amended. For every map that satisfies the red-black invariants, under a comparator that
  is a strict weak order, \<^verbatim>\<open>insert_or_assign(key, value)\<close> with a key already present, or
  with a key absent and \<^verbatim>\<open>size() < CAPACITY\<close>, returns a pair (iterator, wasInserted) where
  wasInserted is true if and only if the key was absent before the call; when the key was
  present the stored value is assigned the new value, every other entry and the size are
  unchanged; when absent a new entry is inserted and the size increases by one; in both
  cases the returned iterator is positioned at the entry for the key.
\<close>
theorem insert_or_assign_result:
  assumes inv: "red_black_invariants (map_tree m)"
    and swo: "strict_weak_order (comparator (map_tree m))"
  shows "\<exists>present. contains m k = Some present
    \<and> (present \<longrightarrow>
         (\<exists>i m' it. insert_or_assign this m k v = Some (Inr (m', it, False))
              \<and> contains_at (map_tree m) i
              \<and> equivalent (comparator (map_tree m)) k (key_of (map_tree m) i)
              \<and> size_fm m' = size_fm m
              \<and> dereference (map_tree m') it = Some (key_of (map_tree m) i, v)
              \<and> entries m'
                  = map (\<lambda>e. if equivalent (comparator (map_tree m)) k (fst e)
                              then (fst e, v) else e) (entries m)))
    \<and> (\<not> present \<and> size_fm m < max_size m \<longrightarrow>
         (\<exists>m' it. insert_or_assign this m k v = Some (Inr (m', it, True))
              \<and> size_fm m' = size_fm m + 1
              \<and> dereference (map_tree m') it = Some (k, v)
              \<and> contains m' k = Some True
              \<and> set (entries m') = insert (k, v) (set (entries m))))"
proof -
  let ?t = "map_tree m"
  let ?P = "\<exists>j. contains_at ?t j \<and> equivalent (comparator ?t) k (key_of ?t j)"
  have l: "linked ?t (shape ?t)" by (rule invariants_linked[OF inv])
  have nn: "\<not> contains_at ?t NULL_INDEX" by (rule linked_null[OF l])
  obtain np where np: "index_of_node_with_parent ?t k = Some np"
    and res: "if ?P then contains_at ?t (np_i np)
                \<and> equivalent (comparator ?t) k (key_of ?t (np_i np))
              else np_i np = NULL_INDEX \<and> \<not> contains_at ?t (np_i np)"
    using lookup_result[OF inv swo, of k] by blast
  have c: "contains m k = Some ?P" by (rule contains_iff[OF inv swo])
  have present: "\<exists>i m' it. insert_or_assign this m k v = Some (Inr (m', it, False))
              \<and> contains_at ?t i \<and> equivalent (comparator ?t) k (key_of ?t i)
              \<and> size_fm m' = size_fm m
              \<and> dereference (map_tree m') it = Some (key_of ?t i, v)
              \<and> entries m'
                  = map (\<lambda>e. if equivalent (comparator ?t) k (fst e) then (fst e, v) else e)
                      (entries m)" if "?P"
  proof -
    let ?i = "np_i np"
    have ci: "contains_at ?t ?i" "equivalent (comparator ?t) k (key_of ?t ?i)"
      using res that by simp_all
    define m' where "m' = m\<lparr>map_tree := set_value ?t ?i v\<rparr>"
    have tm: "map_tree m' = set_value ?t ?i v" by (simp add: m'_def)
    have ia: "insert_or_assign this m k v = Some (Inr (m', create_iterator this m' ?i, False))"
      using np ci(1) by (simp add: insert_or_assign_def m'_def Let_def)
    have d: "dereference (map_tree m') (create_iterator this m' ?i) = Some (key_of ?t ?i, v)"
      using dereference_create_iterator[of m' ?i this] ci(1) nn tm by simp
    have sz: "size_fm m' = size_fm m" by (simp add: size_fm_def tm)
    have one: "equivalent (comparator ?t) k (key_of ?t j) \<longleftrightarrow> j = ?i"
      if "j \<in> set (inorder (shape ?t))" for j
    proof -
      have "contains_at ?t j" using that l by (simp add: linked_def)
      then show ?thesis using equivalent_entry_unique[OF inv swo _ ci(1) _ ci(2), of j] ci(2)
        by auto
    qed
    have "entries m' = map (\<lambda>e. if equivalent (comparator ?t) k (fst e) then (fst e, v) else e)
                      (entries m)"
      using one ci(1) by (simp add: entries_def tm set_value_invariants(2)[OF inv])
    then show ?thesis using ia ci d sz by blast
  qed
  have absent: "\<exists>m' it. insert_or_assign this m k v = Some (Inr (m', it, True))
              \<and> size_fm m' = size_fm m + 1
              \<and> dereference (map_tree m') it = Some (k, v)
              \<and> contains m' k = Some True
              \<and> set (entries m') = insert (k, v) (set (entries m))"
    if "\<not> ?P" and room: "size_fm m < max_size m"
  proof -
    have ab: "\<not> contains_at ?t (np_i np)" using res that(1) nn by auto
    have rm: "tree_size ?t < CAPACITY ?t" using room by (simp add: size_fm_def max_size_def)
    obtain t' n where r:
      "insert_new_at ?t np k v = Some (Inr (t', np\<lparr>np_i := n\<rparr>))"
      "red_black_invariants t'" "\<not> contains_at ?t n" "contains_at t' n"
      "key_of t' n = k" "value_of t' n = v"
      "comparator t' = comparator ?t" "CAPACITY t' = CAPACITY ?t"
      "tree_size t' = tree_size ?t + 1"
      "\<exists>xs ys. inorder (shape ?t) = xs @ ys \<and> inorder (shape t') = xs @ n # ys"
      "\<forall>j. j \<noteq> n \<longrightarrow> contains_at t' j = contains_at ?t j
                     \<and> key_of t' j = key_of ?t j \<and> value_of t' j = value_of ?t j"
      using insert_new_at_map[OF inv swo np ab rm, of v] by blast
    define m' where "m' = m\<lparr>map_tree := t'\<rparr>"
    have tm: "map_tree m' = t'" by (simp add: m'_def)
    have ins: "insert_or_assign this m k v = Some (Inr (m', create_iterator this m' n, True))"
      using np ab r(1) by (simp add: insert_or_assign_def m'_def)
    have l': "linked t' (shape t')" by (rule invariants_linked[OF r(2)])
    have d: "dereference (map_tree m') (create_iterator this m' n) = Some (k, v)"
      using dereference_create_iterator[of m' n this] r(4,5,6) linked_null[OF l'] tm by simp
    have swo': "strict_weak_order (comparator (map_tree m'))" using swo r(7) tm by simp
    have "equivalent (comparator t') k (key_of t' n)"
      using swo r(5,7) by (simp add: equivalent_def swo_irrefl)
    then have ct: "contains m' k = Some True"
      using contains_iff[of m' k] r(2,4) swo' tm by auto
    obtain xs ys where io: "inorder (shape ?t) = xs @ ys" "inorder (shape t') = xs @ n # ys"
      using r(10) by blast
    have "set (inorder (shape ?t)) = {i. contains_at ?t i}" using l by (simp add: linked_def)
    then have "set xs \<union> set ys = {i. contains_at ?t i}" using io(1) by simp
    then have nin: "n \<notin> set xs" "n \<notin> set ys" using r(3) by auto
    have same: "map (\<lambda>i. (key_of t' i, value_of t' i)) zs
              = map (\<lambda>i. (key_of ?t i, value_of ?t i)) zs" if "n \<notin> set zs" for zs
      using that r(11) by (induction zs) auto
    have "entries m' = map (\<lambda>i. (key_of ?t i, value_of ?t i)) xs @ (k, v)
            # map (\<lambda>i. (key_of ?t i, value_of ?t i)) ys"
      using io(2) same[OF nin(1)] same[OF nin(2)] r(5,6) by (simp add: entries_def tm)
    moreover have "entries m = map (\<lambda>i. (key_of ?t i, value_of ?t i)) xs
            @ map (\<lambda>i. (key_of ?t i, value_of ?t i)) ys"
      using io(1) by (simp add: entries_def)
    ultimately have es: "set (entries m') = insert (k, v) (set (entries m))" by auto
    have "size_fm m' = size_fm m + 1" using r(9) by (simp add: size_fm_def tm)
    then show ?thesis using ins d ct es by blast
  qed
  show ?thesis using c present absent by auto
qed

theorem insert_or_assign_result_witness:
  "red_black_invariants (map_tree map_2_4)
   \<and> strict_weak_order (comparator (map_tree map_2_4))
   \<and> contains map_2_4 2 = Some True \<and> contains map_2_4 3 = Some False
   \<and> size_fm map_2_4 < max_size map_2_4
   \<and> (\<exists>m' it. insert_or_assign 0 map_2_4 2 99 = Some (Inr (m', it, False))
          \<and> size_fm m' = 2 \<and> dereference (map_tree m') it = Some (2, 99))
   \<and> (\<exists>m' it. insert_or_assign 0 map_2_4 3 30 = Some (Inr (m', it, True))
          \<and> size_fm m' = 3 \<and> dereference (map_tree m') it = Some (3, 30))"
proof -
  have swo: "strict_weak_order (comparator (map_tree map_2_4))"
    by (auto simp: map_2_4_def strict_weak_order_def)
  have c2: "contains map_2_4 2 = Some True"
    by (simp add: map_2_4_def contains_def contains_node_def index_of_node_or_null_def
        index_of_node_with_parent_def index_of_node_with_parent_loop.simps arena_defs)
  have c3: "contains map_2_4 3 = Some False"
    by (simp add: map_2_4_def contains_def contains_node_def index_of_node_or_null_def
        index_of_node_with_parent_def index_of_node_with_parent_loop.simps arena_defs)
  have sz: "size_fm map_2_4 = 2" "max_size map_2_4 = 4"
    by (simp_all add: map_2_4_def size_fm_def max_size_def arena_defs)
  have k2: "equivalent (comparator (map_tree map_2_4)) 2 (key_of (map_tree map_2_4) i)
      \<Longrightarrow> contains_at (map_tree map_2_4) i \<Longrightarrow> key_of (map_tree map_2_4) i = 2" for i
    by (auto simp: map_2_4_def equivalent_def)
  show ?thesis
    using insert_or_assign_result[OF map_2_4_invariants swo, of 2 0 99]
      insert_or_assign_result[OF map_2_4_invariants swo, of 3 0 30] swo c2 c3 sz
      map_2_4_invariants k2
    by auto
qed

section \<open>Traversal\<close>

text \<open>
  The loop \<^verbatim>\<open>for (auto it = first; it != last; ++it) visit(*it);\<close> of a caller, with the list
  of the entries it visits. Dereferencing an iterator whose provider has no entry cached is
  the result \<open>None\<close>, as is a loop that never reaches \<open>lst\<close>.
\<close>
partial_function (option) visit_range ::
  "('k, 'v) FixedRedBlackTree \<Rightarrow> Iterator \<Rightarrow> Iterator \<Rightarrow> ('k \<times> 'v) list option" where
  "visit_range t it lst =
     (if iterator_equal it lst then Some []
      else
        (case dereference t it of
           None \<Rightarrow> None
         | Some e \<Rightarrow>
             (case increment t it of
                None \<Rightarrow> None
              | Some it' \<Rightarrow> Option.bind (visit_range t it' lst) (\<lambda>es. Some (e # es)))))"

declare visit_range.simps [code]

lemma next_in_mid:
  "distinct (pre @ y # ys) \<Longrightarrow>
     next_in (pre @ y # ys) y = (case ys of [] \<Rightarrow> NULL_INDEX | z # _ \<Rightarrow> z)"
proof (induction pre)
  case Nil
  then show ?case by (simp add: next_in_Cons_hd)
next
  case (Cons a pre)
  then have "a \<noteq> y" by auto
  moreover obtain b zs where "pre @ y # ys = b # zs" by (cases pre) auto
  ultimately show ?case using Cons by auto
qed

text \<open>A forward iterator standing on the first index of a suffix of the entries visits that
  suffix and stops at \<^verbatim>\<open>end()\<close>.\<close>
lemma visit_forward:
  assumes l: "linked (map_tree m) T" and cap: "CAPACITY (map_tree m) < NULL_INDEX"
  shows "inorder T = pre @ ys \<Longrightarrow> direction it = FORWARD
     \<Longrightarrow> provider_tree (reference_provider it) = Some this
     \<Longrightarrow> current_index (reference_provider it)
           = (case ys of [] \<Rightarrow> CAPACITY (map_tree m) | y # _ \<Rightarrow> y)
     \<Longrightarrow> (ys \<noteq> [] \<longrightarrow> storage (reference_provider it) = Some (hd ys))
     \<Longrightarrow> visit_range (map_tree m) it (end_it this m)
           = Some (map (\<lambda>i. (key_of (map_tree m) i, value_of (map_tree m) i)) ys)"
proof (induction ys arbitrary: pre it)
  case Nil
  have "iterator_equal it (end_it this m)"
    using Nil cap
    by (simp add: iterator_equal_def provider_equal_def end_it_def max_size_def
        replace_null_index_with_capacity_for_end_iterator_def)
  then show ?case by (subst visit_range.simps) simp
next
  case (Cons y ys)
  let ?t = "map_tree m"
  let ?p = "reference_provider it"
  have d: "distinct (inorder T)" and st: "set (inorder T) = {i. contains_at ?t i}"
    using l by (simp_all add: linked_def)
  have cy: "contains_at ?t y" using st Cons.prems(1) by auto
  have yl: "y < CAPACITY ?t" by (rule contains_at_less[OF cy])
  have yn: "y \<noteq> NULL_INDEX" using yl cap by simp
  have cur: "current_index ?p = y" and sto: "storage ?p = Some y"
    using Cons.prems by simp_all
  have ne: "\<not> iterator_equal it (end_it this m)"
    using cur yl cap
    by (simp add: iterator_equal_def provider_equal_def end_it_def max_size_def
        replace_null_index_with_capacity_for_end_iterator_def)
  obtain n where n: "node_at ?t y = Some n" using cy by (auto simp: contains_at_def)
  have de: "dereference ?t it = Some (key_of ?t y, value_of ?t y)"
    using sto n by (simp add: dereference_def get_def key_of_def value_of_def)
  define nx where "nx = (case ys of [] \<Rightarrow> CAPACITY ?t | z # _ \<Rightarrow> z)"
  have su: "index_of_successor_at ?t y = Some (case ys of [] \<Rightarrow> NULL_INDEX | z # _ \<Rightarrow> z)"
    using linked_successor[OF l, of y] next_in_mid[of pre y ys] d Cons.prems(1) by simp
  have znn: "z \<noteq> NULL_INDEX \<and> z < CAPACITY ?t \<and> contains_at ?t z" if "ys = z # zs" for z zs
  proof -
    have "contains_at ?t z" using st Cons.prems(1) that by auto
    then show ?thesis using contains_at_less[of ?t z] cap by simp
  qed
  define it' where "it' = it\<lparr>reference_provider :=
      update_storage ?t (?p\<lparr>current_index := nx\<rparr>)\<rparr>"
  have inc: "increment ?t it = Some it'"
    using Cons.prems(2) cur yn su znn
    by (auto simp: increment_def advance_def it'_def nx_def
        replace_null_index_with_capacity_for_end_iterator_def split: list.splits)
  have p': "direction it' = FORWARD" "provider_tree (reference_provider it') = Some this"
    "current_index (reference_provider it') = nx"
    using Cons.prems(2,3) by (simp_all add: it'_def update_storage_def)
  have s': "ys \<noteq> [] \<longrightarrow> storage (reference_provider it') = Some (hd ys)"
    using znn by (auto simp: it'_def update_storage_def nx_def split: list.splits)
  have "inorder T = (pre @ [y]) @ ys" using Cons.prems(1) by simp
  then have "visit_range ?t it' (end_it this m)
      = Some (map (\<lambda>i. (key_of ?t i, value_of ?t i)) ys)"
    using Cons.IH[of "pre @ [y]" it'] p' s' by (simp add: nx_def)
  then show ?case
    using ne de inc by (subst visit_range.simps) simp
qed

text \<open>A reverse iterator standing on the first index of a suffix of the reversed entries
  visits that suffix and stops at \<^verbatim>\<open>rend()\<close>, the null index.\<close>
lemma visit_reverse:
  assumes l: "linked (map_tree m) T" and cap: "CAPACITY (map_tree m) < NULL_INDEX"
    and re: "provider_tree (reference_provider re) = Some this"
      "current_index (reference_provider re) = NULL_INDEX"
  shows "rev (inorder T) = pre @ ys \<Longrightarrow> direction it = REVERSE
     \<Longrightarrow> provider_tree (reference_provider it) = Some this
     \<Longrightarrow> current_index (reference_provider it)
           = (case ys of [] \<Rightarrow> NULL_INDEX | y # _ \<Rightarrow> y)
     \<Longrightarrow> (ys \<noteq> [] \<longrightarrow> storage (reference_provider it) = Some (hd ys))
     \<Longrightarrow> visit_range (map_tree m) it re
           = Some (map (\<lambda>i. (key_of (map_tree m) i, value_of (map_tree m) i)) ys)"
proof (induction ys arbitrary: pre it)
  case Nil
  have "iterator_equal it re"
    using Nil re by (simp add: iterator_equal_def provider_equal_def)
  then show ?case by (subst visit_range.simps) simp
next
  case (Cons y ys)
  let ?t = "map_tree m"
  let ?p = "reference_provider it"
  have d: "distinct (rev (inorder T))" and st: "set (rev (inorder T)) = {i. contains_at ?t i}"
    using l by (simp_all add: linked_def)
  have cy: "contains_at ?t y" using st Cons.prems(1) by auto
  have yl: "y < CAPACITY ?t" by (rule contains_at_less[OF cy])
  have yn: "y \<noteq> NULL_INDEX" using yl cap by simp
  have cur: "current_index ?p = y" and sto: "storage ?p = Some y"
    using Cons.prems by simp_all
  have ne: "\<not> iterator_equal it re"
    using cur yn re by (simp add: iterator_equal_def provider_equal_def)
  obtain n where n: "node_at ?t y = Some n" using cy by (auto simp: contains_at_def)
  have de: "dereference ?t it = Some (key_of ?t y, value_of ?t y)"
    using sto n by (simp add: dereference_def get_def key_of_def value_of_def)
  define nx where "nx = (case ys of [] \<Rightarrow> NULL_INDEX | z # _ \<Rightarrow> z)"
  have su: "index_of_predecessor_at ?t y = Some nx"
    using linked_predecessor[OF l, of y] next_in_mid[of pre y ys] d Cons.prems(1)
    by (simp add: prev_in_def nx_def)
  have znn: "z \<noteq> NULL_INDEX \<and> z < CAPACITY ?t \<and> contains_at ?t z" if "ys = z # zs" for z zs
  proof -
    have "contains_at ?t z" using st Cons.prems(1) that by auto
    then show ?thesis using contains_at_less[of ?t z] cap by simp
  qed
  define it' where "it' = it\<lparr>reference_provider :=
      update_storage ?t (?p\<lparr>current_index := nx\<rparr>)\<rparr>"
  have inc: "increment ?t it = Some it'"
    using Cons.prems(2) cur yl su
    by (simp add: increment_def recede_def it'_def)
  have p': "direction it' = REVERSE" "provider_tree (reference_provider it') = Some this"
    "current_index (reference_provider it') = nx"
    using Cons.prems(2,3) by (simp_all add: it'_def update_storage_def)
  have s': "ys \<noteq> [] \<longrightarrow> storage (reference_provider it') = Some (hd ys)"
    using znn by (auto simp: it'_def update_storage_def nx_def split: list.splits)
  have "rev (inorder T) = (pre @ [y]) @ ys" using Cons.prems(1) by simp
  then have "visit_range ?t it' re
      = Some (map (\<lambda>i. (key_of ?t i, value_of ?t i)) ys)"
    using Cons.IH[of "pre @ [y]" it'] p' s' by (simp add: nx_def)
  then show ?case
    using ne de inc by (subst visit_range.simps) simp
qed


lemma begin_position:
  assumes l: "linked (map_tree m) T" and cap: "CAPACITY (map_tree m) < NULL_INDEX"
  shows "\<exists>b. begin_it this m = Some b \<and> direction b = FORWARD
     \<and> provider_tree (reference_provider b) = Some this
     \<and> current_index (reference_provider b)
           = (case inorder T of [] \<Rightarrow> CAPACITY (map_tree m) | y # _ \<Rightarrow> y)
     \<and> (inorder T \<noteq> [] \<longrightarrow> storage (reference_provider b) = Some (hd (inorder T)))"
proof (cases "inorder T")
  case Nil
  then show ?thesis
    using linked_min[OF l]
    by (simp add: begin_it_def create_iterator_def forward_iterator_def PairProvider_ctor_def
        update_storage_def Let_def replace_null_index_with_capacity_for_end_iterator_def
        max_size_def)
next
  case (Cons y ys)
  then have "y \<in> set (inorder T)" by simp
  then have cy: "contains_at (map_tree m) y" using l by (simp add: linked_def)
  then have "y < CAPACITY (map_tree m)" by (rule contains_at_less)
  then show ?thesis
    using linked_min[OF l] Cons cy cap
    by (simp add: begin_it_def create_iterator_def forward_iterator_def PairProvider_ctor_def
        update_storage_def Let_def replace_null_index_with_capacity_for_end_iterator_def
        max_size_def)
qed

lemma rbegin_position:
  assumes l: "linked (map_tree m) T" and cap: "CAPACITY (map_tree m) < NULL_INDEX"
  shows "\<exists>b. rbegin this m = Some b \<and> direction b = REVERSE
     \<and> provider_tree (reference_provider b) = Some this
     \<and> current_index (reference_provider b)
           = (case rev (inorder T) of [] \<Rightarrow> NULL_INDEX | y # _ \<Rightarrow> y)
     \<and> (rev (inorder T) \<noteq> [] \<longrightarrow> storage (reference_provider b) = Some (hd (rev (inorder T))))"
proof (cases "inorder T = []")
  case True
  then show ?thesis
    using linked_max[OF l]
    by (simp add: rbegin_def create_reverse_iterator_def reverse_iterator_def recede_def
        PairProvider_ctor_def update_storage_def Let_def max_size_def)
next
  case False
  then have "last (inorder T) \<in> set (inorder T)" by (rule last_in_set)
  then have cy: "contains_at (map_tree m) (last (inorder T))" using l by (simp add: linked_def)
  then have "last (inorder T) < CAPACITY (map_tree m)" by (rule contains_at_less)
  moreover have "(case rev (inorder T) of [] \<Rightarrow> NULL_INDEX | y # _ \<Rightarrow> y) = last (inorder T)
      \<and> hd (rev (inorder T)) = last (inorder T)"
    using False by (cases "inorder T" rule: rev_cases) simp_all
  ultimately show ?thesis
    using linked_max[OF l] False cy
    by (simp add: rbegin_def create_reverse_iterator_def reverse_iterator_def recede_def
        PairProvider_ctor_def update_storage_def Let_def max_size_def)
qed

lemma rend_position:
  assumes l: "linked (map_tree m) T" and cap: "CAPACITY (map_tree m) < NULL_INDEX"
  shows "\<exists>e. rend this m = Some e \<and> direction e = REVERSE
     \<and> provider_tree (reference_provider e) = Some this
     \<and> current_index (reference_provider e) = NULL_INDEX"
proof (cases "inorder T")
  case Nil
  then have "\<not> contains_at (map_tree m) NULL_INDEX" using linked_null[OF l] by simp
  then show ?thesis
    using linked_min[OF l] Nil cap
    by (simp add: rend_def create_reverse_iterator_def reverse_iterator_def recede_def
        PairProvider_ctor_def update_storage_def Let_def index_of_predecessor_at_def)
next
  case (Cons y ys)
  then have "y \<in> set (inorder T)" by simp
  then have cy: "contains_at (map_tree m) y" using l by (simp add: linked_def)
  then have yl: "y < CAPACITY (map_tree m)" by (rule contains_at_less)
  have d: "distinct (inorder T)" using l by (simp add: linked_def)
  have "prev_in (inorder T) y = NULL_INDEX" using prev_in_hd[OF d] Cons by simp
  then have "index_of_predecessor_at (map_tree m) y = Some NULL_INDEX"
    using linked_predecessor[OF l, of y] by simp
  then show ?thesis
    using linked_min[OF l] Cons cy yl linked_null[OF l]
    by (simp add: rend_def create_reverse_iterator_def reverse_iterator_def recede_def
        PairProvider_ctor_def update_storage_def Let_def)
qed

text \<open>
  C3. For every map that satisfies the red-black invariants: the loop from \<^verbatim>\<open>begin()\<close> to
  \<^verbatim>\<open>end()\<close> returns, having visited exactly \<^verbatim>\<open>size()\<close> entries, the entries of the map, with
  keys in strictly increasing order under the comparator; the loop from \<^verbatim>\<open>rbegin()\<close> to
  \<^verbatim>\<open>rend()\<close> returns, having visited the same entries in the opposite order, keys strictly
  decreasing.
\<close>
theorem traversal_in_order:
  assumes inv: "red_black_invariants (map_tree m)"
  shows "\<exists>b rb re es.
       begin_it this m = Some b \<and> rbegin this m = Some rb \<and> rend this m = Some re
     \<and> visit_range (map_tree m) b (end_it this m) = Some es
     \<and> es = entries m
     \<and> length es = size_fm m
     \<and> sorted_wrt (comparator (map_tree m)) (map fst es)
     \<and> visit_range (map_tree m) rb re = Some (rev es)
     \<and> sorted_wrt (\<lambda>a b. comparator (map_tree m) b a) (map fst (rev es))"
proof -
  let ?t = "map_tree m" and ?T = "shape (map_tree m)"
  have l: "linked ?t ?T" by (rule invariants_linked[OF inv])
  have cap: "CAPACITY ?t < NULL_INDEX" by (rule invariants_cap[OF inv])
  obtain b where b: "begin_it this m = Some b" "direction b = FORWARD"
     "provider_tree (reference_provider b) = Some this"
     "current_index (reference_provider b)
           = (case inorder ?T of [] \<Rightarrow> CAPACITY ?t | y # _ \<Rightarrow> y)"
     "inorder ?T \<noteq> [] \<longrightarrow> storage (reference_provider b) = Some (hd (inorder ?T))"
    using begin_position[OF l cap, of this] by blast
  obtain rb where rb: "rbegin this m = Some rb" "direction rb = REVERSE"
     "provider_tree (reference_provider rb) = Some this"
     "current_index (reference_provider rb)
           = (case rev (inorder ?T) of [] \<Rightarrow> NULL_INDEX | y # _ \<Rightarrow> y)"
     "rev (inorder ?T) \<noteq> [] \<longrightarrow> storage (reference_provider rb) = Some (hd (rev (inorder ?T)))"
    using rbegin_position[OF l cap, of this] by blast
  obtain re where re: "rend this m = Some re"
     "provider_tree (reference_provider re) = Some this"
     "current_index (reference_provider re) = NULL_INDEX"
    using rend_position[OF l cap, of this] by blast
  have f: "visit_range ?t b (end_it this m) = Some (entries m)"
    using visit_forward[OF l cap, of "[]" "inorder ?T" b this] b by (simp add: entries_def)
  have r: "visit_range ?t rb re = Some (rev (entries m))"
    using visit_reverse[OF l cap re(2,3), of "[]" "rev (inorder ?T)" rb] rb
    by (simp add: entries_def rev_map)
  have ks: "map fst (entries m) = map (key_of ?t) (inorder ?T)"
    by (simp add: entries_def comp_def)
  have s: "sorted_wrt (comparator ?t) (map fst (entries m))"
    using invariants_sorted[OF inv] by (simp add: ks)
  have "sorted_wrt (\<lambda>a b. comparator ?t b a) (rev (map fst (entries m)))"
    using s by (simp add: sorted_wrt_rev)
  then have sr: "sorted_wrt (\<lambda>a b. comparator ?t b a) (map fst (rev (entries m)))"
    by (simp add: rev_map)
  show ?thesis using b(1) rb(1) re(1) f r s sr size_entries[OF inv] by blast
qed

theorem traversal_in_order_witness:
  "red_black_invariants (map_tree map_2_4)
   \<and> (\<exists>b rb re. begin_it 0 map_2_4 = Some b \<and> rbegin 0 map_2_4 = Some rb
         \<and> rend 0 map_2_4 = Some re
         \<and> visit_range (map_tree map_2_4) b (end_it 0 map_2_4) = Some [(2, 20), (4, 40)]
         \<and> visit_range (map_tree map_2_4) rb re = Some [(4, 40), (2, 20)])"
proof -
  have "entries map_2_4 = [(2, 20), (4, 40)]"
    by (simp add: entries_def map_2_4_def shape_def arena_defs)
  then show ?thesis
    using traversal_in_order[OF map_2_4_invariants, of 0] map_2_4_invariants by auto
qed


section \<open>at\<close>

text \<open>
  C5, as stated, fails in what it says of the default policy: \<^verbatim>\<open>AbortChecking::out_of_range\<close>
  ends the process without any diagnostics; it uses none of the key, the size and the call
  site it is given.
\<close>
theorem default_policy_no_diagnostics:
  "at AbortChecking_out_of_range empty_map4 7 \<lparr>file_name = ''main.cpp'', line = 10\<rparr>
     = Some ([(7, 0, \<lparr>file_name = ''main.cpp'', line = 10\<rparr>)], Aborted None)
   \<and> AbortChecking_out_of_range (7 :: nat) 0 \<lparr>file_name = ''main.cpp'', line = 10\<rparr>
       \<noteq> ProcessAborted (Some (7, 0, \<lparr>file_name = ''main.cpp'', line = 10\<rparr>))"
  by (simp add: at_def AbortChecking_out_of_range_def preconditions_test_def empty_map4_def
      index_of_node_or_null_def index_of_node_with_parent_def
      index_of_node_with_parent_loop.simps size_fm_def arena_defs)

text \<open>
  C5, amended. For every map that satisfies the red-black invariants, under a comparator that
  is a strict weak order: \<^verbatim>\<open>at(key)\<close> returns a reference to the stored value when the key is
  present, without calling the policy; when the key is absent it calls the injected
  out-of-range policy exactly once, passing the key, the current size and the call site, and
  the default policy ends the process, without diagnostics. The result is a reference, the
  end of the process or, when the policy returns, a read at the null index; no path throws.
\<close>
theorem at_reference_or_policy:
  assumes inv: "red_black_invariants (map_tree m)"
    and swo: "strict_weak_order (comparator (map_tree m))"
  shows "\<exists>present. contains m k = Some present
    \<and> (present \<longrightarrow>
         (\<exists>i. contains_at (map_tree m) i
              \<and> equivalent (comparator (map_tree m)) k (key_of (map_tree m) i)
              \<and> at out_of_range m k loc = Some ([], Reference (value_of (map_tree m) i))))
    \<and> (\<not> present \<longrightarrow>
         at out_of_range m k loc
           = Some ([(k, size_fm m, loc)],
                   (case out_of_range k (size_fm m) loc of
                      ProcessAborted d \<Rightarrow> Aborted d
                    | PolicyReturned \<Rightarrow> OutOfBoundsRead))
         \<and> at AbortChecking_out_of_range m k loc
             = Some ([(k, size_fm m, loc)], Aborted None))"
proof -
  let ?t = "map_tree m"
  let ?P = "\<exists>j. contains_at ?t j \<and> equivalent (comparator ?t) k (key_of ?t j)"
  obtain np where np: "index_of_node_with_parent ?t k = Some np"
    and res: "if ?P then contains_at ?t (np_i np)
                \<and> equivalent (comparator ?t) k (key_of ?t (np_i np))
              else np_i np = NULL_INDEX \<and> \<not> contains_at ?t (np_i np)"
    using lookup_result[OF inv swo, of k] by blast
  have c: "contains m k = Some ?P" by (rule contains_iff[OF inv swo])
  have ix: "index_of_node_or_null ?t k = Some (np_i np)"
    using np by (simp add: index_of_node_or_null_def)
  have present: "\<exists>i. contains_at ?t i \<and> equivalent (comparator ?t) k (key_of ?t i)
              \<and> at out_of_range m k loc = Some ([], Reference (value_of ?t i))" if "?P"
  proof -
    have ci: "contains_at ?t (np_i np)" "equivalent (comparator ?t) k (key_of ?t (np_i np))"
      using res that by simp_all
    obtain n where n: "node_at ?t (np_i np) = Some n" using ci(1) by (auto simp: contains_at_def)
    have "at out_of_range m k loc = Some ([], Reference (value_of ?t (np_i np)))"
      using ix ci(1) n by (simp add: at_def preconditions_test_def value_of_def)
    then show ?thesis using ci by blast
  qed
  have absent: "at out_of_range m k loc
           = Some ([(k, size_fm m, loc)],
                   (case out_of_range k (size_fm m) loc of
                      ProcessAborted d \<Rightarrow> Aborted d
                    | PolicyReturned \<Rightarrow> OutOfBoundsRead))" if "\<not> ?P" for out_of_range
  proof -
    have "\<not> contains_at ?t (np_i np)" using res that by (auto split: if_splits)
    then show ?thesis
      using ix
      by (auto simp: at_def preconditions_test_def contains_at_def
          split: policy_effect.splits)
  qed
  have "at AbortChecking_out_of_range m k loc = Some ([(k, size_fm m, loc)], Aborted None)"
    if "\<not> ?P"
    using absent[OF that, of AbortChecking_out_of_range]
    by (simp add: AbortChecking_out_of_range_def)
  then show ?thesis using c present absent by auto
qed

theorem at_reference_or_policy_witness:
  "red_black_invariants (map_tree map_2_4)
   \<and> strict_weak_order (comparator (map_tree map_2_4))
   \<and> contains map_2_4 4 = Some True \<and> contains map_2_4 3 = Some False
   \<and> at AbortChecking_out_of_range map_2_4 4 \<lparr>file_name = ''main.cpp'', line = 10\<rparr>
       = Some ([], Reference 40)
   \<and> at AbortChecking_out_of_range map_2_4 3 \<lparr>file_name = ''main.cpp'', line = 10\<rparr>
       = Some ([(3, 2, \<lparr>file_name = ''main.cpp'', line = 10\<rparr>)], Aborted None)"
proof -
  have swo: "strict_weak_order (comparator (map_tree map_2_4))"
    by (auto simp: map_2_4_def strict_weak_order_def)
  have c4: "contains map_2_4 4 = Some True"
    by (simp add: map_2_4_def contains_def contains_node_def index_of_node_or_null_def
        index_of_node_with_parent_def index_of_node_with_parent_loop.simps arena_defs)
  have c3: "contains map_2_4 3 = Some False"
    by (simp add: map_2_4_def contains_def contains_node_def index_of_node_or_null_def
        index_of_node_with_parent_def index_of_node_with_parent_loop.simps arena_defs)
  have sz: "size_fm map_2_4 = 2"
    by (simp add: map_2_4_def size_fm_def arena_defs)
  have v4: "contains_at (map_tree map_2_4) i
      \<Longrightarrow> equivalent (comparator (map_tree map_2_4)) 4 (key_of (map_tree map_2_4) i)
      \<Longrightarrow> value_of (map_tree map_2_4) i = 40" for i
    by (auto simp: map_2_4_def equivalent_def arena_defs nth_Cons' split: if_splits)
  show ?thesis
    using at_reference_or_policy[OF map_2_4_invariants swo, of 4
        AbortChecking_out_of_range "\<lparr>file_name = ''main.cpp'', line = 10\<rparr>"]
      at_reference_or_policy[OF map_2_4_invariants swo, of 3
        AbortChecking_out_of_range "\<lparr>file_name = ''main.cpp'', line = 10\<rparr>"]
      swo c4 c3 sz map_2_4_invariants v4
    by auto
qed

section \<open>Builder\<close>

text \<open>
  Modelled from the spec: the builder (\<^verbatim>\<open>Builder\<close>, declared in a header that is not part of
  the sources at hand; only its test is) "accumulates repeated insert calls (single pair,
  iterator range, or list) and produces an immutable snapshot on finalize; for a duplicate
  key, the first inserted value wins -- later calls are no-ops". It holds a map, every
  insert call is the \<^verbatim>\<open>insert\<close> of that map, and \<^verbatim>\<open>build\<close> returns a copy of the map held.
\<close>
record ('k, 'v) Builder =
  builder_map :: "('k, 'v) FixedMap"

definition builder_insert ::
  "addr \<Rightarrow> ('k, 'v) Builder \<Rightarrow> 'k \<times> 'v \<Rightarrow> (error + ('k, 'v) Builder) option" where
  "builder_insert this b entry =
     (case insert_fm this (builder_map b) entry of
        None \<Rightarrow> None
      | Some (Inl e) \<Rightarrow> Some (Inl e)
      | Some (Inr (m', _)) \<Rightarrow> Some (Inr (b\<lparr>builder_map := m'\<rparr>)))"

fun builder_insert_range ::
  "addr \<Rightarrow> ('k, 'v) Builder \<Rightarrow> ('k \<times> 'v) list \<Rightarrow> (error + ('k, 'v) Builder) option" where
  "builder_insert_range this b [] = Some (Inr b)"
| "builder_insert_range this b (entry # rest) =
     (case builder_insert this b entry of
        None \<Rightarrow> None
      | Some (Inl e) \<Rightarrow> Some (Inl e)
      | Some (Inr b') \<Rightarrow> builder_insert_range this b' rest)"

definition build :: "('k, 'v) Builder \<Rightarrow> ('k, 'v) FixedMap" where
  "build b = builder_map b"

text \<open>Fluent syntax: the next call is made on the builder the previous call returns.\<close>
fun and_then :: "(error + 'a) option \<Rightarrow> ('a \<Rightarrow> (error + 'b) option) \<Rightarrow> (error + 'b) option" where
  "and_then None f = None"
| "and_then (Some (Inl e)) f = Some (Inl e)"
| "and_then (Some (Inr x)) f = f x"

text \<open>The keys of the test, \<^verbatim>\<open>TestRichEnum1\<close>, ordered by their ordinal.\<close>
datatype TestRichEnum1 = C_ONE | C_TWO | C_THREE | C_FOUR

fun ordinal :: "TestRichEnum1 \<Rightarrow> nat" where
  "ordinal C_ONE = 0"
| "ordinal C_TWO = 1"
| "ordinal C_THREE = 2"
| "ordinal C_FOUR = 3"

definition empty_builder :: "(TestRichEnum1, int) Builder" where
  "empty_builder =
     \<lparr>builder_map =
        \<lparr>map_tree = \<lparr>comparator = (\<lambda>a b. ordinal a < ordinal b),
                     slots = [None, None, None, None], root_index = NULL_INDEX\<rparr>\<rparr>\<rparr>"

text \<open>The map the builder of the example is finalized to.\<close>
definition built_map :: "(TestRichEnum1, int) FixedMap" where
  "built_map =
     \<lparr>map_tree =
        \<lparr>comparator = (\<lambda>a b. ordinal a < ordinal b),
         slots = [Some \<lparr>node_key = C_THREE, node_value = 33, parent_index = NULL_INDEX,
                        left_index = 1, right_index = 2, node_color = BLACK\<rparr>,
                  Some \<lparr>node_key = C_TWO, node_value = 22, parent_index = 0,
                        left_index = NULL_INDEX, right_index = NULL_INDEX, node_color = RED\<rparr>,
                  Some \<lparr>node_key = C_FOUR, node_value = 44, parent_index = 0,
                        left_index = NULL_INDEX, right_index = NULL_INDEX, node_color = RED\<rparr>,
                  None],
         root_index = 0\<rparr>\<rparr>"

section \<open>What insert does to a map\<close>

lemma insert_fm_present:
  assumes inv: "red_black_invariants (map_tree m)"
    and swo: "strict_weak_order (comparator (map_tree m))"
    and present: "contains m k = Some True"
  shows "\<exists>i. insert_fm this m (k, v) = Some (Inr (m, create_iterator this m i, False))"
proof -
  let ?t = "map_tree m"
  obtain np where np: "index_of_node_with_parent ?t k = Some np"
    using lookup_result[OF inv swo, of k] by blast
  then have "contains_at ?t (np_i np)"
    using present
    by (simp add: contains_def contains_node_def index_of_node_or_null_def)
  then show ?thesis using np by (auto simp: insert_fm_def)
qed

lemma insert_fm_absent:
  assumes inv: "red_black_invariants (map_tree m)"
    and swo: "strict_weak_order (comparator (map_tree m))"
    and absent: "contains m k = Some False"
    and room: "size_fm m < max_size m"
  shows "\<exists>m' it n. insert_fm this m (k, v) = Some (Inr (m', it, True))
     \<and> red_black_invariants (map_tree m')
     \<and> comparator (map_tree m') = comparator (map_tree m)
     \<and> max_size m' = max_size m \<and> size_fm m' = size_fm m + 1
     \<and> contains_at (map_tree m') n \<and> key_of (map_tree m') n = k
     \<and> value_of (map_tree m') n = v"
proof -
  let ?t = "map_tree m"
  obtain np where np: "index_of_node_with_parent ?t k = Some np"
    using lookup_result[OF inv swo, of k] by blast
  then have ab: "\<not> contains_at ?t (np_i np)"
    using absent
    by (simp add: contains_def contains_node_def index_of_node_or_null_def)
  have rm: "tree_size ?t < CAPACITY ?t" using room by (simp add: size_fm_def max_size_def)
  obtain t' n where r:
    "insert_new_at ?t np k v = Some (Inr (t', np\<lparr>np_i := n\<rparr>))"
    "red_black_invariants t'" "contains_at t' n"
    "key_of t' n = k" "value_of t' n = v"
    "comparator t' = comparator ?t" "CAPACITY t' = CAPACITY ?t"
    "tree_size t' = tree_size ?t + 1"
    using insert_new_at_map[OF inv swo np ab rm, of v] by blast
  have "insert_fm this m (k, v)
      = Some (Inr (m\<lparr>map_tree := t'\<rparr>, create_iterator this (m\<lparr>map_tree := t'\<rparr>) n, True))"
    using np ab r(1) by (simp add: insert_fm_def)
  then show ?thesis
    using r by (auto simp: max_size_def size_fm_def)
qed

lemma at_stored_value:
  assumes inv: "red_black_invariants (map_tree m)"
    and swo: "strict_weak_order (comparator (map_tree m))"
    and n: "contains_at (map_tree m) n" "key_of (map_tree m) n = k"
  shows "at out_of_range m k loc = Some ([], Reference (value_of (map_tree m) n))"
    and "contains m k = Some True"
proof -
  let ?t = "map_tree m"
  have e: "equivalent (comparator ?t) k (key_of ?t n)"
    using swo n(2) by (simp add: equivalent_def swo_irrefl)
  then have P: "\<exists>j. contains_at ?t j \<and> equivalent (comparator ?t) k (key_of ?t j)"
    using n(1) by blast
  obtain np where np: "index_of_node_with_parent ?t k = Some np"
    and res: "contains_at ?t (np_i np)" "equivalent (comparator ?t) k (key_of ?t (np_i np))"
    using lookup_result[OF inv swo, of k] P by auto
  have "np_i np = n" by (rule equivalent_entry_unique[OF inv swo res(1) n(1) res(2) e])
  moreover obtain nd where "node_at ?t n = Some nd" using n(1) by (auto simp: contains_at_def)
  ultimately show "at out_of_range m k loc = Some ([], Reference (value_of ?t n))"
    using np n(1)
    by (simp add: at_def index_of_node_or_null_def preconditions_test_def value_of_def)
  show "contains m k = Some True" using contains_iff[OF inv swo, of k] P by simp
qed


lemmas lookup_defs = contains_def contains_node_def index_of_node_or_null_def
  index_of_node_with_parent_def index_of_node_with_parent_loop.simps

lemma builder_example:
  "and_then (and_then (and_then (builder_insert 0 empty_builder (C_THREE, 33))
       (\<lambda>b. builder_insert 0 b (C_TWO, 22)))
       (\<lambda>b. builder_insert 0 b (C_TWO, 22222)))
       (\<lambda>b. builder_insert_range 0 b [(C_THREE, 33), (C_FOUR, 44)])
     = Some (Inr \<lparr>builder_map = built_map\<rparr>)"
  by (simp add: empty_builder_def built_map_def builder_insert_def insert_fm_def
      index_of_node_with_parent_def index_of_node_with_parent_loop.simps insert_new_at_def
      fix_after_insertion_def fix_after_insertion_loop.simps arena_defs Let_def)

text \<open>
  C8. For the map builder, inserting a key that was already inserted is a no-op and the first
  inserted value wins in the finalized snapshot: for every builder whose map satisfies the
  red-black invariants under a strict-weak-order comparator, an insert with a key the map
  contains returns the builder as it is, and after a first insert of a key with a value
  (with room left) a second insert of the key with another value changes nothing and the
  snapshot holds the first value. The builder receiving (C,33), (B,22), the duplicate
  (B,22222), then (C,33) and (D,44) is finalized to a map with \<^verbatim>\<open>size() == 3\<close> and
  \<^verbatim>\<open>at(B) == 22\<close>.
\<close>
theorem builder_first_value_wins:
  assumes inv: "red_black_invariants (map_tree (builder_map b))"
    and swo: "strict_weak_order (comparator (map_tree (builder_map b)))"
  shows "(contains (builder_map b) k = Some True \<longrightarrow>
            builder_insert this b (k, v) = Some (Inr b))
    \<and> (contains (builder_map b) k = Some False
         \<and> size_fm (builder_map b) < max_size (builder_map b) \<longrightarrow>
          (\<exists>b'. builder_insert this b (k, v) = Some (Inr b')
              \<and> builder_insert this b' (k, v') = Some (Inr b')
              \<and> size_fm (build b') = size_fm (build b) + 1
              \<and> at out_of_range (build b') k loc = Some ([], Reference v)))
    \<and> and_then (and_then (and_then (builder_insert 0 empty_builder (C_THREE, 33))
           (\<lambda>b. builder_insert 0 b (C_TWO, 22)))
           (\<lambda>b. builder_insert 0 b (C_TWO, 22222)))
           (\<lambda>b. builder_insert_range 0 b [(C_THREE, 33), (C_FOUR, 44)])
         = Some (Inr \<lparr>builder_map = built_map\<rparr>)
    \<and> size_fm (build \<lparr>builder_map = built_map\<rparr>) = 3
    \<and> at AbortChecking_out_of_range (build \<lparr>builder_map = built_map\<rparr>) C_TWO loc
         = Some ([], Reference 22)"
proof -
  let ?m = "builder_map b"
  have p1: "builder_insert this b (k, v) = Some (Inr b)" if "contains ?m k = Some True"
    using insert_fm_present[OF inv swo that, of this v] by (auto simp: builder_insert_def)
  have p2: "\<exists>b'. builder_insert this b (k, v) = Some (Inr b')
              \<and> builder_insert this b' (k, v') = Some (Inr b')
              \<and> size_fm (build b') = size_fm (build b) + 1
              \<and> at out_of_range (build b') k loc = Some ([], Reference v)"
    if ab: "contains ?m k = Some False" and room: "size_fm ?m < max_size ?m"
  proof -
    obtain m' it n where r: "insert_fm this ?m (k, v) = Some (Inr (m', it, True))"
      "red_black_invariants (map_tree m')"
      "comparator (map_tree m') = comparator (map_tree ?m)"
      "size_fm m' = size_fm ?m + 1"
      "contains_at (map_tree m') n" "key_of (map_tree m') n = k"
      "value_of (map_tree m') n = v"
      using insert_fm_absent[OF inv swo ab room, of this v] by blast
    define b' where "b' = b\<lparr>builder_map := m'\<rparr>"
    have bm: "builder_map b' = m'" by (simp add: b'_def)
    have swo': "strict_weak_order (comparator (map_tree m'))" using swo r(3) by simp
    have i1: "builder_insert this b (k, v) = Some (Inr b')"
      using r(1) by (simp add: builder_insert_def b'_def)
    have a: "at out_of_range m' k loc = Some ([], Reference v)" "contains m' k = Some True"
      using at_stored_value[OF r(2) swo' r(5,6)] r(7) by simp_all
    have i2: "builder_insert this b' (k, v') = Some (Inr b')"
      using insert_fm_present[OF r(2) swo' a(2), of this v']
      by (auto simp: builder_insert_def bm b'_def)
    show ?thesis using i1 i2 a(1) r(4) by (auto simp: build_def bm)
  qed
  have sz: "size_fm (build \<lparr>builder_map = built_map\<rparr>) = 3"
    by (simp add: build_def built_map_def size_fm_def arena_defs numeral_3_eq_3)
  have av: "at AbortChecking_out_of_range (build \<lparr>builder_map = built_map\<rparr>) C_TWO loc
         = Some ([], Reference 22)"
    by (simp add: build_def built_map_def at_def preconditions_test_def
        index_of_node_or_null_def index_of_node_with_parent_def
        index_of_node_with_parent_loop.simps arena_defs)
  show ?thesis using p1 p2 builder_example sz av by blast
qed

theorem builder_first_value_wins_witness:
  "red_black_invariants (map_tree (builder_map \<lparr>builder_map = built_map\<rparr>))
   \<and> strict_weak_order (comparator (map_tree (builder_map \<lparr>builder_map = built_map\<rparr>)))
   \<and> contains (builder_map \<lparr>builder_map = built_map\<rparr>) C_TWO = Some True
   \<and> contains (builder_map \<lparr>builder_map = built_map\<rparr>) C_ONE = Some False
   \<and> size_fm (builder_map \<lparr>builder_map = built_map\<rparr>)
       < max_size (builder_map \<lparr>builder_map = built_map\<rparr>)
   \<and> builder_insert 0 \<lparr>builder_map = built_map\<rparr> (C_TWO, 22222)
       = Some (Inr \<lparr>builder_map = built_map\<rparr>)
   \<and> (\<exists>b'. builder_insert 0 \<lparr>builder_map = built_map\<rparr> (C_ONE, 11) = Some (Inr b')
          \<and> builder_insert 0 b' (C_ONE, 11111) = Some (Inr b')
          \<and> size_fm (build b') = 4
          \<and> at AbortChecking_out_of_range (build b') C_ONE \<lparr>file_name = ''t.cpp'', line = 1\<rparr>
              = Some ([], Reference 11))"
proof -
  have inv: "red_black_invariants (map_tree (builder_map \<lparr>builder_map = built_map\<rparr>))"
    by (simp add: built_map_def invariant_defs arena_defs)
  have swo: "strict_weak_order (comparator (map_tree (builder_map \<lparr>builder_map = built_map\<rparr>)))"
    by (auto simp: built_map_def strict_weak_order_def)
  have c2: "contains (builder_map \<lparr>builder_map = built_map\<rparr>) C_TWO = Some True"
    by (simp add: built_map_def lookup_defs arena_defs)
  have c1: "contains (builder_map \<lparr>builder_map = built_map\<rparr>) C_ONE = Some False"
    by (simp add: built_map_def lookup_defs arena_defs)
  have sz: "size_fm built_map = 3" "max_size built_map = 4"
    by (simp_all add: built_map_def size_fm_def max_size_def arena_defs numeral_3_eq_3)
  have sb: "size_fm (build \<lparr>builder_map = built_map\<rparr>) = 3"
    by (simp add: build_def sz)
  show ?thesis
    using builder_first_value_wins[OF inv swo, of C_TWO 0 22222]
      builder_first_value_wins[OF inv swo, of C_ONE 0 11 11111 AbortChecking_out_of_range
        "\<lparr>file_name = ''t.cpp'', line = 1\<rparr>"]
      inv swo c1 c2 sz sb
    by auto
qed

section \<open>The two sentinels\<close>

lemma instantiable_below_null: "instantiable capacity \<Longrightarrow> capacity < NULL_INDEX"
  by (simp add: instantiable_def min_slot_bytes_def SIZE_MAX_def NULL_INDEX_def)

lemma new_map_capacity:
  "new_map capacity cmp = Some m \<Longrightarrow> max_size m = capacity \<and> max_size m < NULL_INDEX"
  using instantiable_below_null[of capacity]
  by (auto simp: new_map_def new_tree_def max_size_def CAPACITY_def split: if_splits)



section \<open>Equality of maps\<close>

text \<open>
  Modelled from the spec: the entry view (\<^verbatim>\<open>PairView\<close>, "a constness-propagating key/value
  view", in a header that is not part of the sources at hand) is what \<^verbatim>\<open>std::equal\<close> compares
  with \<^verbatim>\<open>==\<close>; two views are equal when their keys are and their values are, each by the
  \<^verbatim>\<open>operator==\<close> of its type. These two operators are the arguments \<open>keq\<close> and \<open>veq\<close>; they need
  not be reflexive (a floating-point NaN is not equal to itself).
\<close>
definition pair_view_eq ::
  "('k \<Rightarrow> 'k \<Rightarrow> bool) \<Rightarrow> ('v \<Rightarrow> 'v \<Rightarrow> bool) \<Rightarrow> 'k \<times> 'v \<Rightarrow> 'k \<times> 'v \<Rightarrow> bool" where
  "pair_view_eq keq veq e1 e2 = (keq (fst e1) (fst e2) \<and> veq (snd e1) (snd e2))"

text \<open>
  \<^verbatim>\<open>std::equal(first1, last1, first2)\<close> on the iterators of two maps: the entries are compared
  pairwise with \<^verbatim>\<open>==\<close>, the argument \<open>eq\<close>, until the first range is exhausted.
  Dereferencing an iterator that has no entry is the result \<open>None\<close>.
\<close>
partial_function (option) std_equal ::
  "('k \<times> 'v \<Rightarrow> 'k \<times> 'v \<Rightarrow> bool) \<Rightarrow> ('k, 'v) FixedRedBlackTree \<Rightarrow> Iterator \<Rightarrow> Iterator
    \<Rightarrow> ('k, 'v) FixedRedBlackTree \<Rightarrow> Iterator \<Rightarrow> bool option" where
  "std_equal eq t1 first1 last1 t2 first2 =
     (if iterator_equal first1 last1 then Some True
      else
        (case dereference t1 first1 of
           None \<Rightarrow> None
         | Some e1 \<Rightarrow>
             (case dereference t2 first2 of
                None \<Rightarrow> None
              | Some e2 \<Rightarrow>
                  if \<not> eq e1 e2 then Some False
                  else
                    (case increment t1 first1 of
                       None \<Rightarrow> None
                     | Some next1 \<Rightarrow>
                         (case increment t2 first2 of
                            None \<Rightarrow> None
                          | Some next2 \<Rightarrow> std_equal eq t1 next1 last1 t2 next2)))))"

declare std_equal.simps [code]

text \<open>The objects of a program, by address.\<close>
type_synonym ('k, 'v) store = "addr \<Rightarrow> ('k, 'v) FixedMap option"

text \<open>The part of \<^verbatim>\<open>operator==\<close> that follows the test of identity.\<close>
definition compare_entries ::
  "('k \<Rightarrow> 'k \<Rightarrow> bool) \<Rightarrow> ('v \<Rightarrow> 'v \<Rightarrow> bool) \<Rightarrow> addr \<Rightarrow> ('k, 'v) FixedMap \<Rightarrow> addr
    \<Rightarrow> ('k, 'v) FixedMap \<Rightarrow> bool option" where
  "compare_entries keq veq this a other b =
     (if size_fm a \<noteq> size_fm b then Some False
      else
        (case cbegin this a of
           None \<Rightarrow> None
         | Some first1 \<Rightarrow>
             (case cbegin other b of
                None \<Rightarrow> None
              | Some first2 \<Rightarrow>
                  std_equal (pair_view_eq keq veq) (map_tree a) first1 (cend this a)
                    (map_tree b) first2)))"

text \<open>
  \<^verbatim>\<open>operator==\<close> is a member of a map \<^verbatim>\<open>*this\<close>, of any comparator, and takes a map \<^verbatim>\<open>other\<close> of
  type \<^verbatim>\<open>FixedMap<K, V, C>\<close>: of any capacity \<^verbatim>\<open>C\<close> and of the default comparator
  \<^verbatim>\<open>std::less<K>\<close>, the order \<open><\<close> of the key type. For another comparator of \<^verbatim>\<open>other\<close> there is
  no such operator, and when the two capacities are the same the test \<^verbatim>\<open>this == &other\<close> is
  part of the function and compares two pointers, which must be of one type: in both cases
  the comparison does not compile, the result \<open>None\<close> here.
\<close>
definition operator_eq ::
  "('k \<Rightarrow> 'k \<Rightarrow> bool) \<Rightarrow> ('v \<Rightarrow> 'v \<Rightarrow> bool) \<Rightarrow> ('k :: ord, 'v) store \<Rightarrow> addr \<Rightarrow> addr
    \<Rightarrow> bool option" where
  "operator_eq keq veq \<sigma> this other =
     (case \<sigma> this of
        None \<Rightarrow> None
      | Some a \<Rightarrow>
          (case \<sigma> other of
             None \<Rightarrow> None
           | Some b \<Rightarrow>
               if comparator (map_tree b) \<noteq> (<) then None
               else if max_size a = max_size b then
                 (if comparator (map_tree a) \<noteq> (<) then None
                  else if this = other then Some True
                  else compare_entries keq veq this a other b)
               else compare_entries keq veq this a other b))"

text \<open>One step of a forward iterator that stands on an entry.\<close>
lemma forward_step:
  assumes l: "linked (map_tree m) T" and cap: "CAPACITY (map_tree m) < NULL_INDEX"
    and io: "inorder T = pre @ y # ys"
    and it: "direction it = FORWARD" "provider_tree (reference_provider it) = Some this"
      "current_index (reference_provider it) = y" "storage (reference_provider it) = Some y"
  shows "\<not> iterator_equal it (cend this m)"
    and "dereference (map_tree m) it = Some (key_of (map_tree m) y, value_of (map_tree m) y)"
    and "\<exists>it'. increment (map_tree m) it = Some it' \<and> direction it' = FORWARD
           \<and> provider_tree (reference_provider it') = Some this
           \<and> current_index (reference_provider it')
                = (case ys of [] \<Rightarrow> CAPACITY (map_tree m) | z # _ \<Rightarrow> z)
           \<and> (ys \<noteq> [] \<longrightarrow> storage (reference_provider it') = Some (hd ys))"
proof -
  let ?t = "map_tree m"
  let ?p = "reference_provider it"
  have d: "distinct (inorder T)" and st: "set (inorder T) = {i. contains_at ?t i}"
    using l by (simp_all add: linked_def)
  have cy: "contains_at ?t y" using st io by auto
  have yl: "y < CAPACITY ?t" by (rule contains_at_less[OF cy])
  have yn: "y \<noteq> NULL_INDEX" using yl cap by simp
  show "\<not> iterator_equal it (cend this m)"
    using it(3) yl cap
    by (simp add: iterator_equal_def provider_equal_def cend_def max_size_def
        replace_null_index_with_capacity_for_end_iterator_def)
  obtain n where n: "node_at ?t y = Some n" using cy by (auto simp: contains_at_def)
  show "dereference ?t it = Some (key_of ?t y, value_of ?t y)"
    using it(4) n by (simp add: dereference_def get_def key_of_def value_of_def)
  define nx where "nx = (case ys of [] \<Rightarrow> CAPACITY ?t | z # _ \<Rightarrow> z)"
  have su: "index_of_successor_at ?t y = Some (case ys of [] \<Rightarrow> NULL_INDEX | z # _ \<Rightarrow> z)"
    using linked_successor[OF l, of y] next_in_mid[of pre y ys] d io by simp
  have znn: "z \<noteq> NULL_INDEX \<and> z < CAPACITY ?t \<and> contains_at ?t z" if "ys = z # zs" for z zs
  proof -
    have "contains_at ?t z" using st io that by auto
    then show ?thesis using contains_at_less[of ?t z] cap by simp
  qed
  define it' where "it' = it\<lparr>reference_provider :=
      update_storage ?t (?p\<lparr>current_index := nx\<rparr>)\<rparr>"
  have inc: "increment ?t it = Some it'"
    using it(1,3) yn su znn
    by (auto simp: increment_def advance_def it'_def nx_def
        replace_null_index_with_capacity_for_end_iterator_def split: list.splits)
  have p': "direction it' = FORWARD" "provider_tree (reference_provider it') = Some this"
    "current_index (reference_provider it') = nx"
    using it(1,2) by (simp_all add: it'_def update_storage_def)
  have s': "ys \<noteq> [] \<longrightarrow> storage (reference_provider it') = Some (hd ys)"
    using znn by (auto simp: it'_def update_storage_def nx_def split: list.splits)
  show "\<exists>it'. increment ?t it = Some it' \<and> direction it' = FORWARD
           \<and> provider_tree (reference_provider it') = Some this
           \<and> current_index (reference_provider it')
                = (case ys of [] \<Rightarrow> CAPACITY ?t | z # _ \<Rightarrow> z)
           \<and> (ys \<noteq> [] \<longrightarrow> storage (reference_provider it') = Some (hd ys))"
    using inc p' s' by (auto simp: nx_def)
qed


text \<open>\<^verbatim>\<open>std::equal\<close> on two suffixes of the same length compares them entry by entry.\<close>
lemma std_equal_suffixes:
  assumes l1: "linked (map_tree a) Ta" and cap1: "CAPACITY (map_tree a) < NULL_INDEX"
    and l2: "linked (map_tree (b :: ('k, 'v) FixedMap)) Tb" and cap2: "CAPACITY (map_tree b) < NULL_INDEX"
  shows "inorder Ta = pre1 @ ys1 \<Longrightarrow> inorder Tb = pre2 @ ys2 \<Longrightarrow> length ys1 = length ys2
     \<Longrightarrow> direction it1 = FORWARD \<Longrightarrow> provider_tree (reference_provider it1) = Some this
     \<Longrightarrow> current_index (reference_provider it1)
           = (case ys1 of [] \<Rightarrow> CAPACITY (map_tree a) | y # _ \<Rightarrow> y)
     \<Longrightarrow> (ys1 \<noteq> [] \<longrightarrow> storage (reference_provider it1) = Some (hd ys1))
     \<Longrightarrow> direction it2 = FORWARD \<Longrightarrow> provider_tree (reference_provider it2) = Some other
     \<Longrightarrow> current_index (reference_provider it2)
           = (case ys2 of [] \<Rightarrow> CAPACITY (map_tree b) | y # _ \<Rightarrow> y)
     \<Longrightarrow> (ys2 \<noteq> [] \<longrightarrow> storage (reference_provider it2) = Some (hd ys2))
     \<Longrightarrow> std_equal eq (map_tree a) it1 (cend this a) (map_tree b) it2
           = Some (list_all2 eq
                    (map (\<lambda>i. (key_of (map_tree a) i, value_of (map_tree a) i)) ys1)
                    (map (\<lambda>i. (key_of (map_tree b) i, value_of (map_tree b) i)) ys2))"
proof (induction ys1 arbitrary: ys2 pre1 pre2 it1 it2)
  case Nil
  have "iterator_equal it1 (cend this a)"
    using Nil cap1
    by (simp add: iterator_equal_def provider_equal_def cend_def max_size_def
        replace_null_index_with_capacity_for_end_iterator_def)
  then show ?case using Nil.prems(3) by (subst std_equal.simps) simp
next
  case (Cons y ys)
  obtain z zs where ys2: "ys2 = z # zs" using Cons.prems(3) by (cases ys2) auto
  have len: "length ys = length zs" using Cons.prems(3) ys2 by simp
  have i1: "current_index (reference_provider it1) = y"
    "storage (reference_provider it1) = Some y"
    using Cons.prems(6,7) by simp_all
  have i2: "current_index (reference_provider it2) = z"
    "storage (reference_provider it2) = Some z"
    using Cons.prems(10,11) ys2 by simp_all
  note s1 = forward_step[OF l1 cap1 Cons.prems(1) Cons.prems(4,5) i1]
  note s2 = forward_step[OF l2 cap2 Cons.prems(2)[unfolded ys2] Cons.prems(8,9) i2]
  obtain n1 where n1: "increment (map_tree a) it1 = Some n1" "direction n1 = FORWARD"
    "provider_tree (reference_provider n1) = Some this"
    "current_index (reference_provider n1)
       = (case ys of [] \<Rightarrow> CAPACITY (map_tree a) | z # _ \<Rightarrow> z)"
    "ys \<noteq> [] \<longrightarrow> storage (reference_provider n1) = Some (hd ys)"
    using s1(3) by blast
  obtain n2 where n2: "increment (map_tree b) it2 = Some n2" "direction n2 = FORWARD"
    "provider_tree (reference_provider n2) = Some other"
    "current_index (reference_provider n2)
       = (case zs of [] \<Rightarrow> CAPACITY (map_tree b) | z # _ \<Rightarrow> z)"
    "zs \<noteq> [] \<longrightarrow> storage (reference_provider n2) = Some (hd zs)"
    using s2(3) by blast
  have io1: "inorder Ta = (pre1 @ [y]) @ ys" using Cons.prems(1) by simp
  have io2: "inorder Tb = (pre2 @ [z]) @ zs" using Cons.prems(2) ys2 by simp
  have rest: "std_equal eq (map_tree a) n1 (cend this a) (map_tree b) n2
      = Some (list_all2 eq
               (map (\<lambda>i. (key_of (map_tree a) i, value_of (map_tree a) i)) ys)
               (map (\<lambda>i. (key_of (map_tree b) i, value_of (map_tree b) i)) zs))"
    by (rule Cons.IH[OF io1 io2 len n1(2,3,4,5) n2(2,3,4,5)])
  show ?case
    using s1(1,2) s2(2) n1(1) n2(1) rest ys2
    by (subst std_equal.simps) auto
qed

lemma entries_sorted:
  "red_black_invariants (map_tree m) \<Longrightarrow> sorted_wrt (comparator (map_tree m)) (map fst (entries m))"
  using invariants_sorted[of "map_tree m"] by (simp add: entries_def comp_def)


lemma equivalent_sym: "equivalent lt x y \<Longrightarrow> equivalent lt y x"
  by (auto simp: equivalent_def)

lemma equivalent_trans:
  "strict_weak_order lt \<Longrightarrow> equivalent lt x y \<Longrightarrow> equivalent lt y z \<Longrightarrow> equivalent lt x z"
  unfolding strict_weak_order_def equivalent_def by blast

lemma list_all2_matched:
  "list_all2 R xs ys \<Longrightarrow> \<forall>e\<in>set xs. \<exists>e'\<in>set ys. R e e'"
  by (induction rule: list_all2_induct) auto

text \<open>Two strictly sorted lists of the same length, every entry of the first matched by an
  entry of the second, match position by position, provided equal keys are equivalent.\<close>
lemma matched_sorted_lists:
  assumes swo: "strict_weak_order lt"
    and ke: "\<forall>x y. keq x y \<longrightarrow> equivalent lt x y"
  shows "length xs = length ys \<Longrightarrow> sorted_wrt lt (map fst xs) \<Longrightarrow> sorted_wrt lt (map fst ys)
     \<Longrightarrow> \<forall>e\<in>set xs. \<exists>e'\<in>set ys. pair_view_eq keq veq e e'
     \<Longrightarrow> list_all2 (pair_view_eq keq veq) xs ys"
proof (induction xs arbitrary: ys)
  case Nil
  then show ?case by simp
next
  case (Cons x xs)
  obtain y ys' where ys: "ys = y # ys'" using Cons.prems(1) by (cases ys) auto
  have len: "length xs = length ys'" using Cons.prems(1) ys by simp
  have sx: "\<forall>e\<in>set xs. lt (fst x) (fst e)" and sxs: "sorted_wrt lt (map fst xs)"
    using Cons.prems(2) by auto
  have sy: "\<forall>e\<in>set ys'. lt (fst y) (fst e)" and sys: "sorted_wrt lt (map fst ys')"
    using Cons.prems(3) ys by auto
  have eqv: "equivalent lt (fst e) (fst e')" if "pair_view_eq keq veq e e'" for e e'
    using that ke by (simp add: pair_view_eq_def)
  have "\<exists>mx\<in>set (y # ys'). pair_view_eq keq veq x mx"
    using Cons.prems(4) ys by simp
  then obtain mx where mx: "mx \<in> set (y # ys')" "pair_view_eq keq veq x mx"
    by blast
  have tail: "\<forall>e\<in>set xs. \<exists>e'\<in>set ys'. pair_view_eq keq veq e e'"
  proof
    fix e assume e: "e \<in> set xs"
    then have "\<exists>e'\<in>set (y # ys'). pair_view_eq keq veq e e'"
      using Cons.prems(4) ys by simp
    then obtain e' where e': "e' \<in> set (y # ys')" "pair_view_eq keq veq e e'"
      by blast
    have xe: "lt (fst x) (fst e)" using sx e by simp
    have "e' \<noteq> y"
    proof
      assume "e' = y"
      then have ey: "equivalent lt (fst e) (fst y)" using eqv[OF e'(2)] by simp
      show False
      proof (cases "mx = y")
        case True
        then have "equivalent lt (fst x) (fst y)" using eqv[OF mx(2)] by simp
        then have "equivalent lt (fst x) (fst e)"
          by (rule equivalent_trans[OF swo _ equivalent_sym[OF ey]])
        then show False using xe by (simp add: equivalent_def)
      next
        case False
        then have "lt (fst y) (fst mx)" using mx(1) sy by auto
        then have "lt (fst e) (fst mx)" by (rule swo_equiv_less[OF swo ey])
        then have "lt (fst e) (fst x)"
          by (rule swo_less_equiv[OF swo _ equivalent_sym[OF eqv[OF mx(2)]]])
        then show False using xe swo_asym[OF swo, of "fst x" "fst e"] by simp
      qed
    qed
    then show "\<exists>e'\<in>set ys'. pair_view_eq keq veq e e'" using e' by auto
  qed
  have rest: "list_all2 (pair_view_eq keq veq) xs ys'"
    by (rule Cons.IH[OF len sxs sys tail])
  have "pair_view_eq keq veq x y"
  proof (rule ccontr)
    assume n: "\<not> pair_view_eq keq veq x y"
    then have "mx \<in> set ys'" using mx by auto
    then obtain j where j: "j < length ys'" "ys' ! j = mx" by (auto simp: in_set_conv_nth)
    then have "pair_view_eq keq veq (xs ! j) mx"
      using rest by (auto simp: list_all2_conv_all_nth)
    then have "equivalent lt (fst (xs ! j)) (fst mx)" by (rule eqv)
    then have "equivalent lt (fst mx) (fst (xs ! j))" by (rule equivalent_sym)
    then have "equivalent lt (fst x) (fst (xs ! j))"
      by (rule equivalent_trans[OF swo eqv[OF mx(2)]])
    moreover have "xs ! j \<in> set xs" using j(1) len by simp
    ultimately show False using sx by (auto simp: equivalent_def)
  qed
  then show ?case using rest ys by simp
qed

text \<open>The comparison that follows the test of identity.\<close>
lemma compare_entries_result:
  fixes a b :: "('k, 'v) FixedMap"
  assumes inva: "red_black_invariants (map_tree a)" and invb: "red_black_invariants (map_tree b)"
  shows "compare_entries keq veq this a other b
    = Some (size_fm a = size_fm b \<and> list_all2 (pair_view_eq keq veq) (entries a) (entries b))"
proof (cases "size_fm a = size_fm b")
  case False
  then show ?thesis by (simp add: compare_entries_def)
next
  case True
  let ?Ta = "shape (map_tree a)" and ?Tb = "shape (map_tree b)"
  have la: "linked (map_tree a) ?Ta" and lb: "linked (map_tree b) ?Tb"
    using invariants_linked inva invb by blast+
  have ca: "CAPACITY (map_tree a) < NULL_INDEX" and cb: "CAPACITY (map_tree b) < NULL_INDEX"
    using invariants_cap inva invb by blast+
  obtain f1 where f1: "begin_it this a = Some f1" "direction f1 = FORWARD"
     "provider_tree (reference_provider f1) = Some this"
     "current_index (reference_provider f1)
           = (case inorder ?Ta of [] \<Rightarrow> CAPACITY (map_tree a) | y # _ \<Rightarrow> y)"
     "inorder ?Ta \<noteq> [] \<longrightarrow> storage (reference_provider f1) = Some (hd (inorder ?Ta))"
    using begin_position[OF la ca, of this] by blast
  obtain f2 where f2: "begin_it other b = Some f2" "direction f2 = FORWARD"
     "provider_tree (reference_provider f2) = Some other"
     "current_index (reference_provider f2)
           = (case inorder ?Tb of [] \<Rightarrow> CAPACITY (map_tree b) | y # _ \<Rightarrow> y)"
     "inorder ?Tb \<noteq> [] \<longrightarrow> storage (reference_provider f2) = Some (hd (inorder ?Tb))"
    using begin_position[OF lb cb, of other] by blast
  have len: "length (inorder ?Ta) = length (inorder ?Tb)"
    using True size_entries[OF inva] size_entries[OF invb] by (simp add: entries_def)
  have "std_equal (pair_view_eq keq veq) (map_tree a) f1 (cend this a) (map_tree b) f2
      = Some (list_all2 (pair_view_eq keq veq) (entries a) (entries b))"
    using std_equal_suffixes[OF la ca lb cb, of "[]" "inorder ?Ta" "[]" "inorder ?Tb" f1 this
        f2 other] len f1 f2
    by (simp add: entries_def)
  moreover have "cbegin this a = Some f1" "cbegin other b = Some f2"
    using f1(1) f2(1) by (simp_all add: cbegin_def begin_it_def)
  ultimately show ?thesis
    using True by (simp add: compare_entries_def)
qed

text \<open>Two maps with the same entries, one ordered by \<open>>\<close> and one by \<open><\<close>.\<close>
definition empty_desc3 :: "(nat, nat) FixedMap" where
  "empty_desc3 =
     \<lparr>map_tree = \<lparr>comparator = (\<lambda>a b. b < a), slots = [None, None, None],
                  root_index = NULL_INDEX\<rparr>\<rparr>"

definition map_desc :: "(nat, nat) FixedMap" where
  "map_desc =
     \<lparr>map_tree =
        \<lparr>comparator = (\<lambda>a b. b < a),
         slots = [Some \<lparr>node_key = 2, node_value = 20, parent_index = NULL_INDEX,
                        left_index = 1, right_index = NULL_INDEX, node_color = BLACK\<rparr>,
                  Some \<lparr>node_key = 4, node_value = 40, parent_index = 0,
                        left_index = NULL_INDEX, right_index = NULL_INDEX, node_color = RED\<rparr>,
                  None],
         root_index = 0\<rparr>\<rparr>"

text \<open>The map after \<^verbatim>\<open>insert({4, 40})\<close> and \<^verbatim>\<open>insert({2, 20})\<close>, in a map of capacity 5.\<close>
definition empty_map5 :: "(nat, nat) FixedMap" where
  "empty_map5 =
     \<lparr>map_tree = \<lparr>comparator = (<), slots = [None, None, None, None, None],
                  root_index = NULL_INDEX\<rparr>\<rparr>"

definition map_4_2 :: "(nat, nat) FixedMap" where
  "map_4_2 =
     \<lparr>map_tree =
        \<lparr>comparator = (<),
         slots = [Some \<lparr>node_key = 4, node_value = 40, parent_index = NULL_INDEX,
                        left_index = 1, right_index = NULL_INDEX, node_color = BLACK\<rparr>,
                  Some \<lparr>node_key = 2, node_value = 20, parent_index = 0,
                        left_index = NULL_INDEX, right_index = NULL_INDEX, node_color = RED\<rparr>,
                  None, None, None],
         root_index = 0\<rparr>\<rparr>"

lemmas insert_defs = insert_fm_def index_of_node_with_parent_def
  index_of_node_with_parent_loop.simps insert_new_at_def fix_after_insertion_def
  fix_after_insertion_loop.simps

lemmas iterator_defs = cbegin_def cend_def begin_it_def end_it_def create_iterator_def
  forward_iterator_def PairProvider_ctor_def update_storage_def
  replace_null_index_with_capacity_for_end_iterator_def max_size_def iterator_equal_def
  provider_equal_def dereference_def get_def increment_def advance_def
  index_of_min_at_def leftmost.simps index_of_successor_at_def climb_from_right.simps


text \<open>A value type whose \<^verbatim>\<open>operator==\<close> is not reflexive, as that of a floating-point type:
  the value \<open>NaN\<close> is equal to no value.\<close>
datatype fp = NaN | Num int

fun fp_eq :: "fp \<Rightarrow> fp \<Rightarrow> bool" where
  "fp_eq (Num x) (Num y) = (x = y)"
| "fp_eq _ _ = False"

definition map_nan :: "(nat, fp) FixedMap" where
  "map_nan =
     \<lparr>map_tree =
        \<lparr>comparator = (<),
         slots = [Some \<lparr>node_key = 1, node_value = NaN, parent_index = NULL_INDEX,
                        left_index = NULL_INDEX, right_index = NULL_INDEX, node_color = BLACK\<rparr>],
         root_index = 0\<rparr>\<rparr>"

text \<open>A key type whose \<^verbatim>\<open>operator==\<close> holds for keys that the order tells apart: here two
  numbers are equal when they have the same parity.\<close>
definition parity_eq :: "nat \<Rightarrow> nat \<Rightarrow> bool" where
  "parity_eq x y = (x mod 2 = y mod 2)"

definition map_1_3 :: "(nat, nat) FixedMap" where
  "map_1_3 =
     \<lparr>map_tree =
        \<lparr>comparator = (<),
         slots = [Some \<lparr>node_key = 1, node_value = 10, parent_index = NULL_INDEX,
                        left_index = NULL_INDEX, right_index = 1, node_color = BLACK\<rparr>,
                  Some \<lparr>node_key = 3, node_value = 10, parent_index = 0,
                        left_index = NULL_INDEX, right_index = NULL_INDEX, node_color = RED\<rparr>],
         root_index = 0\<rparr>\<rparr>"

definition map_1_2 :: "(nat, nat) FixedMap" where
  "map_1_2 =
     \<lparr>map_tree =
        \<lparr>comparator = (<),
         slots = [Some \<lparr>node_key = 1, node_value = 10, parent_index = NULL_INDEX,
                        left_index = NULL_INDEX, right_index = 1, node_color = BLACK\<rparr>,
                  Some \<lparr>node_key = 2, node_value = 10, parent_index = 0,
                        left_index = NULL_INDEX, right_index = NULL_INDEX, node_color = RED\<rparr>],
         root_index = 0\<rparr>\<rparr>"

lemmas equality_defs = operator_eq_def compare_entries_def std_equal.simps pair_view_eq_def
  size_fm_def iterator_defs arena_defs Let_def

text \<open>
  C6, as stated, fails in three ways. Two maps that are not ordered by the same comparator: a
  map ordered by \<open>>\<close>, of capacity 3, and a map ordered by \<open><\<close>, of capacity 4, both holding
  the entries (2, 20) and (4, 40), are not equal for \<^verbatim>\<open>operator==\<close>, which compares the two
  traversals position by position. A map holding a value that is not equal to itself is
  equal to itself by the identity short-circuit, and not equal to its copy at another
  address, where the entries are compared. With keys that \<^verbatim>\<open>operator==\<close> holds equal and the
  order tells apart, every entry of the map {1, 3} has an entry of equal key and equal value
  in the map {1, 2}, of the same count, and the two maps are not equal.
\<close>
theorem equality_not_by_entries:
  "insert_range 0 empty_desc3 [(2, 20), (4, 40)] = Some (Inr map_desc)
   \<and> insert_range 1 empty_map4 [(2, 20), (4, 40)] = Some (Inr map_2_4)
   \<and> size_fm map_desc = size_fm map_2_4
   \<and> set (entries map_desc) = set (entries map_2_4)
   \<and> operator_eq (=) (=) [0 \<mapsto> map_desc, 1 \<mapsto> map_2_4] 0 1 = Some False
   \<and> entries map_nan = [(1, NaN)] \<and> \<not> fp_eq NaN NaN
   \<and> operator_eq (=) fp_eq [0 \<mapsto> map_nan, 1 \<mapsto> map_nan] 0 0 = Some True
   \<and> operator_eq (=) fp_eq [0 \<mapsto> map_nan, 1 \<mapsto> map_nan] 0 1 = Some False
   \<and> compare_entries (=) fp_eq 0 map_nan 0 map_nan = Some False
   \<and> entries map_1_3 = [(1, 10), (3, 10)] \<and> entries map_1_2 = [(1, 10), (2, 10)]
   \<and> pair_view_eq parity_eq (=) (1, 10) (1, 10 :: nat)
   \<and> pair_view_eq parity_eq (=) (3, 10) (1, 10 :: nat)
   \<and> operator_eq parity_eq (=) [0 \<mapsto> map_1_3, 1 \<mapsto> map_1_2] 0 1 = Some False"
proof -
  have "insert_range 0 empty_desc3 [(2, 20), (4, 40)] = Some (Inr map_desc)"
    by (simp add: empty_desc3_def map_desc_def insert_defs arena_defs Let_def)
  moreover have "insert_range 1 empty_map4 [(2, 20), (4, 40)] = Some (Inr map_2_4)"
    by (simp add: empty_map4_def map_2_4_def insert_defs arena_defs Let_def)
  moreover have "size_fm map_desc = size_fm map_2_4"
    by (simp add: map_desc_def map_2_4_def size_fm_def arena_defs)
  moreover have "entries map_desc = [(4, 40), (2, 20)]" "entries map_2_4 = [(2, 20), (4, 40)]"
    by (simp_all add: entries_def map_desc_def map_2_4_def shape_def arena_defs)
  then have "set (entries map_desc) = set (entries map_2_4)" by auto
  moreover have "operator_eq (=) (=) [0 \<mapsto> map_desc, 1 \<mapsto> map_2_4] 0 1 = Some False"
    by (simp add: map_desc_def map_2_4_def equality_defs)
  moreover have "entries map_nan = [(1, NaN)]"
    by (simp add: entries_def map_nan_def shape_def arena_defs)
  moreover have "operator_eq (=) fp_eq [0 \<mapsto> map_nan, 1 \<mapsto> map_nan] 0 0 = Some True"
    by (simp add: map_nan_def operator_eq_def max_size_def)
  moreover have "operator_eq (=) fp_eq [0 \<mapsto> map_nan, 1 \<mapsto> map_nan] 0 1 = Some False"
    by (simp add: map_nan_def equality_defs)
  moreover have "compare_entries (=) fp_eq 0 map_nan 0 map_nan = Some False"
    by (simp add: map_nan_def equality_defs)
  moreover have "entries map_1_3 = [(1, 10), (3, 10)]" "entries map_1_2 = [(1, 10), (2, 10)]"
    by (simp_all add: entries_def map_1_3_def map_1_2_def shape_def arena_defs)
  moreover have "pair_view_eq parity_eq (=) (1, 10) (1, 10 :: nat)"
    "pair_view_eq parity_eq (=) (3, 10) (1, 10 :: nat)"
    by (simp_all add: pair_view_eq_def parity_eq_def)
  moreover have "operator_eq parity_eq (=) [0 \<mapsto> map_1_3, 1 \<mapsto> map_1_2] 0 1 = Some False"
    by (simp add: map_1_3_def map_1_2_def parity_eq_def equality_defs)
  moreover have "\<not> fp_eq NaN NaN" by simp
  ultimately show ?thesis by (intro conjI) assumption+
qed


text \<open>
  C6, amended. For any two maps A and B over the same key and value types that are both
  ordered by the default comparator (\<^verbatim>\<open>operator==\<close> takes no map of another comparator for
  B), with keys that are equivalent under the comparator whenever \<^verbatim>\<open>==\<close> holds them equal,
  even with different declared capacities: comparing the entries of A and B gives true if
  and only if they have the same count of entries and for every entry of A an entry with
  equal key and equal value exists in B, whatever the shapes of the two trees, so
  independent of the order in which the entries were inserted; \<^verbatim>\<open>A == B\<close> is this result
  when the identity short-circuit is not taken (different capacities or addresses), and
  also when it is taken provided every entry of the map is equal to itself.
\<close>
theorem equality_same_entries:
  fixes \<sigma> :: "('k :: ord, 'v) store"
  assumes a: "\<sigma> this = Some a" and b: "\<sigma> other = Some b"
    and inva: "red_black_invariants (map_tree a)" and invb: "red_black_invariants (map_tree b)"
    and cmpa: "comparator (map_tree a) = (<)" and cmpb: "comparator (map_tree b) = (<)"
    and swo: "strict_weak_order ((<) :: 'k \<Rightarrow> 'k \<Rightarrow> bool)"
    and ke: "\<forall>x y. keq x y \<longrightarrow> equivalent (<) x y"
  shows "compare_entries keq veq this a other b
           = Some (size_fm a = size_fm b
                   \<and> (\<forall>e\<in>set (entries a). \<exists>e'\<in>set (entries b). pair_view_eq keq veq e e'))
    \<and> (\<not> (max_size a = max_size b \<and> this = other) \<longrightarrow>
          operator_eq keq veq \<sigma> this other = compare_entries keq veq this a other b)
    \<and> ((\<forall>e\<in>set (entries a). pair_view_eq keq veq e e) \<longrightarrow>
          operator_eq keq veq \<sigma> this other = compare_entries keq veq this a other b)"
proof -
  let ?R = "pair_view_eq keq veq"
  have ce: "compare_entries keq veq this a other b
      = Some (size_fm a = size_fm b \<and> list_all2 ?R (entries a) (entries b))"
    by (rule compare_entries_result[OF inva invb])
  have sa: "sorted_wrt (<) (map fst (entries a))" using entries_sorted[OF inva] cmpa by simp
  have sb: "sorted_wrt (<) (map fst (entries b))" using entries_sorted[OF invb] cmpb by simp
  have m1: "list_all2 ?R (entries a) (entries b)"
    if "size_fm a = size_fm b" "\<forall>e\<in>set (entries a). \<exists>e'\<in>set (entries b). ?R e e'"
  proof -
    have "length (entries a) = length (entries b)"
      using that(1) size_entries[OF inva] size_entries[OF invb] by simp
    then show ?thesis by (rule matched_sorted_lists[OF swo ke _ sa sb that(2)])
  qed
  have m2: "\<forall>e\<in>set (entries a). \<exists>e'\<in>set (entries b). ?R e e'"
    if "list_all2 ?R (entries a) (entries b)"
    by (rule list_all2_matched[OF that])
  have r: "(size_fm a = size_fm b \<and> list_all2 ?R (entries a) (entries b))
      = (size_fm a = size_fm b \<and> (\<forall>e\<in>set (entries a). \<exists>e'\<in>set (entries b). ?R e e'))"
    using m1 m2 by blast
  have A: "compare_entries keq veq this a other b
           = Some (size_fm a = size_fm b
                   \<and> (\<forall>e\<in>set (entries a). \<exists>e'\<in>set (entries b). ?R e e'))"
    using ce r by simp
  have B: "operator_eq keq veq \<sigma> this other = compare_entries keq veq this a other b"
    if "\<not> (max_size a = max_size b \<and> this = other)"
    using that a b cmpa cmpb by (auto simp: operator_eq_def)
  have C: "operator_eq keq veq \<sigma> this other = compare_entries keq veq this a other b"
    if refl: "\<forall>e\<in>set (entries a). ?R e e"
  proof (cases "max_size a = max_size b \<and> this = other")
    case True
    then have ab: "a = b" using a b by simp
    have "\<forall>e\<in>set (entries a). \<exists>e'\<in>set (entries b). ?R e e'" using refl ab by blast
    then have "compare_entries keq veq this a other b = Some True" using A ab by simp
    then show ?thesis using a b True cmpa cmpb by (simp add: operator_eq_def)
  next
    case False
    then show ?thesis by (rule B)
  qed
  show ?thesis using A B C by blast
qed

theorem equality_same_entries_witness:
  "insert_range 0 empty_map4 [(2, 20), (4, 40)] = Some (Inr map_2_4)
   \<and> insert_range 1 empty_map5 [(4, 40), (2, 20)] = Some (Inr map_4_2)
   \<and> red_black_invariants (map_tree map_2_4) \<and> red_black_invariants (map_tree map_4_2)
   \<and> comparator (map_tree map_2_4) = (<) \<and> comparator (map_tree map_4_2) = (<)
   \<and> strict_weak_order ((<) :: nat \<Rightarrow> nat \<Rightarrow> bool)
   \<and> max_size map_2_4 = 4 \<and> max_size map_4_2 = 5
   \<and> map_tree map_2_4 \<noteq> map_tree map_4_2
   \<and> operator_eq (=) (=) [0 \<mapsto> map_2_4, 1 \<mapsto> map_4_2] 0 1 = Some True
   \<and> operator_eq (=) (=) [0 \<mapsto> map_2_4, 1 \<mapsto> map_4_2] 1 0 = Some True
   \<and> operator_eq (=) (=) [0 \<mapsto> map_2_4, 1 \<mapsto> map_4_2] 0 0 = Some True
   \<and> compare_entries (=) (=) 0 map_2_4 0 map_2_4 = Some True
   \<and> operator_eq (=) (=) [0 \<mapsto> map_2_4, 1 \<mapsto> empty_map4] 0 1 = Some False"
proof -
  have i1: "insert_range 0 empty_map4 [(2, 20), (4, 40)] = Some (Inr map_2_4)"
    by (simp add: empty_map4_def map_2_4_def insert_defs arena_defs Let_def)
  have i2: "insert_range 1 empty_map5 [(4, 40), (2, 20)] = Some (Inr map_4_2)"
    by (simp add: empty_map5_def map_4_2_def insert_defs arena_defs Let_def)
  have inv2: "red_black_invariants (map_tree map_4_2)"
    by (simp add: map_4_2_def invariant_defs arena_defs)
  have cmp: "comparator (map_tree map_2_4) = (<)" "comparator (map_tree map_4_2) = (<)"
    "comparator (map_tree empty_map4) = (<)"
    by (simp_all add: map_2_4_def map_4_2_def empty_map4_def)
  have swo: "strict_weak_order ((<) :: nat \<Rightarrow> nat \<Rightarrow> bool)"
    by (auto simp: strict_weak_order_def)
  have ke: "\<forall>x y :: nat. x = y \<longrightarrow> equivalent (<) x y"
    by (simp add: equivalent_def)
  have ms: "max_size map_2_4 = 4" "max_size map_4_2 = 5" "max_size empty_map4 = 4"
    by (simp_all add: map_2_4_def map_4_2_def empty_map4_def max_size_def arena_defs)
  have ne: "map_tree map_2_4 \<noteq> map_tree map_4_2"
    by (simp add: map_2_4_def map_4_2_def)
  have sz: "size_fm map_2_4 = 2" "size_fm map_4_2 = 2" "size_fm empty_map4 = 0"
    by (simp_all add: map_2_4_def map_4_2_def empty_map4_def size_fm_def arena_defs)
  have es: "entries map_2_4 = [(2, 20), (4, 40)]" "entries map_4_2 = [(2, 20), (4, 40)]"
    by (simp_all add: entries_def map_2_4_def map_4_2_def shape_def arena_defs)
  have r1: "operator_eq (=) (=) [0 \<mapsto> map_2_4, 1 \<mapsto> map_4_2] 0 1 = Some True"
    using equality_same_entries[of "[0 \<mapsto> map_2_4, 1 \<mapsto> map_4_2]" 0 map_2_4 1 map_4_2
        "(=)" "(=)", OF _ _ map_2_4_invariants inv2 cmp(1,2) swo ke] sz es ms
    by (simp add: pair_view_eq_def)
  have r2: "operator_eq (=) (=) [0 \<mapsto> map_2_4, 1 \<mapsto> map_4_2] 1 0 = Some True"
    using equality_same_entries[of "[0 \<mapsto> map_2_4, 1 \<mapsto> map_4_2]" 1 map_4_2 0 map_2_4
        "(=)" "(=)", OF _ _ inv2 map_2_4_invariants cmp(2,1) swo ke] sz es ms
    by (simp add: pair_view_eq_def)
  have r3: "operator_eq (=) (=) [0 \<mapsto> map_2_4, 1 \<mapsto> map_4_2] 0 0 = Some True
      \<and> compare_entries (=) (=) 0 map_2_4 0 map_2_4 = Some True"
    using equality_same_entries[of "[0 \<mapsto> map_2_4, 1 \<mapsto> map_4_2]" 0 map_2_4 0 map_2_4
        "(=)" "(=)", OF _ _ map_2_4_invariants map_2_4_invariants cmp(1,1) swo ke] sz es
    by (simp add: pair_view_eq_def)
  have r4: "operator_eq (=) (=) [0 \<mapsto> map_2_4, 1 \<mapsto> empty_map4] 0 1 = Some False"
    using equality_same_entries[of "[0 \<mapsto> map_2_4, 1 \<mapsto> empty_map4]" 0 map_2_4 1 empty_map4
        "(=)" "(=)", OF _ _ map_2_4_invariants empty_map4_invariants cmp(1,3) swo ke] sz
    by simp
  show ?thesis using i1 i2 inv2 map_2_4_invariants cmp(1,2) swo ms(1,2) ne r1 r2 r3 r4
    by (intro conjI) simp_all
qed

end
